(* ===== verification/Prelude.thy ===== *)
theory Prelude
  imports "HOL-Library.Word"
begin

text \<open>
  Shared vocabulary of the development: machine integers and byte strings, the
  \<open>Result\<close> type of the Rust sources with its \<open>?\<close>-style sequencing, the
  checked and saturating arithmetic of \<open>u64\<close>, slices and in-place copies of byte
  buffers, and the big- and little-endian integer encodings of the standard
  library (\<open>to_be_bytes\<close>, \<open>from_le_bytes\<close> and their relatives).
\<close>

section \<open>Types\<close>

type_synonym u8 = "8 word"
type_synonym u16 = "16 word"
type_synonym u32 = "32 word"
type_synonym u64 = "64 word"
type_synonym bytes = "u8 list"
type_synonym ('e, 'a) result = "'e + 'a"

named_theorems result_simps "sequencing of results"
named_theorems checked_arith "checked and saturating arithmetic, unfolded"
named_theorems slice_simps "slices and in-place copies"

section \<open>Results\<close>

fun and_then :: "('e, 'a) result \<Rightarrow> ('a \<Rightarrow> ('e, 'b) result) \<Rightarrow> ('e, 'b) result" where
  "and_then (Inl e) f = Inl e"
| "and_then (Inr x) f = f x"

definition ensure :: "bool \<Rightarrow> 'e \<Rightarrow> ('e, unit) result" where
  "ensure b e = (if b then Inr () else Inl e)"

definition ok_or :: "'e \<Rightarrow> 'a option \<Rightarrow> ('e, 'a) result" where
  "ok_or e m = (case m of None \<Rightarrow> Inl e | Some x \<Rightarrow> Inr x)"

fun map_err :: "('e \<Rightarrow> 'f) \<Rightarrow> ('e, 'a) result \<Rightarrow> ('f, 'a) result" where
  "map_err f (Inl e) = Inl (f e)"
| "map_err f (Inr x) = Inr x"

fun is_ok :: "('e, 'a) result \<Rightarrow> bool" where
  "is_ok (Inl _) = False"
| "is_ok (Inr _) = True"

fun try_fold :: "('s \<Rightarrow> 'a \<Rightarrow> ('e, 's) result) \<Rightarrow> 's \<Rightarrow> 'a list \<Rightarrow> ('e, 's) result" where
  "try_fold f s [] = Inr s"
| "try_fold f s (x # xs) = and_then (f s x) (\<lambda>s'. try_fold f s' xs)"

lemma and_then_Inr_iff [result_simps]:
  "and_then m f = Inr y \<longleftrightarrow> (\<exists>x. m = Inr x \<and> f x = Inr y)"
  by (cases m) auto

lemma and_then_Inl_iff [result_simps]:
  "and_then m f = Inl e \<longleftrightarrow> m = Inl e \<or> (\<exists>x. m = Inr x \<and> f x = Inl e)"
  by (cases m) auto

lemma and_thenE:
  assumes "and_then m f = Inr y"
  obtains x where "m = Inr x" "f x = Inr y"
  using assms by (cases m) auto

lemma and_then_assoc: "and_then (and_then m f) g = and_then m (\<lambda>x. and_then (f x) g)"
  by (cases m) auto

lemma ensure_Inr_iff [simp]: "ensure b e = Inr u \<longleftrightarrow> b"
  by (simp add: ensure_def)

lemma ensure_Inl_iff [simp]: "ensure b e = Inl e' \<longleftrightarrow> \<not> b \<and> e' = e"
  by (auto simp: ensure_def)

lemma and_then_ensure [simp]: "and_then (ensure b e) f = (if b then f () else Inl e)"
  by (simp add: ensure_def)

lemma ok_or_simps [simp]: "ok_or e None = Inl e" "ok_or e (Some x) = Inr x"
  by (simp_all add: ok_or_def)

lemma ok_or_Inr_iff [simp]: "ok_or e m = Inr x \<longleftrightarrow> m = Some x"
  by (cases m) auto

lemma ok_or_Inl_iff [simp]: "ok_or e m = Inl e' \<longleftrightarrow> m = None \<and> e' = e"
  by (cases m) auto

lemma map_err_Inr_iff [simp]: "map_err f m = Inr x \<longleftrightarrow> m = Inr x"
  by (cases m) auto

lemma map_err_Inl_iff [result_simps]: "map_err f m = Inl e \<longleftrightarrow> (\<exists>e'. m = Inl e' \<and> e = f e')"
  by (cases m) auto

lemma is_ok_iff: "is_ok m \<longleftrightarrow> (\<exists>x. m = Inr x)"
  by (cases m) auto

lemma try_fold_append:
  "try_fold f s (xs @ ys) = and_then (try_fold f s xs) (\<lambda>s'. try_fold f s' ys)"
  by (induction xs arbitrary: s) (simp_all add: and_then_assoc)

lemma try_fold_invariant:
  assumes "try_fold f s xs = Inr t" "P s"
    and "\<And>s x s'. x \<in> set xs \<Longrightarrow> P s \<Longrightarrow> f s x = Inr s' \<Longrightarrow> P s'"
  shows "P t"
  using assms by (induction xs arbitrary: s) (auto simp: and_then_Inr_iff)

fun try_map :: "('a \<Rightarrow> ('e, 'b) result) \<Rightarrow> 'a list \<Rightarrow> ('e, 'b list) result" where
  "try_map f [] = Inr []"
| "try_map f (x # xs) = and_then (f x) (\<lambda>y. and_then (try_map f xs) (\<lambda>ys. Inr (y # ys)))"

lemma try_map_Inr_iff: "try_map f xs = Inr ys \<longleftrightarrow> list_all2 (\<lambda>x y. f x = Inr y) xs ys"
  by (induction xs arbitrary: ys) (auto simp: and_then_Inr_iff list_all2_Cons1)

lemma try_map_map: "(\<And>x. x \<in> set xs \<Longrightarrow> f x = Inr (g x)) \<Longrightarrow> try_map f xs = Inr (map g xs)"
  by (induction xs) auto

lemma try_map_cong [fundef_cong]:
  "xs = ys \<Longrightarrow> (\<And>x. x \<in> set ys \<Longrightarrow> f x = g x) \<Longrightarrow> try_map f xs = try_map g ys"
  by (induction xs arbitrary: ys) auto

text \<open>
  Fallible code that also changes state returns the state next to its result, so that
  the effects of the steps before an early return are kept.
\<close>

fun then_st :: "'s \<times> ('e, 'a) result \<Rightarrow> ('s \<Rightarrow> 'a \<Rightarrow> 's \<times> ('e, 'b) result) \<Rightarrow> 's \<times> ('e, 'b) result" where
  "then_st (s, Inl e) f = (s, Inl e)"
| "then_st (s, Inr x) f = f s x"

fun loop_st :: "('s \<Rightarrow> 'a \<Rightarrow> 's \<times> ('e, unit) result) \<Rightarrow> 's \<Rightarrow> 'a list \<Rightarrow> 's \<times> ('e, unit) result" where
  "loop_st f s [] = (s, Inr ())"
| "loop_st f s (x # xs) = then_st (f s x) (\<lambda>s _. loop_st f s xs)"

lemma loop_st_ok:
  assumes "P [] s" "\<And>ys y zs s. xs = ys @ y # zs \<Longrightarrow> P ys s \<Longrightarrow> \<exists>s'. f s y = (s', Inr ()) \<and> P (ys @ [y]) s'"
  shows "\<exists>s'. loop_st f s xs = (s', Inr ()) \<and> P xs s'"
proof -
  have "\<exists>s'. loop_st f s zs = (s', Inr ()) \<and> P xs s'" if "xs = ys @ zs" "P ys s" for ys zs s
    using that
  proof (induction zs arbitrary: ys s)
    case (Cons z zs)
    obtain s' where "f s z = (s', Inr ())" "P (ys @ [z]) s'" using assms(2) Cons.prems by blast
    moreover from this obtain t where "loop_st f s' zs = (t, Inr ())" "P xs t"
      using Cons.IH [of "ys @ [z]" s'] Cons.prems(1) by auto
    ultimately show ?case by simp
  qed simp
  from this [of "[]" xs s] assms(1) show ?thesis by simp
qed

lemma then_st_Inr_iff [result_simps]:
  "then_st m f = (t, Inr y) \<longleftrightarrow> (\<exists>s x. m = (s, Inr x) \<and> f s x = (t, Inr y))"
  by (cases "(m, f)" rule: then_st.cases) auto

lemma then_stE:
  assumes "then_st m f = (t, Inr y)"
  obtains s x where "m = (s, Inr x)" "f s x = (t, Inr y)"
  using assms by (auto simp: then_st_Inr_iff)

lemma then_st_cong [fundef_cong]:
  assumes "m = m'" "\<And>s x. m' = (s, Inr x) \<Longrightarrow> f s x = f' s x"
  shows "then_st m f = then_st m' f'"
  using assms by (cases "(m, f)" rule: then_st.cases) auto

lemma and_then_cong [fundef_cong]:
  assumes "m = m'" "\<And>x. m' = Inr x \<Longrightarrow> f x = f' x"
  shows "and_then m f = and_then m' f'"
  using assms by (cases m) auto

section \<open>Checked arithmetic\<close>

text \<open>
  Offsets and lengths that the sources only compare and add are natural numbers;
  the operations that can leave the range of \<open>u64\<close> are the checked and saturating
  ones below, with the bound written out.
\<close>

definition u64_max :: nat where
  "u64_max = 18446744073709551615"

definition u32_max :: nat where
  "u32_max = 4294967295"

definition checked_add :: "nat \<Rightarrow> nat \<Rightarrow> nat option" where
  "checked_add a b = (if a + b \<le> u64_max then Some (a + b) else None)"

definition saturating_add :: "nat \<Rightarrow> nat \<Rightarrow> nat" where
  "saturating_add a b = min (a + b) u64_max"

definition checked_mul :: "nat \<Rightarrow> nat \<Rightarrow> nat option" where
  "checked_mul a b = (if a * b \<le> u64_max then Some (a * b) else None)"

definition checked_sub :: "nat \<Rightarrow> nat \<Rightarrow> nat option" where
  "checked_sub a b = (if b \<le> a then Some (a - b) else None)"

definition try_u32 :: "nat \<Rightarrow> nat option" where
  "try_u32 a = (if a \<le> u32_max then Some a else None)"

lemma checked_add_Some_iff [checked_arith]:
  "checked_add a b = Some c \<longleftrightarrow> c = a + b \<and> a + b \<le> u64_max"
  by (auto simp: checked_add_def)

lemma checked_add_None_iff [checked_arith]: "checked_add a b = None \<longleftrightarrow> u64_max < a + b"
  by (auto simp: checked_add_def)

lemma checked_mul_Some_iff [checked_arith]:
  "checked_mul a b = Some c \<longleftrightarrow> c = a * b \<and> a * b \<le> u64_max"
  by (auto simp: checked_mul_def)

lemma checked_mul_None_iff [checked_arith]: "checked_mul a b = None \<longleftrightarrow> u64_max < a * b"
  by (auto simp: checked_mul_def)

lemma checked_sub_Some_iff [checked_arith]: "checked_sub a b = Some c \<longleftrightarrow> c = a - b \<and> b \<le> a"
  by (auto simp: checked_sub_def)

lemma checked_sub_None_iff [checked_arith]: "checked_sub a b = None \<longleftrightarrow> a < b"
  by (auto simp: checked_sub_def)

lemma try_u32_Some_iff [checked_arith]: "try_u32 a = Some c \<longleftrightarrow> c = a \<and> a \<le> u32_max"
  by (auto simp: try_u32_def)

lemma try_u32_None_iff [checked_arith]: "try_u32 a = None \<longleftrightarrow> u32_max < a"
  by (auto simp: try_u32_def)

lemma saturating_add_eq: "a + b \<le> u64_max \<Longrightarrow> saturating_add a b = a + b"
  by (simp add: saturating_add_def)

lemma saturating_add_le: "saturating_add a b \<le> a + b" "saturating_add a b \<le> u64_max"
  by (simp_all add: saturating_add_def)

lemma unat_u64_le: "unat (w :: u64) \<le> u64_max"
proof -
  have "unat w < 2 ^ LENGTH(64)" by (rule unsigned_less)
  then show ?thesis by (simp add: u64_max_def)
qed

lemma unat_u32_le: "unat (w :: u32) \<le> u32_max"
proof -
  have "unat w < 2 ^ LENGTH(32)" by (rule unsigned_less)
  then show ?thesis by (simp add: u32_max_def)
qed

lemma unat_u8_less: "unat (w :: u8) < 256"
proof -
  have "unat w < 2 ^ LENGTH(8)" by (rule unsigned_less)
  then show ?thesis by simp
qed

lemma u32_max_le_u64_max: "u32_max \<le> u64_max"
  by (simp add: u32_max_def u64_max_def)

section \<open>Slices and in-place copies\<close>

text \<open>
  \<open>slice xs off len\<close> is \<open>xs[off .. off + len]\<close>; \<open>copy_at xs off ys\<close> is the buffer
  \<open>xs\<close> after \<open>xs[off .. off + ys.len()].copy_from_slice(ys)\<close>. Callers guard the
  ranges, and the lemmas state the bounds they need.
\<close>

definition slice :: "'a list \<Rightarrow> nat \<Rightarrow> nat \<Rightarrow> 'a list" where
  "slice xs off len = take len (drop off xs)"

definition copy_at :: "'a list \<Rightarrow> nat \<Rightarrow> 'a list \<Rightarrow> 'a list" where
  "copy_at xs off ys = take off xs @ ys @ drop (off + length ys) xs"

lemma length_slice [slice_simps]: "off + len \<le> length xs \<Longrightarrow> length (slice xs off len) = len"
  by (simp add: slice_def)

lemma nth_slice [slice_simps]:
  "i < len \<Longrightarrow> off + len \<le> length xs \<Longrightarrow> slice xs off len ! i = xs ! (off + i)"
  by (simp add: slice_def)

lemma length_copy_at [slice_simps]:
  "off + length ys \<le> length xs \<Longrightarrow> length (copy_at xs off ys) = length xs"
  by (simp add: copy_at_def)

lemma nth_copy_at [slice_simps]:
  assumes "off + length ys \<le> length xs" "i < length xs"
  shows "copy_at xs off ys ! i =
    (if off \<le> i \<and> i < off + length ys then ys ! (i - off) else xs ! i)"
  using assms by (auto simp: copy_at_def nth_append)

lemma slice_copy_at_same:
  "off + length ys \<le> length xs \<Longrightarrow> slice (copy_at xs off ys) off (length ys) = ys"
  by (simp add: slice_def copy_at_def)

lemma copy_at_Nil [simp]: "copy_at xs off [] = xs"
  by (simp add: copy_at_def)

lemma slice_full [simp]: "slice xs 0 (length xs) = xs"
  by (simp add: slice_def)

lemma slice_append_exact [simp]: "slice (xs @ ys) (length xs) (length ys) = ys"
  by (simp add: slice_def)

section \<open>Integer encodings\<close>

fun le_bytes :: "nat \<Rightarrow> nat \<Rightarrow> bytes" where
  "le_bytes 0 k = []"
| "le_bytes (Suc n) k = of_nat (k mod 256) # le_bytes n (k div 256)"

fun le_value :: "bytes \<Rightarrow> nat" where
  "le_value [] = 0"
| "le_value (b # bs) = unat b + 256 * le_value bs"

definition be_bytes :: "nat \<Rightarrow> nat \<Rightarrow> bytes" where
  "be_bytes n k = rev (le_bytes n k)"

definition be_value :: "bytes \<Rightarrow> nat" where
  "be_value bs = le_value (rev bs)"

lemma unat_of_nat_u8 [simp]: "unat (of_nat (k mod 256) :: u8) = k mod 256"
  by (simp add: unat_of_nat)

lemma length_le_bytes [simp]: "length (le_bytes n k) = n"
  by (induction n arbitrary: k) auto

lemma length_be_bytes [simp]: "length (be_bytes n k) = n"
  by (simp add: be_bytes_def)

lemma le_value_less: "le_value bs < 256 ^ length bs"
proof (induction bs)
  case (Cons b bs)
  then show ?case using unat_u8_less [of b] by simp
qed simp

lemma le_value_le_bytes: "le_value (le_bytes n k) = k mod 256 ^ n"
proof (induction n arbitrary: k)
  case (Suc n)
  have "le_value (le_bytes (Suc n) k) = k mod 256 + 256 * (k div 256 mod 256 ^ n)"
    using Suc by simp
  then show ?case by (simp add: mod_mult2_eq)
qed simp

lemma le_bytes_le_value: "le_bytes (length bs) (le_value bs) = bs"
proof (induction bs)
  case (Cons b bs)
  have "(unat b + 256 * le_value bs) mod 256 = unat b"
    using unat_u8_less [of b] by simp
  moreover have "(unat b + 256 * le_value bs) div 256 = le_value bs"
    using unat_u8_less [of b] by simp
  ultimately show ?case using Cons by simp
qed simp

lemma be_value_less: "be_value bs < 256 ^ length bs"
  using le_value_less [of "rev bs"] by (simp add: be_value_def)

lemma be_value_be_bytes: "be_value (be_bytes n k) = k mod 256 ^ n"
  by (simp add: be_value_def be_bytes_def le_value_le_bytes)

lemma be_bytes_be_value: "be_bytes (length bs) (be_value bs) = bs"
  using le_bytes_le_value [of "rev bs"] by (simp add: be_value_def be_bytes_def)

section \<open>Codecs\<close>

text \<open>
  The contract of a codec: decoding accepts exactly the encodings of admissible values.
  The parsers of the wire protocol, of the log and of the catalog's textual enumerations
  are interpretations of it.
\<close>

locale codec =
  fixes encode :: "'a \<Rightarrow> ('e, 'b) result"
    and decode :: "'b \<Rightarrow> ('f, 'a) result"
    and admissible :: "'a \<Rightarrow> bool"
  assumes decode_iff: "decode bs = Inr x \<longleftrightarrow> admissible x \<and> encode x = Inr bs"
begin

lemma decode_encode: "admissible x \<Longrightarrow> encode x = Inr bs \<Longrightarrow> decode bs = Inr x"
  by (simp add: decode_iff)

lemma encode_decode: "decode bs = Inr x \<Longrightarrow> encode x = Inr bs"
  by (simp add: decode_iff)

lemma decode_inject: "decode bs = Inr x \<Longrightarrow> decode bs' = Inr x \<Longrightarrow> bs = bs'"
  by (auto simp: decode_iff)

lemma encode_inject:
  "admissible x \<Longrightarrow> admissible y \<Longrightarrow> encode x = Inr bs \<Longrightarrow> encode y = Inr bs \<Longrightarrow> x = y"
  using decode_encode [of x bs] decode_encode [of y bs] by simp

lemma decode_rejects: "\<nexists>x. admissible x \<and> encode x = Inr bs \<Longrightarrow> \<exists>e. decode bs = Inl e"
  by (cases "decode bs") (auto simp: decode_iff)

end

end
