(* ===== verification/Wire.thy ===== *)
theory Wire
  imports Prelude
begin

text \<open>
  The NBD protocol constants, the protocol errors and the big-endian cursor over wire
  bytes, from \<open>nbd-protocol/src/{constants,error,wire}.rs\<close>. A reader is the input
  with an offset, as in the source; the lemmas describe it through \<open>reader_of pre
  bs\<close>, the reader that has consumed \<open>pre\<close> and has \<open>bs\<close> left, so that parsing
  reduces to equations between byte lists in both directions.
\<close>

section \<open>Constants\<close>

definition INIT_PASSWD :: u64 where "INIT_PASSWD = 0x4e42444d41474943"
definition IHAVEOPT_MAGIC :: u64 where "IHAVEOPT_MAGIC = 0x49484156454f5054"
definition OPTION_REPLY_MAGIC :: u64 where "OPTION_REPLY_MAGIC = 0x0003e889045565a9"
definition NBD_REQUEST_MAGIC :: u32 where "NBD_REQUEST_MAGIC = 0x25609513"
definition NBD_SIMPLE_REPLY_MAGIC :: u32 where "NBD_SIMPLE_REPLY_MAGIC = 0x67446698"
definition NBD_FLAG_FIXED_NEWSTYLE :: u16 where "NBD_FLAG_FIXED_NEWSTYLE = push_bit 0 1"
definition NBD_FLAG_NO_ZEROES :: u16 where "NBD_FLAG_NO_ZEROES = push_bit 1 1"
definition NBD_FLAG_C_FIXED_NEWSTYLE :: u32 where "NBD_FLAG_C_FIXED_NEWSTYLE = push_bit 0 1"
definition NBD_FLAG_C_NO_ZEROES :: u32 where "NBD_FLAG_C_NO_ZEROES = push_bit 1 1"
definition NBD_FLAG_HAS_FLAGS :: u16 where "NBD_FLAG_HAS_FLAGS = push_bit 0 1"
definition NBD_FLAG_SEND_FLUSH :: u16 where "NBD_FLAG_SEND_FLUSH = push_bit 2 1"
definition NBD_OPT_ABORT :: u32 where "NBD_OPT_ABORT = 2"
definition NBD_OPT_GO :: u32 where "NBD_OPT_GO = 7"
definition NBD_REP_ACK :: u32 where "NBD_REP_ACK = 1"
definition NBD_REP_INFO :: u32 where "NBD_REP_INFO = 3"
definition NBD_REP_ERR_UNSUP :: u32 where "NBD_REP_ERR_UNSUP = push_bit 31 1 + 1"
definition NBD_REP_ERR_POLICY :: u32 where "NBD_REP_ERR_POLICY = push_bit 31 1 + 2"
definition NBD_REP_ERR_UNKNOWN :: u32 where "NBD_REP_ERR_UNKNOWN = push_bit 31 1 + 6"
definition NBD_INFO_EXPORT :: u16 where "NBD_INFO_EXPORT = 0"
definition MAX_STRING_BYTES :: nat where "MAX_STRING_BYTES = 4096"
definition NBD_CMD_READ :: u16 where "NBD_CMD_READ = 0"
definition NBD_CMD_WRITE :: u16 where "NBD_CMD_WRITE = 1"
definition NBD_CMD_DISC :: u16 where "NBD_CMD_DISC = 2"
definition NBD_CMD_FLUSH :: u16 where "NBD_CMD_FLUSH = 3"
definition NBD_EINVAL :: u32 where "NBD_EINVAL = 22"
definition NBD_EOVERFLOW :: u32 where "NBD_EOVERFLOW = 75"

section \<open>Errors and the reader\<close>

datatype protocol_error =
    UnexpectedEof (needed: nat) (eof_remaining: nat)
  | TrailingBytes nat
  | MissingClientFlag string
  | UnsupportedClientFlags (raw_flags: u32) (unsupported_flags: u32)
  | InvalidMagic (magic_context: string) (magic_expected: u64) (magic_actual: u64)
  | InvalidUtf8 string
  | InvalidString string string
  | LengthTooLarge (too_large_field: string) (too_large_len: nat) (too_large_max: nat)
  | UnsupportedCommandFlags u16
  | UnsupportedCommand u16
  | InvalidRequest string string
  | InvalidReply string string
  | LengthOverflow (overflow_offset: u64) (overflow_length: u32)

record wire_reader =
  wr_input :: bytes
  wr_offset :: nat

definition new_reader :: "bytes \<Rightarrow> wire_reader" where
  "new_reader inp = \<lparr>wr_input = inp, wr_offset = 0\<rparr>"

definition remaining :: "wire_reader \<Rightarrow> nat" where
  "remaining r = length (wr_input r) - wr_offset r"

definition read_bytes :: "wire_reader \<Rightarrow> nat \<Rightarrow> (protocol_error, bytes \<times> wire_reader) result" where
  "read_bytes r len =
    (if remaining r < len then Inl (UnexpectedEof len (remaining r))
     else Inr (slice (wr_input r) (wr_offset r) len, r\<lparr>wr_offset := wr_offset r + len\<rparr>))"

definition read_u16 :: "wire_reader \<Rightarrow> (protocol_error, u16 \<times> wire_reader) result" where
  "read_u16 r = and_then (read_bytes r 2) (\<lambda>(bs, r). Inr (of_nat (be_value bs), r))"

definition read_u32 :: "wire_reader \<Rightarrow> (protocol_error, u32 \<times> wire_reader) result" where
  "read_u32 r = and_then (read_bytes r 4) (\<lambda>(bs, r). Inr (of_nat (be_value bs), r))"

definition read_u64 :: "wire_reader \<Rightarrow> (protocol_error, u64 \<times> wire_reader) result" where
  "read_u64 r = and_then (read_bytes r 8) (\<lambda>(bs, r). Inr (of_nat (be_value bs), r))"

definition u16_be :: "u16 \<Rightarrow> bytes" where "u16_be w = be_bytes 2 (unat w)"
definition u32_be :: "u32 \<Rightarrow> bytes" where "u32_be w = be_bytes 4 (unat w)"
definition u64_be :: "u64 \<Rightarrow> bytes" where "u64_be w = be_bytes 8 (unat w)"

definition write_u16 :: "bytes \<Rightarrow> u16 \<Rightarrow> bytes" where "write_u16 out w = out @ u16_be w"
definition write_u32 :: "bytes \<Rightarrow> u32 \<Rightarrow> bytes" where "write_u32 out w = out @ u32_be w"
definition write_u64 :: "bytes \<Rightarrow> u64 \<Rightarrow> bytes" where "write_u64 out w = out @ u64_be w"

definition require_no_payload :: "wire_reader \<Rightarrow> (protocol_error, unit) result" where
  "require_no_payload r = ensure (remaining r = 0) (TrailingBytes (remaining r))"

section \<open>The reader through consumed and remaining bytes\<close>

named_theorems wire_simps "parsing as equations between byte lists"

definition reader_of :: "bytes \<Rightarrow> bytes \<Rightarrow> wire_reader" where
  "reader_of pre bs = \<lparr>wr_input = pre @ bs, wr_offset = length pre\<rparr>"

lemma new_reader_eq [wire_simps]: "new_reader inp = reader_of [] inp"
  by (simp add: new_reader_def reader_of_def)

lemma remaining_reader_of [simp]: "remaining (reader_of pre bs) = length bs"
  by (simp add: remaining_def reader_of_def)

lemma read_bytes_reader_of:
  "read_bytes (reader_of pre bs) n =
    (if length bs < n then Inl (UnexpectedEof n (length bs))
     else Inr (take n bs, reader_of (pre @ take n bs) (drop n bs)))"
  by (simp add: read_bytes_def reader_of_def slice_def remaining_def)

lemma read_bytes_append [wire_simps]:
  "n = length ds \<Longrightarrow> read_bytes (reader_of pre (ds @ bs)) n = Inr (ds, reader_of (pre @ ds) bs)"
  by (simp add: read_bytes_reader_of)

lemma read_bytes_Inr_iff:
  "read_bytes (reader_of pre bs) n = Inr (ds, r) \<longleftrightarrow>
    (\<exists>t. bs = ds @ t \<and> length ds = n \<and> r = reader_of (pre @ ds) t)"
  by (auto simp: read_bytes_reader_of)
    (metis append_take_drop_id length_take min.absorb2 not_less)

lemma length_be [simp]:
  "length (u16_be a) = 2" "length (u32_be b) = 4" "length (u64_be c) = 8"
  by (simp_all add: u16_be_def u32_be_def u64_be_def)

lemma be_value_unat:
  assumes "256 ^ n = (2 :: nat) ^ LENGTH('a :: len)"
  shows "be_value (be_bytes n (unat (w :: 'a word))) = unat w"
proof -
  have "unat w < 2 ^ LENGTH('a)" by (rule unsigned_less)
  then show ?thesis by (simp add: be_value_be_bytes assms)
qed

lemma be_round_trip [simp]:
  "of_nat (be_value (u16_be a)) = a" "of_nat (be_value (u32_be b)) = b"
  "of_nat (be_value (u64_be c)) = c"
  by (simp_all add: u16_be_def u32_be_def u64_be_def be_value_unat)

lemma be_of_nat_be_value:
  "length bs = 2 \<Longrightarrow> u16_be (of_nat (be_value bs)) = bs"
  "length bs = 4 \<Longrightarrow> u32_be (of_nat (be_value bs)) = bs"
  "length bs = 8 \<Longrightarrow> u64_be (of_nat (be_value bs)) = bs"
  using be_value_less [of bs] be_bytes_be_value [of bs]
  by (simp_all add: u16_be_def u32_be_def u64_be_def unat_of_nat)

lemma read_word_append [wire_simps]:
  "read_u16 (reader_of pre (u16_be a @ bs)) = Inr (a, reader_of (pre @ u16_be a) bs)"
  "read_u32 (reader_of pre (u32_be b @ bs)) = Inr (b, reader_of (pre @ u32_be b) bs)"
  "read_u64 (reader_of pre (u64_be c @ bs)) = Inr (c, reader_of (pre @ u64_be c) bs)"
  by (simp_all add: read_u16_def read_u32_def read_u64_def read_bytes_append)

lemma read_u16_Inr_iff:
  "read_u16 (reader_of pre bs) = Inr (w, r) \<longleftrightarrow>
    (\<exists>t. bs = u16_be w @ t \<and> r = reader_of (pre @ u16_be w) t)" (is "?l \<longleftrightarrow> ?r")
proof
  show "?l \<Longrightarrow> ?r"
    by (auto simp: read_u16_def and_then_Inr_iff read_bytes_Inr_iff be_of_nat_be_value)
qed (auto simp: read_word_append)

lemma read_u32_Inr_iff:
  "read_u32 (reader_of pre bs) = Inr (w, r) \<longleftrightarrow>
    (\<exists>t. bs = u32_be w @ t \<and> r = reader_of (pre @ u32_be w) t)" (is "?l \<longleftrightarrow> ?r")
proof
  show "?l \<Longrightarrow> ?r"
    by (auto simp: read_u32_def and_then_Inr_iff read_bytes_Inr_iff be_of_nat_be_value)
qed (auto simp: read_word_append)

lemma read_u64_Inr_iff:
  "read_u64 (reader_of pre bs) = Inr (w, r) \<longleftrightarrow>
    (\<exists>t. bs = u64_be w @ t \<and> r = reader_of (pre @ u64_be w) t)" (is "?l \<longleftrightarrow> ?r")
proof
  show "?l \<Longrightarrow> ?r"
    by (auto simp: read_u64_def and_then_Inr_iff read_bytes_Inr_iff be_of_nat_be_value)
qed (auto simp: read_word_append)

lemmas read_Inr_iff = read_bytes_Inr_iff read_u16_Inr_iff read_u32_Inr_iff read_u64_Inr_iff

lemma read_word_exact [wire_simps]:
  "read_u16 (reader_of pre (u16_be a)) = Inr (a, reader_of (pre @ u16_be a) [])"
  "read_u32 (reader_of pre (u32_be b)) = Inr (b, reader_of (pre @ u32_be b) [])"
  "read_u64 (reader_of pre (u64_be c)) = Inr (c, reader_of (pre @ u64_be c) [])"
  by (simp_all add: read_Inr_iff)

lemma read_word_Inl_iff:
  "read_u16 (reader_of pre bs) = Inl e \<longleftrightarrow> length bs < 2 \<and> e = UnexpectedEof 2 (length bs)"
  "read_u32 (reader_of pre bs) = Inl e \<longleftrightarrow> length bs < 4 \<and> e = UnexpectedEof 4 (length bs)"
  "read_u64 (reader_of pre bs) = Inl e \<longleftrightarrow> length bs < 8 \<and> e = UnexpectedEof 8 (length bs)"
  by (auto simp: read_u16_def read_u32_def read_u64_def and_then_Inl_iff read_bytes_reader_of)

lemma write_word [simp]:
  "write_u16 out a = out @ u16_be a" "write_u32 out b = out @ u32_be b"
  "write_u64 out c = out @ u64_be c"
  by (simp_all add: write_u16_def write_u32_def write_u64_def)

lemma be_inject [simp]:
  "u16_be a = u16_be a' \<longleftrightarrow> a = a'" "u32_be b = u32_be b' \<longleftrightarrow> b = b'"
  "u64_be c = u64_be c' \<longleftrightarrow> c = c'"
  by (metis be_round_trip)+

lemma require_no_payload_reader_of [simp]:
  "require_no_payload (reader_of pre bs) = Inr u \<longleftrightarrow> bs = []"
  "require_no_payload (reader_of pre []) = Inr ()"
  by (simp_all add: require_no_payload_def)

end
