(* ===== verification/Negotiation.thy ===== *)
theory Negotiation
  imports Wire
begin

unbundle bit_operations_syntax

text \<open>
  The handshake and the fixed-newstyle option codec, from
  \<open>nbd-protocol/src/{handshake,option}.rs\<close>. A Rust \<open>String\<close> is its UTF-8 bytes;
  \<open>utf8_valid\<close> is the check \<open>std::str::from_utf8\<close> makes. The lemmas show that every
  parser accepts exactly the image of its encoder.
\<close>

section \<open>Handshake\<close>

definition SERVER_HANDSHAKE_FLAGS :: u16 where
  "SERVER_HANDSHAKE_FLAGS = NBD_FLAG_FIXED_NEWSTYLE OR NBD_FLAG_NO_ZEROES"

definition SUPPORTED_CLIENT_FLAGS :: u32 where
  "SUPPORTED_CLIENT_FLAGS = NBD_FLAG_C_FIXED_NEWSTYLE OR NBD_FLAG_C_NO_ZEROES"

record client_flags =
  cf_raw :: u32

definition no_zeroes :: "client_flags \<Rightarrow> bool" where
  "no_zeroes f \<longleftrightarrow> cf_raw f AND NBD_FLAG_C_NO_ZEROES \<noteq> 0"

definition encode_server_handshake :: bytes where
  "encode_server_handshake =
    (let out = [];
         out = write_u64 out INIT_PASSWD;
         out = write_u64 out IHAVEOPT_MAGIC;
         out = write_u16 out SERVER_HANDSHAKE_FLAGS
     in out)"

definition encode_client_flags :: "bool \<Rightarrow> bytes" where
  "encode_client_flags nz =
    (let raw = NBD_FLAG_C_FIXED_NEWSTYLE;
         raw = (if nz then raw OR NBD_FLAG_C_NO_ZEROES else raw)
     in u32_be raw)"

definition decode_client_flags :: "bytes \<Rightarrow> (protocol_error, client_flags) result" where
  "decode_client_flags inp =
    and_then (read_u32 (new_reader inp)) (\<lambda>(raw, r).
      if remaining r \<noteq> 0 then Inl (TrailingBytes (remaining r))
      else if raw AND NBD_FLAG_C_FIXED_NEWSTYLE = 0
        then Inl (MissingClientFlag ''NBD_FLAG_C_FIXED_NEWSTYLE'')
      else let unsupported = raw AND NOT SUPPORTED_CLIENT_FLAGS in
        if unsupported \<noteq> 0 then Inl (UnsupportedClientFlags raw unsupported)
        else Inr \<lparr>cf_raw = raw\<rparr>)"

section \<open>UTF-8\<close>

definition utf8_cont :: "u8 \<Rightarrow> bool" where
  "utf8_cont b \<longleftrightarrow> 0x80 \<le> b \<and> b \<le> 0xBF"

fun utf8_valid :: "bytes \<Rightarrow> bool" where
  "utf8_valid [] = True"
| "utf8_valid (a # bs) =
    (if a < 0x80 then utf8_valid bs
     else if 0xC2 \<le> a \<and> a \<le> 0xDF then
       (case bs of b # rest \<Rightarrow> utf8_cont b \<and> utf8_valid rest | _ \<Rightarrow> False)
     else if 0xE0 \<le> a \<and> a \<le> 0xEF then
       (case bs of b # c # rest \<Rightarrow>
          (if a = 0xE0 then 0xA0 \<le> b \<and> b \<le> 0xBF
           else if a = 0xED then 0x80 \<le> b \<and> b \<le> 0x9F else utf8_cont b)
          \<and> utf8_cont c \<and> utf8_valid rest
        | _ \<Rightarrow> False)
     else if 0xF0 \<le> a \<and> a \<le> 0xF4 then
       (case bs of b # c # d # rest \<Rightarrow>
          (if a = 0xF0 then 0x90 \<le> b \<and> b \<le> 0xBF
           else if a = 0xF4 then 0x80 \<le> b \<and> b \<le> 0x8F else utf8_cont b)
          \<and> utf8_cont c \<and> utf8_cont d \<and> utf8_valid rest
        | _ \<Rightarrow> False)
     else False)"

section \<open>Options: data\<close>

definition OPTION_REQUEST_HEADER_BYTES :: nat where "OPTION_REQUEST_HEADER_BYTES = 16"
definition OPTION_REPLY_HEADER_BYTES :: nat where "OPTION_REPLY_HEADER_BYTES = 20"
definition MAX_OPTION_PAYLOAD_BYTES :: u32 where "MAX_OPTION_PAYLOAD_BYTES = 64 * 1024"

record go_request =
  go_export_name :: bytes
  go_info_requests :: "u16 list"

datatype option_request =
    Go go_request
  | Abort bytes
  | Unknown u32 bytes

fun option_request_code :: "option_request \<Rightarrow> u32" where
  "option_request_code (Go _) = NBD_OPT_GO"
| "option_request_code (Abort _) = NBD_OPT_ABORT"
| "option_request_code (Unknown code _) = code"

record option_request_header =
  orq_option :: u32
  orq_payload_len :: u32

record option_reply_header =
  orp_option :: u32
  orp_reply_type :: u32
  orp_payload_len :: u32

datatype option_reply =
    InfoExport (reply_option: u32) (info_size: u64) (info_flags: u16)
  | Ack (reply_option: u32)
  | ErrorReply (reply_option: u32) (reply_code: u32) (reply_message: bytes)
  | OtherReply (reply_option: u32) (reply_code: u32) (reply_payload: bytes)

definition bounded_payload_len :: "string \<Rightarrow> u32 \<Rightarrow> (protocol_error, nat) result" where
  "bounded_payload_len field len =
    (if len > MAX_OPTION_PAYLOAD_BYTES
     then Inl (LengthTooLarge field (unat len) (unat MAX_OPTION_PAYLOAD_BYTES))
     else Inr (unat len))"

definition is_error_reply :: "u32 \<Rightarrow> bool" where
  "is_error_reply t \<longleftrightarrow> t AND push_bit 31 1 \<noteq> 0"

section \<open>Options: requests\<close>

definition encode_option_request :: "u32 \<Rightarrow> bytes \<Rightarrow> (protocol_error, bytes) result" where
  "encode_option_request opt payload =
    (if length payload > u32_max
     then Inl (LengthTooLarge ''option request payload'' (length payload) u32_max)
     else let payload_len = of_nat (length payload) in
       and_then (bounded_payload_len ''option request payload'' payload_len) (\<lambda>_.
         let out = [];
             out = write_u64 out IHAVEOPT_MAGIC;
             out = write_u32 out opt;
             out = write_u32 out payload_len
         in Inr (out @ payload)))"

definition encode_go_request :: "bytes \<Rightarrow> u16 list \<Rightarrow> (protocol_error, bytes) result" where
  "encode_go_request export_name info_requests =
    (if length export_name > MAX_STRING_BYTES
     then Inl (LengthTooLarge ''export name'' (length export_name) MAX_STRING_BYTES)
     else if 0 \<in> set export_name
     then Inl (InvalidString ''export name'' ''contains NUL byte'')
     else if length info_requests > 65535
     then Inl (LengthTooLarge ''info request count'' (length info_requests) 65535)
     else
       let payload = [];
           payload = write_u32 payload (of_nat (length export_name));
           payload = payload @ export_name;
           payload = write_u16 payload (of_nat (length info_requests));
           payload = foldl write_u16 payload info_requests
       in encode_option_request NBD_OPT_GO payload)"

definition encode_abort_request :: "bytes \<Rightarrow> (protocol_error, bytes) result" where
  "encode_abort_request payload = encode_option_request NBD_OPT_ABORT payload"

fun read_infos :: "nat \<Rightarrow> wire_reader \<Rightarrow> (protocol_error, u16 list \<times> wire_reader) result" where
  "read_infos 0 r = Inr ([], r)"
| "read_infos (Suc n) r =
    and_then (read_u16 r) (\<lambda>(i, r). and_then (read_infos n r) (\<lambda>(is, r). Inr (i # is, r)))"

definition parse_go_payload :: "bytes \<Rightarrow> (protocol_error, go_request) result" where
  "parse_go_payload payload =
    and_then (read_u32 (new_reader payload)) (\<lambda>(name_len, r).
      let name_len = unat name_len in
      if name_len > MAX_STRING_BYTES
      then Inl (LengthTooLarge ''export name'' name_len MAX_STRING_BYTES)
      else and_then (read_bytes r name_len) (\<lambda>(name, r).
        if 0 \<in> set name then Inl (InvalidString ''export name'' ''contains NUL byte'')
        else if \<not> utf8_valid name then Inl (InvalidUtf8 ''export name'')
        else and_then (read_u16 r) (\<lambda>(info_count, r).
          and_then (read_infos (unat info_count) r) (\<lambda>(info_requests, r).
            if remaining r \<noteq> 0 then Inl (TrailingBytes (remaining r))
            else Inr \<lparr>go_export_name = name, go_info_requests = info_requests\<rparr>))))"

definition parse_option_request_header ::
  "bytes \<Rightarrow> (protocol_error, option_request_header) result" where
  "parse_option_request_header inp =
    and_then (read_u64 (new_reader inp)) (\<lambda>(magic, r).
      if magic \<noteq> IHAVEOPT_MAGIC
      then Inl (InvalidMagic ''option request'' IHAVEOPT_MAGIC magic)
      else and_then (read_u32 r) (\<lambda>(opt, r).
        and_then (read_u32 r) (\<lambda>(len, r).
          if remaining r \<noteq> 0 then Inl (TrailingBytes (remaining r))
          else Inr \<lparr>orq_option = opt, orq_payload_len = len\<rparr>)))"

definition parse_option_request :: "bytes \<Rightarrow> (protocol_error, option_request) result" where
  "parse_option_request inp =
    and_then (read_bytes (new_reader inp) OPTION_REQUEST_HEADER_BYTES) (\<lambda>(hb, r).
      and_then (parse_option_request_header hb) (\<lambda>header.
        let code = orq_option header in
        and_then (bounded_payload_len ''option request payload'' (orq_payload_len header))
          (\<lambda>len. and_then (read_bytes r len) (\<lambda>(payload, r).
            if remaining r \<noteq> 0 then Inl (TrailingBytes (remaining r))
            else if code = NBD_OPT_GO
              then and_then (parse_go_payload payload) (\<lambda>g. Inr (Go g))
            else if code = NBD_OPT_ABORT then Inr (Abort payload)
            else Inr (Unknown code payload)))))"

section \<open>Options: replies\<close>

definition encode_option_reply :: "u32 \<Rightarrow> u32 \<Rightarrow> bytes \<Rightarrow> (protocol_error, bytes) result" where
  "encode_option_reply opt reply_type payload =
    (if length payload > u32_max
     then Inl (LengthTooLarge ''option reply payload'' (length payload) u32_max)
     else let payload_len = of_nat (length payload) in
       and_then (bounded_payload_len ''option reply payload'' payload_len) (\<lambda>_.
         let out = [];
             out = write_u64 out OPTION_REPLY_MAGIC;
             out = write_u32 out opt;
             out = write_u32 out reply_type;
             out = write_u32 out payload_len
         in Inr (out @ payload)))"

definition encode_export_info_reply :: "u32 \<Rightarrow> u64 \<Rightarrow> u16 \<Rightarrow> (protocol_error, bytes) result" where
  "encode_export_info_reply opt export_size flags =
    (let payload = [];
         payload = write_u16 payload NBD_INFO_EXPORT;
         payload = write_u64 payload export_size;
         payload = write_u16 payload flags
     in encode_option_reply opt NBD_REP_INFO payload)"

definition encode_ack_reply :: "u32 \<Rightarrow> (protocol_error, bytes) result" where
  "encode_ack_reply opt = encode_option_reply opt NBD_REP_ACK []"

definition encode_unsupported_option_reply :: "u32 \<Rightarrow> bytes \<Rightarrow> (protocol_error, bytes) result" where
  "encode_unsupported_option_reply opt message = encode_option_reply opt NBD_REP_ERR_UNSUP message"

definition encode_policy_option_reply :: "u32 \<Rightarrow> bytes \<Rightarrow> (protocol_error, bytes) result" where
  "encode_policy_option_reply opt message = encode_option_reply opt NBD_REP_ERR_POLICY message"

definition encode_unknown_export_reply :: "u32 \<Rightarrow> bytes \<Rightarrow> (protocol_error, bytes) result" where
  "encode_unknown_export_reply opt message = encode_option_reply opt NBD_REP_ERR_UNKNOWN message"

definition parse_option_reply_header :: "bytes \<Rightarrow> (protocol_error, option_reply_header) result" where
  "parse_option_reply_header inp =
    and_then (read_u64 (new_reader inp)) (\<lambda>(magic, r).
      if magic \<noteq> OPTION_REPLY_MAGIC
      then Inl (InvalidMagic ''option reply'' OPTION_REPLY_MAGIC magic)
      else and_then (read_u32 r) (\<lambda>(opt, r).
        and_then (read_u32 r) (\<lambda>(reply_type, r).
          and_then (read_u32 r) (\<lambda>(len, r).
            if remaining r \<noteq> 0 then Inl (TrailingBytes (remaining r))
            else Inr \<lparr>orp_option = opt, orp_reply_type = reply_type, orp_payload_len = len\<rparr>))))"

definition parse_info_reply :: "u32 \<Rightarrow> bytes \<Rightarrow> (protocol_error, option_reply) result" where
  "parse_info_reply opt payload =
    and_then (read_u16 (new_reader payload)) (\<lambda>(info_type, r).
      if info_type = NBD_INFO_EXPORT then
        and_then (read_u64 r) (\<lambda>(export_size, r).
          and_then (read_u16 r) (\<lambda>(flags, r).
            if remaining r \<noteq> 0 then Inl (TrailingBytes (remaining r))
            else Inr (InfoExport opt export_size flags)))
      else Inr (OtherReply opt NBD_REP_INFO payload))"

definition parse_option_reply :: "bytes \<Rightarrow> (protocol_error, option_reply) result" where
  "parse_option_reply inp =
    and_then (read_bytes (new_reader inp) OPTION_REPLY_HEADER_BYTES) (\<lambda>(hb, r).
      and_then (parse_option_reply_header hb) (\<lambda>header.
        and_then (bounded_payload_len ''option reply payload'' (orp_payload_len header))
          (\<lambda>len. and_then (read_bytes r len) (\<lambda>(payload, r).
            if remaining r \<noteq> 0 then Inl (TrailingBytes (remaining r))
            else let opt = orp_option header; reply_type = orp_reply_type header in
              if reply_type = NBD_REP_INFO then parse_info_reply opt payload
              else if reply_type = NBD_REP_ACK then
                (if payload \<noteq> []
                 then Inl (InvalidReply ''NBD_REP_ACK'' ''payload must be empty'')
                 else Inr (Ack opt))
              else if is_error_reply reply_type then Inr (ErrorReply opt reply_type payload)
              else Inr (OtherReply opt reply_type payload)))))"

section \<open>Client flags\<close>

lemma client_flag_bits:
  assumes "raw AND 1 \<noteq> (0 :: u32)" "raw AND NOT 3 = 0"
  shows "raw = 1 \<or> raw = 3"
proof -
  have "raw = (raw AND 3) OR (raw AND NOT 3)" by (simp add: bit.conj_disj_distrib [symmetric])
  then have raw: "raw = raw AND mask 2" using assms(2) by (simp add: mask_eq_exp_minus_1)
  then have "raw = take_bit 2 raw" by (simp add: take_bit_eq_mask)
  then have "unat raw < 4"
    using take_bit_nat_less_exp [of 2 "unat raw"] by (metis unsigned_take_bit_eq
        numeral_Bit0 one_add_one power2_eq_square numeral_times_numeral mult_2_right)
  then have "unat raw = unat (0 :: u32) \<or> unat raw = unat (1 :: u32) \<or>
      unat raw = unat (2 :: u32) \<or> unat raw = unat (3 :: u32)" by auto
  then have "raw = 0 \<or> raw = 1 \<or> raw = 2 \<or> raw = 3" by (simp only: unsigned_word_eqI word_unat_eq_iff)
  then show ?thesis using assms(1) by auto
qed

lemma decode_client_flags_Inr_iff:
  "decode_client_flags inp = Inr f \<longleftrightarrow>
    (\<exists>nz. inp = encode_client_flags nz \<and> f = \<lparr>cf_raw = (if nz then 3 else 1)\<rparr>)"
proof
  assume "decode_client_flags inp = Inr f"
  then obtain raw where inp: "inp = u32_be raw" and f: "f = \<lparr>cf_raw = raw\<rparr>"
    and bits: "raw AND 1 \<noteq> 0" "raw AND NOT 3 = 0"
    by (auto simp: decode_client_flags_def wire_simps and_then_Inr_iff read_Inr_iff Let_def
        SUPPORTED_CLIENT_FLAGS_def NBD_FLAG_C_FIXED_NEWSTYLE_def NBD_FLAG_C_NO_ZEROES_def
        split: if_splits)
  from client_flag_bits [OF bits] show "\<exists>nz. inp = encode_client_flags nz \<and>
      f = \<lparr>cf_raw = (if nz then 3 else 1)\<rparr>"
    by (intro exI [of _ "raw = 3"]) (auto simp: inp f encode_client_flags_def
        NBD_FLAG_C_FIXED_NEWSTYLE_def NBD_FLAG_C_NO_ZEROES_def)
qed (auto simp: decode_client_flags_def encode_client_flags_def wire_simps Let_def
    SUPPORTED_CLIENT_FLAGS_def NBD_FLAG_C_FIXED_NEWSTYLE_def NBD_FLAG_C_NO_ZEROES_def)

section \<open>Option requests\<close>

lemma bounded_payload_len_Inr_iff [simp]:
  "bounded_payload_len field len = Inr n \<longleftrightarrow> n = unat len \<and> unat len \<le> 65536"
  by (auto simp: bounded_payload_len_def MAX_OPTION_PAYLOAD_BYTES_def word_less_nat_alt)

lemma unat_of_nat_u32: "n \<le> u32_max \<Longrightarrow> unat (of_nat n :: u32) = n"
  by (simp add: unat_of_nat u32_max_def)

definition option_frame :: "u32 \<Rightarrow> bytes \<Rightarrow> bytes" where
  "option_frame code p =
    u64_be IHAVEOPT_MAGIC @ u32_be code @ u32_be (of_nat (length p)) @ p"

lemma encode_option_request_Inr_iff:
  "encode_option_request opt payload = Inr out \<longleftrightarrow>
    length payload \<le> 65536 \<and> out = option_frame opt payload"
  by (auto simp: encode_option_request_def Let_def and_then_Inr_iff unat_of_nat_u32 u32_max_def
      unat_of_nat option_frame_def)

lemma parse_option_request_header_Inr_iff:
  "parse_option_request_header inp = Inr h \<longleftrightarrow>
    inp = u64_be IHAVEOPT_MAGIC @ u32_be (orq_option h) @ u32_be (orq_payload_len h)"
proof
  show "inp = u64_be IHAVEOPT_MAGIC @ u32_be (orq_option h) @ u32_be (orq_payload_len h)"
    if "parse_option_request_header inp = Inr h"
    using that by (auto simp: parse_option_request_header_def wire_simps and_then_Inr_iff
        read_Inr_iff split: if_splits)
qed (simp add: parse_option_request_header_def wire_simps)

lemma read_infos_Inr_iff:
  "read_infos n (reader_of pre bs) = Inr (is, r) \<longleftrightarrow>
    length is = n \<and>
    (\<exists>t. bs = concat (map u16_be is) @ t \<and> r = reader_of (pre @ concat (map u16_be is)) t)"
proof (induction n arbitrary: pre bs "is")
  case (Suc n)
  then show ?case
    by (cases "is") (auto simp: and_then_Inr_iff read_Inr_iff wire_simps)
qed auto

lemma read_infos_append [wire_simps]:
  "n = length is \<Longrightarrow> read_infos n (reader_of pre (concat (map u16_be is) @ bs)) =
    Inr (is, reader_of (pre @ concat (map u16_be is)) bs)"
  "n = length is \<Longrightarrow> read_infos n (reader_of pre (concat (map u16_be is))) =
    Inr (is, reader_of (pre @ concat (map u16_be is)) [])"
  by (auto simp: read_infos_Inr_iff)

lemma foldl_write_u16: "foldl write_u16 out is = out @ concat (map u16_be is)"
  by (induction "is" arbitrary: out) simp_all

definition go_payload :: "go_request \<Rightarrow> bytes" where
  "go_payload g = u32_be (of_nat (length (go_export_name g))) @ go_export_name g @
    u16_be (of_nat (length (go_info_requests g))) @ concat (map u16_be (go_info_requests g))"

definition wf_go :: "go_request \<Rightarrow> bool" where
  "wf_go g \<longleftrightarrow> length (go_export_name g) \<le> MAX_STRING_BYTES \<and> 0 \<notin> set (go_export_name g)
    \<and> utf8_valid (go_export_name g) \<and> length (go_info_requests g) \<le> 65535"

lemma unat_u16_le: "unat (w :: u16) \<le> 65535"
proof -
  have "unat w < 2 ^ LENGTH(16)" by (rule unsigned_less)
  then show ?thesis by simp
qed

lemma parse_go_payload_Inr_iff:
  "parse_go_payload payload = Inr g \<longleftrightarrow> wf_go g \<and> payload = go_payload g"
proof (cases g)
  case (fields name infos)
  have "parse_go_payload payload = Inr g \<Longrightarrow> wf_go g \<and> payload = go_payload g"
    using unat_u16_le
    by (auto simp: fields parse_go_payload_def wire_simps and_then_Inr_iff read_Inr_iff Let_def
        read_infos_Inr_iff wf_go_def go_payload_def split: if_splits)
  moreover have "wf_go g \<Longrightarrow> parse_go_payload (go_payload g) = Inr g"
    by (simp add: fields parse_go_payload_def wire_simps Let_def wf_go_def go_payload_def
        unat_of_nat MAX_STRING_BYTES_def)
  ultimately show ?thesis by blast
qed

lemma encode_go_request_Inr_iff:
  "encode_go_request name infos = Inr out \<longleftrightarrow>
    length name \<le> MAX_STRING_BYTES \<and> 0 \<notin> set name \<and> length infos \<le> 65535 \<and>
    encode_option_request NBD_OPT_GO
      (go_payload \<lparr>go_export_name = name, go_info_requests = infos\<rparr>) = Inr out"
  by (auto simp: encode_go_request_def Let_def foldl_write_u16 go_payload_def)

text \<open>The bytes of a parsed request, canonically re-encoded.\<close>

fun option_payload :: "option_request \<Rightarrow> bytes" where
  "option_payload (Go g) = go_payload g"
| "option_payload (Abort p) = p"
| "option_payload (Unknown _ p) = p"

fun wf_option_request :: "option_request \<Rightarrow> bool" where
  "wf_option_request (Go g) = wf_go g"
| "wf_option_request (Abort p) = True"
| "wf_option_request (Unknown code p) = (code \<noteq> NBD_OPT_GO \<and> code \<noteq> NBD_OPT_ABORT)"

lemma option_frame_split:
  "option_frame code p =
    (u64_be IHAVEOPT_MAGIC @ u32_be code @ u32_be (of_nat (length p))) @ p"
  by (simp add: option_frame_def)

lemma parse_option_request_frame:
  assumes "length p \<le> 65536"
  shows "parse_option_request (option_frame code p) =
    (if code = NBD_OPT_GO then and_then (parse_go_payload p) (\<lambda>g. Inr (Go g))
     else if code = NBD_OPT_ABORT then Inr (Abort p) else Inr (Unknown code p))"
proof -
  let ?len = "of_nat (length p) :: u32"
  let ?hb = "u64_be IHAVEOPT_MAGIC @ u32_be code @ u32_be ?len"
  have "parse_option_request_header ?hb = Inr \<lparr>orq_option = code, orq_payload_len = ?len\<rparr>"
    by (simp add: parse_option_request_header_Inr_iff)
  moreover have "bounded_payload_len f ?len = Inr (length p)" for f
    using assms by (simp add: unat_of_nat_u32 u32_max_def)
  ultimately show ?thesis
    unfolding parse_option_request_def option_frame_split
    by (simp add: new_reader_eq read_bytes_append [where ds = ?hb, simplified]
        OPTION_REQUEST_HEADER_BYTES_def read_bytes_reader_of del: bounded_payload_len_Inr_iff)
qed

lemma parse_option_request_frameE:
  assumes "parse_option_request inp = Inr req"
  obtains code p where "inp = option_frame code p" "length p \<le> 65536"
proof -
  obtain hb r h len p r' where *: "read_bytes (reader_of [] inp) OPTION_REQUEST_HEADER_BYTES = Inr (hb, r)"
    "parse_option_request_header hb = Inr h"
    "bounded_payload_len ''option request payload'' (orq_payload_len h) = Inr len"
    "read_bytes r len = Inr (p, r')" "remaining r' = 0"
    using assms unfolding parse_option_request_def new_reader_eq Let_def
    by (auto elim!: and_thenE simp del: bounded_payload_len_Inr_iff split: prod.splits if_split_asm)
  from *(1) obtain t where t: "r = reader_of hb t" "inp = hb @ t"
    by (auto simp: read_Inr_iff)
  have "t = p" "len = length p"
    using *(4,5) by (auto simp: t(1) read_Inr_iff)
  moreover have "hb = u64_be IHAVEOPT_MAGIC @ u32_be (orq_option h) @ u32_be (orq_payload_len h)"
    using *(2) by (simp add: parse_option_request_header_Inr_iff)
  moreover have "orq_payload_len h = of_nat len" "len \<le> 65536"
    using *(3) by auto
  ultimately have "inp = option_frame (orq_option h) p" "length p \<le> 65536"
    using t(2) by (auto simp: option_frame_def)
  then show thesis by (rule that)
qed

lemma parse_option_request_Inr_iff:
  "parse_option_request inp = Inr req \<longleftrightarrow>
    wf_option_request req \<and>
    encode_option_request (option_request_code req) (option_payload req) = Inr inp"
    (is "?parse \<longleftrightarrow> ?wf \<and> ?enc")
proof
  assume ?parse
  then obtain code p where f: "inp = option_frame code p" "length p \<le> 65536"
    by (rule parse_option_request_frameE)
  with \<open>?parse\<close> show "?wf \<and> ?enc"
    by (auto simp: parse_option_request_frame encode_option_request_Inr_iff
        and_then_Inr_iff parse_go_payload_Inr_iff split: if_splits)
next
  assume *: "?wf \<and> ?enc"
  then have "inp = option_frame (option_request_code req) (option_payload req)"
    "length (option_payload req) \<le> 65536"
    by (auto simp: encode_option_request_Inr_iff)
  moreover have "wf_go g \<Longrightarrow> parse_go_payload (go_payload g) = Inr g" for g
    by (simp add: parse_go_payload_Inr_iff)
  ultimately show ?parse
    using * by (cases req) (simp_all add: parse_option_request_frame NBD_OPT_GO_def NBD_OPT_ABORT_def)
qed

section \<open>Option replies\<close>

definition reply_frame :: "u32 \<Rightarrow> u32 \<Rightarrow> bytes \<Rightarrow> bytes" where
  "reply_frame opt t p = (u64_be OPTION_REPLY_MAGIC @ u32_be opt @ u32_be t @
    u32_be (of_nat (length p))) @ p"

fun reply_type_of :: "option_reply \<Rightarrow> u32" where
  "reply_type_of (InfoExport _ _ _) = NBD_REP_INFO"
| "reply_type_of (Ack _) = NBD_REP_ACK"
| "reply_type_of (ErrorReply _ t _) = t"
| "reply_type_of (OtherReply _ t _) = t"

fun reply_payload_of :: "option_reply \<Rightarrow> bytes" where
  "reply_payload_of (InfoExport _ n f) = u16_be NBD_INFO_EXPORT @ u64_be n @ u16_be f"
| "reply_payload_of (Ack _) = []"
| "reply_payload_of (ErrorReply _ _ m) = m"
| "reply_payload_of (OtherReply _ _ p) = p"

fun wf_option_reply :: "option_reply \<Rightarrow> bool" where
  "wf_option_reply (ErrorReply _ t _) = is_error_reply t"
| "wf_option_reply (OtherReply _ t p) =
    (t \<noteq> NBD_REP_ACK \<and> \<not> is_error_reply t \<and>
     (t = NBD_REP_INFO \<longrightarrow> (\<exists>i rest. p = u16_be i @ rest \<and> i \<noteq> NBD_INFO_EXPORT)))"
| "wf_option_reply _ = True"

lemma encode_option_reply_Inr_iff:
  "encode_option_reply opt t p = Inr out \<longleftrightarrow> length p \<le> 65536 \<and> out = reply_frame opt t p"
  by (auto simp: encode_option_reply_def Let_def and_then_Inr_iff unat_of_nat_u32 u32_max_def
      unat_of_nat reply_frame_def)

lemma parse_option_reply_header_Inr_iff:
  "parse_option_reply_header inp = Inr h \<longleftrightarrow>
    inp = u64_be OPTION_REPLY_MAGIC @ u32_be (orp_option h) @ u32_be (orp_reply_type h) @
      u32_be (orp_payload_len h)" (is "_ \<longleftrightarrow> ?r")
proof
  show ?r if "parse_option_reply_header inp = Inr h"
    using that by (auto simp: parse_option_reply_header_def wire_simps and_then_Inr_iff
        read_Inr_iff split: if_splits)
qed (simp add: parse_option_reply_header_def wire_simps)

lemma parse_info_reply_Inr_iff:
  "parse_info_reply opt p = Inr r \<longleftrightarrow>
    (\<exists>n f. p = u16_be NBD_INFO_EXPORT @ u64_be n @ u16_be f \<and> r = InfoExport opt n f) \<or>
    (\<exists>i rest. p = u16_be i @ rest \<and> i \<noteq> NBD_INFO_EXPORT \<and> r = OtherReply opt NBD_REP_INFO p)"
  (is "_ \<longleftrightarrow> ?r")
proof
  show ?r if "parse_info_reply opt p = Inr r"
    using that by (auto simp: parse_info_reply_def wire_simps and_then_Inr_iff
        read_Inr_iff split: if_splits)
qed (auto simp: parse_info_reply_def wire_simps)

lemma parse_option_reply_frame:
  assumes "length p \<le> 65536"
  shows "parse_option_reply (reply_frame opt t p) =
    (if t = NBD_REP_INFO then parse_info_reply opt p
     else if t = NBD_REP_ACK then
       (if p \<noteq> [] then Inl (InvalidReply ''NBD_REP_ACK'' ''payload must be empty'') else Inr (Ack opt))
     else if is_error_reply t then Inr (ErrorReply opt t p) else Inr (OtherReply opt t p))"
proof -
  let ?len = "of_nat (length p) :: u32"
  let ?hb = "u64_be OPTION_REPLY_MAGIC @ u32_be opt @ u32_be t @ u32_be ?len"
  have "parse_option_reply_header ?hb =
      Inr \<lparr>orp_option = opt, orp_reply_type = t, orp_payload_len = ?len\<rparr>"
    by (simp add: parse_option_reply_header_Inr_iff)
  moreover have "bounded_payload_len f ?len = Inr (length p)" for f
    using assms by (simp add: unat_of_nat_u32 u32_max_def)
  ultimately show ?thesis
    unfolding parse_option_reply_def reply_frame_def
    by (simp add: new_reader_eq read_bytes_append [where ds = ?hb, simplified]
        OPTION_REPLY_HEADER_BYTES_def read_bytes_reader_of Let_def del: bounded_payload_len_Inr_iff)
qed

lemma parse_option_reply_frameE:
  assumes "parse_option_reply inp = Inr r"
  obtains opt t p where "inp = reply_frame opt t p" "length p \<le> 65536"
proof -
  obtain hb rd h len p rd' where *: "read_bytes (reader_of [] inp) OPTION_REPLY_HEADER_BYTES = Inr (hb, rd)"
    "parse_option_reply_header hb = Inr h"
    "bounded_payload_len ''option reply payload'' (orp_payload_len h) = Inr len"
    "read_bytes rd len = Inr (p, rd')" "remaining rd' = 0"
    using assms unfolding parse_option_reply_def new_reader_eq Let_def
    by (auto elim!: and_thenE simp del: bounded_payload_len_Inr_iff split: prod.splits if_split_asm)
  from *(1) obtain t where t: "rd = reader_of hb t" "inp = hb @ t"
    by (auto simp: read_Inr_iff)
  have "t = p" "len = length p"
    using *(4,5) by (auto simp: t(1) read_Inr_iff)
  moreover have "hb = u64_be OPTION_REPLY_MAGIC @ u32_be (orp_option h) @
      u32_be (orp_reply_type h) @ u32_be (orp_payload_len h)"
    using *(2) by (simp add: parse_option_reply_header_Inr_iff)
  moreover have "orp_payload_len h = of_nat len" "len \<le> 65536"
    using *(3) by auto
  ultimately have "inp = reply_frame (orp_option h) (orp_reply_type h) p" "length p \<le> 65536"
    using t(2) by (auto simp: reply_frame_def)
  then show thesis by (rule that)
qed

lemma is_error_reply_consts [simp]:
  "\<not> is_error_reply NBD_REP_ACK" "\<not> is_error_reply NBD_REP_INFO"
  "is_error_reply NBD_REP_ERR_UNSUP" "is_error_reply NBD_REP_ERR_POLICY"
  "is_error_reply NBD_REP_ERR_UNKNOWN" "NBD_REP_ACK \<noteq> NBD_REP_INFO"
  "NBD_REP_INFO \<noteq> NBD_REP_ACK"
  by (simp_all add: is_error_reply_def NBD_REP_ACK_def NBD_REP_INFO_def NBD_REP_ERR_UNSUP_def
      NBD_REP_ERR_POLICY_def NBD_REP_ERR_UNKNOWN_def)

lemma parse_option_reply_Inr_iff:
  "parse_option_reply inp = Inr r \<longleftrightarrow>
    wf_option_reply r \<and>
    encode_option_reply (reply_option r) (reply_type_of r) (reply_payload_of r) = Inr inp"
    (is "?parse \<longleftrightarrow> ?wf \<and> ?enc")
proof
  assume ?parse
  then obtain opt t p where f: "inp = reply_frame opt t p" "length p \<le> 65536"
    by (rule parse_option_reply_frameE)
  with \<open>?parse\<close> show "?wf \<and> ?enc"
    by (auto simp: parse_option_reply_frame encode_option_reply_Inr_iff parse_info_reply_Inr_iff
        split: if_splits)
next
  assume *: "?wf \<and> ?enc"
  then have "inp = reply_frame (reply_option r) (reply_type_of r) (reply_payload_of r)"
    "length (reply_payload_of r) \<le> 65536"
    by (auto simp: encode_option_reply_Inr_iff)
  then show ?parse
    using * is_error_reply_consts
    by (cases r) (auto simp: parse_option_reply_frame parse_info_reply_Inr_iff)
qed

section \<open>The codecs\<close>

interpretation option_request_codec: codec
  "\<lambda>req. encode_option_request (option_request_code req) (option_payload req)"
  parse_option_request wf_option_request
  by unfold_locales (rule parse_option_request_Inr_iff)

interpretation option_reply_codec: codec
  "\<lambda>r. encode_option_reply (reply_option r) (reply_type_of r) (reply_payload_of r)"
  parse_option_reply wf_option_reply
  by unfold_locales (rule parse_option_reply_Inr_iff)

section \<open>Properties\<close>

text \<open>
  C21. The client flags are accepted exactly in the two forms a client can send: the four
  bytes of the fixed-newstyle flag, with or without the no-zeroes flag, and nothing else.
\<close>

theorem client_flags_exact:
  "decode_client_flags inp = Inr f \<longleftrightarrow>
    (\<exists>nz. inp = encode_client_flags nz \<and> f = \<lparr>cf_raw = (if nz then 3 else 1)\<rparr>)"
  by (rule decode_client_flags_Inr_iff)

text \<open>
  C19. The option request parser accepts exactly the encodings: a frame is parsed to a
  request if and only if the request is well formed (an export name of at most 4096 bytes
  of UTF-8 without NUL, a code that names the variant) and the encoder gives that frame.
\<close>

theorem option_request_exact:
  "parse_option_request inp = Inr req \<longleftrightarrow>
    wf_option_request req \<and>
    encode_option_request (option_request_code req) (option_payload req) = Inr inp"
  by (rule parse_option_request_Inr_iff)

text \<open>
  C20. The option reply parser inverts the reply encoder: a frame is parsed to a reply if and
  only if the reply is the canonical reading of its type and the encoder gives that frame.
\<close>

theorem option_reply_exact:
  "parse_option_reply inp = Inr r \<longleftrightarrow>
    wf_option_reply r \<and>
    encode_option_reply (reply_option r) (reply_type_of r) (reply_payload_of r) = Inr inp"
  by (rule parse_option_reply_Inr_iff)

end
