(* ===== verification/Transmission.thy ===== *)
theory Transmission
  imports Wire
begin

text \<open>
  The transmission-phase codec, from \<open>nbd-protocol/src/transmission.rs\<close>: request
  headers and their validation, requests, simple and read replies. The lemmas show that
  the request parser accepts exactly the well-formed requests and inverts the encoders,
  and that a validated payload length is within the negotiated bound.
\<close>

definition REQUEST_HEADER_BYTES :: nat where "REQUEST_HEADER_BYTES = 28"
definition SIMPLE_REPLY_BYTES :: nat where "SIMPLE_REPLY_BYTES = 16"
definition MAX_IO_BYTES :: u32 where "MAX_IO_BYTES = 64 * 1024 * 1024"

record request_header =
  rh_flags :: u16
  rh_command :: u16
  rh_cookie :: u64
  rh_offset :: u64
  rh_length :: u32

datatype transmission_request =
    ReadReq (req_cookie: u64) (read_offset: u64) (read_length: u32)
  | WriteReq (req_cookie: u64) (write_offset: u64) (write_data: bytes)
  | FlushReq (req_cookie: u64)
  | DisconnectReq (req_cookie: u64)

record simple_reply =
  sr_cookie :: u64
  sr_error :: u32

record read_reply =
  rr_cookie :: u64
  rr_error :: u32
  rr_data :: bytes

definition is_success :: "simple_reply \<Rightarrow> bool" where
  "is_success r \<longleftrightarrow> sr_error r = 0"

section \<open>Validation\<close>

definition validate_common_header :: "request_header \<Rightarrow> (protocol_error, unit) result" where
  "validate_common_header h = ensure (rh_flags h = 0) (UnsupportedCommandFlags (rh_flags h))"

definition validate_nonzero_len :: "string \<Rightarrow> u32 \<Rightarrow> (protocol_error, unit) result" where
  "validate_nonzero_len command len =
    ensure (len \<noteq> 0) (InvalidRequest command ''zero length is unsupported'')"

definition validate_effect_range :: "u64 \<Rightarrow> u32 \<Rightarrow> (protocol_error, unit) result" where
  "validate_effect_range off len =
    and_then (ok_or (LengthOverflow off len) (checked_add (unat off) (unat len))) (\<lambda>_. Inr ())"

definition validate_io_len :: "string \<Rightarrow> u32 \<Rightarrow> u32 \<Rightarrow> (protocol_error, unit) result" where
  "validate_io_len field len max_io_bytes =
    ensure (len \<le> max_io_bytes) (LengthTooLarge field (unat len) (unat max_io_bytes))"

definition validate_no_range :: "string \<Rightarrow> u64 \<Rightarrow> u32 \<Rightarrow> (protocol_error, unit) result" where
  "validate_no_range command off len =
    ensure (off = 0 \<and> len = 0) (InvalidRequest command ''offset and length must be zero'')"

definition payload_len :: "request_header \<Rightarrow> u32 \<Rightarrow> (protocol_error, nat) result" where
  "payload_len h max_io_bytes =
    and_then (validate_common_header h) (\<lambda>_.
      if rh_command h = NBD_CMD_READ then
        and_then (validate_nonzero_len ''NBD_CMD_READ'' (rh_length h)) (\<lambda>_.
          and_then (validate_effect_range (rh_offset h) (rh_length h)) (\<lambda>_.
            and_then (validate_io_len ''read length'' (rh_length h) max_io_bytes) (\<lambda>_. Inr 0)))
      else if rh_command h = NBD_CMD_WRITE then
        and_then (validate_nonzero_len ''NBD_CMD_WRITE'' (rh_length h)) (\<lambda>_.
          and_then (validate_effect_range (rh_offset h) (rh_length h)) (\<lambda>_.
            and_then (validate_io_len ''write payload'' (rh_length h) max_io_bytes) (\<lambda>_.
              Inr (unat (rh_length h)))))
      else if rh_command h = NBD_CMD_FLUSH then
        and_then (validate_no_range ''NBD_CMD_FLUSH'' (rh_offset h) (rh_length h)) (\<lambda>_. Inr 0)
      else if rh_command h = NBD_CMD_DISC then
        and_then (validate_no_range ''NBD_CMD_DISC'' (rh_offset h) (rh_length h)) (\<lambda>_. Inr 0)
      else Inl (UnsupportedCommand (rh_command h)))"

section \<open>Requests\<close>

definition encode_request_header :: "request_header \<Rightarrow> bytes" where
  "encode_request_header h =
    (let out = [];
         out = write_u32 out NBD_REQUEST_MAGIC;
         out = write_u16 out (rh_flags h);
         out = write_u16 out (rh_command h);
         out = write_u64 out (rh_cookie h);
         out = write_u64 out (rh_offset h);
         out = write_u32 out (rh_length h)
     in out)"

definition encode_read_request :: "u64 \<Rightarrow> u64 \<Rightarrow> u32 \<Rightarrow> (protocol_error, bytes) result" where
  "encode_read_request cookie off len =
    (let header = \<lparr>rh_flags = 0, rh_command = NBD_CMD_READ, rh_cookie = cookie,
                   rh_offset = off, rh_length = len\<rparr>
     in and_then (payload_len header MAX_IO_BYTES) (\<lambda>_. Inr (encode_request_header header)))"

definition encode_write_request :: "u64 \<Rightarrow> u64 \<Rightarrow> bytes \<Rightarrow> (protocol_error, bytes) result" where
  "encode_write_request cookie off data =
    (if length data > u32_max
     then Inl (LengthTooLarge ''write payload'' (length data) u32_max)
     else
       let header = \<lparr>rh_flags = 0, rh_command = NBD_CMD_WRITE, rh_cookie = cookie,
                     rh_offset = off, rh_length = of_nat (length data)\<rparr>
       in and_then (payload_len header MAX_IO_BYTES)
            (\<lambda>_. Inr (encode_request_header header @ data)))"

definition encode_zero_range_request :: "u64 \<Rightarrow> u16 \<Rightarrow> (protocol_error, bytes) result" where
  "encode_zero_range_request cookie command =
    (let header = \<lparr>rh_flags = 0, rh_command = command, rh_cookie = cookie,
                   rh_offset = 0, rh_length = 0\<rparr>
     in and_then (payload_len header MAX_IO_BYTES) (\<lambda>_. Inr (encode_request_header header)))"

definition encode_flush_request :: "u64 \<Rightarrow> (protocol_error, bytes) result" where
  "encode_flush_request cookie = encode_zero_range_request cookie NBD_CMD_FLUSH"

definition encode_disconnect_request :: "u64 \<Rightarrow> (protocol_error, bytes) result" where
  "encode_disconnect_request cookie = encode_zero_range_request cookie NBD_CMD_DISC"

definition parse_header :: "wire_reader \<Rightarrow> (protocol_error, request_header \<times> wire_reader) result" where
  "parse_header r =
    and_then (read_u32 r) (\<lambda>(magic, r).
      if magic \<noteq> NBD_REQUEST_MAGIC
      then Inl (InvalidMagic ''transmission request'' (ucast NBD_REQUEST_MAGIC) (ucast magic))
      else and_then (read_u16 r) (\<lambda>(flags, r).
        and_then (read_u16 r) (\<lambda>(command, r).
        and_then (read_u64 r) (\<lambda>(cookie, r).
        and_then (read_u64 r) (\<lambda>(off, r).
        and_then (read_u32 r) (\<lambda>(len, r).
          Inr (\<lparr>rh_flags = flags, rh_command = command, rh_cookie = cookie,
                rh_offset = off, rh_length = len\<rparr>, r)))))))"

definition parse_request_header :: "bytes \<Rightarrow> (protocol_error, request_header) result" where
  "parse_request_header inp =
    and_then (parse_header (new_reader inp)) (\<lambda>(header, r).
      and_then (require_no_payload r) (\<lambda>_. Inr header))"

definition parse_request :: "bytes \<Rightarrow> u32 \<Rightarrow> (protocol_error, transmission_request) result" where
  "parse_request inp max_io_bytes =
    and_then (parse_header (new_reader inp)) (\<lambda>(header, r).
      and_then (payload_len header max_io_bytes) (\<lambda>plen.
        if rh_command header = NBD_CMD_READ then
          and_then (require_no_payload r) (\<lambda>_.
            Inr (ReadReq (rh_cookie header) (rh_offset header) (rh_length header)))
        else if rh_command header = NBD_CMD_WRITE then
          and_then (read_bytes r plen) (\<lambda>(data, r).
            if remaining r \<noteq> 0 then Inl (TrailingBytes (remaining r))
            else Inr (WriteReq (rh_cookie header) (rh_offset header) data))
        else if rh_command header = NBD_CMD_FLUSH then
          and_then (require_no_payload r) (\<lambda>_. Inr (FlushReq (rh_cookie header)))
        else if rh_command header = NBD_CMD_DISC then
          and_then (require_no_payload r) (\<lambda>_. Inr (DisconnectReq (rh_cookie header)))
        else Inl (UnsupportedCommand (rh_command header))))"

section \<open>Replies\<close>

definition encode_simple_reply :: "u64 \<Rightarrow> u32 \<Rightarrow> bytes" where
  "encode_simple_reply cookie err =
    (let out = [];
         out = write_u32 out NBD_SIMPLE_REPLY_MAGIC;
         out = write_u32 out err;
         out = write_u64 out cookie
     in out)"

definition encode_success_reply :: "u64 \<Rightarrow> bytes" where
  "encode_success_reply cookie = encode_simple_reply cookie 0"

definition encode_read_reply :: "u64 \<Rightarrow> bytes \<Rightarrow> bytes" where
  "encode_read_reply cookie data = encode_success_reply cookie @ data"

definition parse_simple_reply :: "bytes \<Rightarrow> (protocol_error, simple_reply) result" where
  "parse_simple_reply inp =
    and_then (read_u32 (new_reader inp)) (\<lambda>(magic, r).
      if magic \<noteq> NBD_SIMPLE_REPLY_MAGIC
      then Inl (InvalidMagic ''simple reply'' (ucast NBD_SIMPLE_REPLY_MAGIC) (ucast magic))
      else and_then (read_u32 r) (\<lambda>(err, r).
        and_then (read_u64 r) (\<lambda>(cookie, r).
          if remaining r \<noteq> 0 then Inl (TrailingBytes (remaining r))
          else Inr \<lparr>sr_cookie = cookie, sr_error = err\<rparr>)))"

definition parse_read_reply :: "bytes \<Rightarrow> u32 \<Rightarrow> (protocol_error, read_reply) result" where
  "parse_read_reply inp expected_len =
    and_then (read_bytes (new_reader inp) SIMPLE_REPLY_BYTES) (\<lambda>(hb, r).
      and_then (parse_simple_reply hb) (\<lambda>reply.
        let data_len = (if is_success reply then unat expected_len else 0) in
        and_then (read_bytes r data_len) (\<lambda>(data, r).
          if remaining r \<noteq> 0 then Inl (TrailingBytes (remaining r))
          else Inr \<lparr>rr_cookie = sr_cookie reply, rr_error = sr_error reply, rr_data = data\<rparr>)))"

section \<open>Header validation and parsing\<close>

lemma cmd_distinct [simp]:
  "NBD_CMD_READ \<noteq> NBD_CMD_WRITE" "NBD_CMD_READ \<noteq> NBD_CMD_FLUSH" "NBD_CMD_READ \<noteq> NBD_CMD_DISC"
  "NBD_CMD_WRITE \<noteq> NBD_CMD_READ" "NBD_CMD_WRITE \<noteq> NBD_CMD_FLUSH" "NBD_CMD_WRITE \<noteq> NBD_CMD_DISC"
  "NBD_CMD_FLUSH \<noteq> NBD_CMD_READ" "NBD_CMD_FLUSH \<noteq> NBD_CMD_WRITE" "NBD_CMD_FLUSH \<noteq> NBD_CMD_DISC"
  "NBD_CMD_DISC \<noteq> NBD_CMD_READ" "NBD_CMD_DISC \<noteq> NBD_CMD_WRITE" "NBD_CMD_DISC \<noteq> NBD_CMD_FLUSH"
  by (simp_all add: NBD_CMD_READ_def NBD_CMD_WRITE_def NBD_CMD_FLUSH_def NBD_CMD_DISC_def)

definition valid_io :: "request_header \<Rightarrow> u32 \<Rightarrow> bool" where
  "valid_io h m \<longleftrightarrow> rh_length h \<noteq> 0 \<and> unat (rh_offset h) + unat (rh_length h) \<le> u64_max
    \<and> rh_length h \<le> m"

lemmas validate_defs = validate_common_header_def validate_nonzero_len_def
  validate_effect_range_def validate_io_len_def validate_no_range_def

lemma payload_len_Inr_iff:
  "payload_len h m = Inr n \<longleftrightarrow> rh_flags h = 0 \<and>
    (rh_command h = NBD_CMD_READ \<and> valid_io h m \<and> n = 0 \<or>
     rh_command h = NBD_CMD_WRITE \<and> valid_io h m \<and> n = unat (rh_length h) \<or>
     rh_command h \<in> {NBD_CMD_FLUSH, NBD_CMD_DISC} \<and> rh_offset h = 0 \<and> rh_length h = 0 \<and> n = 0)"
  by (auto simp: payload_len_def validate_defs and_then_Inr_iff valid_io_def checked_arith)

lemma encode_request_header_eq:
  "encode_request_header h = u32_be NBD_REQUEST_MAGIC @ u16_be (rh_flags h) @
    u16_be (rh_command h) @ u64_be (rh_cookie h) @ u64_be (rh_offset h) @ u32_be (rh_length h)"
  by (simp add: encode_request_header_def)

lemma length_encode_request_header [simp]:
  "length (encode_request_header h) = REQUEST_HEADER_BYTES"
  by (simp add: encode_request_header_eq REQUEST_HEADER_BYTES_def)

lemma parse_header_append:
  "parse_header (reader_of pre (encode_request_header h @ t)) =
    Inr (h, reader_of (pre @ encode_request_header h) t)"
  "parse_header (reader_of pre (encode_request_header h)) =
    Inr (h, reader_of (pre @ encode_request_header h) [])"
  by (simp_all add: parse_header_def encode_request_header_eq wire_simps)

lemma parse_header_Inr_iff:
  "parse_header (reader_of pre bs) = Inr (h, r) \<longleftrightarrow>
    (\<exists>t. bs = encode_request_header h @ t \<and> r = reader_of (pre @ encode_request_header h) t)"
  (is "_ \<longleftrightarrow> ?r")
proof
  show ?r if "parse_header (reader_of pre bs) = Inr (h, r)"
    using that by (auto simp: parse_header_def and_then_Inr_iff read_Inr_iff
        encode_request_header_eq split: if_splits)
qed (auto simp: parse_header_append)

section \<open>Requests round trip\<close>

fun request_header_of :: "transmission_request \<Rightarrow> request_header" where
  "request_header_of (ReadReq c off len) = \<lparr>rh_flags = 0, rh_command = NBD_CMD_READ,
    rh_cookie = c, rh_offset = off, rh_length = len\<rparr>"
| "request_header_of (WriteReq c off data) = \<lparr>rh_flags = 0, rh_command = NBD_CMD_WRITE,
    rh_cookie = c, rh_offset = off, rh_length = of_nat (length data)\<rparr>"
| "request_header_of (FlushReq c) = \<lparr>rh_flags = 0, rh_command = NBD_CMD_FLUSH,
    rh_cookie = c, rh_offset = 0, rh_length = 0\<rparr>"
| "request_header_of (DisconnectReq c) = \<lparr>rh_flags = 0, rh_command = NBD_CMD_DISC,
    rh_cookie = c, rh_offset = 0, rh_length = 0\<rparr>"

fun request_payload :: "transmission_request \<Rightarrow> bytes" where
  "request_payload (WriteReq c off data) = data"
| "request_payload _ = []"

fun encode_request :: "transmission_request \<Rightarrow> (protocol_error, bytes) result" where
  "encode_request (ReadReq c off len) = encode_read_request c off len"
| "encode_request (WriteReq c off data) = encode_write_request c off data"
| "encode_request (FlushReq c) = encode_flush_request c"
| "encode_request (DisconnectReq c) = encode_disconnect_request c"

lemma encode_request_Inr_iff:
  "encode_request req = Inr out \<longleftrightarrow>
    payload_len (request_header_of req) MAX_IO_BYTES = Inr (length (request_payload req)) \<and>
    out = encode_request_header (request_header_of req) @ request_payload req"
proof (cases req)
  case (WriteReq c off data)
  show ?thesis
  proof (cases "length data \<le> u32_max")
    case True
    then have "unat (of_nat (length data) :: u32) = length data"
      by (simp add: unat_of_nat u32_max_def)
    then show ?thesis using True WriteReq
      by (auto simp: encode_write_request_def Let_def and_then_Inr_iff payload_len_Inr_iff)
  next
    case False
    then have "length data \<noteq> unat (of_nat (length data) :: u32)"
      using unat_u32_le [of "of_nat (length data)"] by auto
    then show ?thesis using False WriteReq
      by (auto simp: encode_write_request_def payload_len_Inr_iff)
  qed
qed (auto simp: encode_read_request_def encode_flush_request_def encode_disconnect_request_def
    encode_zero_range_request_def Let_def and_then_Inr_iff payload_len_Inr_iff)

lemma parse_request_sound:
  assumes "parse_request inp m = Inr req"
  shows "payload_len (request_header_of req) m = Inr (length (request_payload req)) \<and>
    inp = encode_request_header (request_header_of req) @ request_payload req"
proof -
  obtain h t n where h: "inp = encode_request_header h @ t" "payload_len h m = Inr n"
    using assms by (auto simp: parse_request_def new_reader_eq parse_header_Inr_iff elim!: and_thenE)
  have p: "parse_header (new_reader inp) = Inr (h, reader_of (encode_request_header h) t)"
    using parse_header_append(1) [of "[]" h t] by (simp add: h(1) new_reader_eq)
  note parse = assms [unfolded parse_request_def p and_then.simps prod.case h(2)]
  have flags: "rh_flags h = 0" using h(2) by (simp add: payload_len_Inr_iff)
  from h(2) consider (rd) "rh_command h = NBD_CMD_READ" "n = 0"
    | (wr) "rh_command h = NBD_CMD_WRITE" "n = unat (rh_length h)"
    | (fl) "rh_command h = NBD_CMD_FLUSH" "n = 0" "rh_offset h = 0" "rh_length h = 0"
    | (di) "rh_command h = NBD_CMD_DISC" "n = 0" "rh_offset h = 0" "rh_length h = 0"
    by (auto simp: payload_len_Inr_iff)
  then have "h = request_header_of req \<and> t = request_payload req \<and> n = length t"
  proof cases
    case rd
    with parse flags show ?thesis by (cases h) (auto elim!: and_thenE)
  next
    case wr
    with parse flags show ?thesis
      by (cases h) (auto simp: read_Inr_iff elim!: and_thenE split: if_split_asm)
  next
    case fl
    with parse flags show ?thesis by (cases h) (auto elim!: and_thenE)
  next
    case di
    with parse flags show ?thesis by (cases h) (auto elim!: and_thenE)
  qed
  with h show ?thesis by auto
qed

lemma parse_request_complete:
  assumes "payload_len (request_header_of req) m = Inr (length (request_payload req))"
  shows "parse_request (encode_request_header (request_header_of req) @ request_payload req) m = Inr req"
  using assms
  by (cases req) (auto simp: parse_request_def new_reader_eq parse_header_append
      read_bytes_reader_of)

section \<open>Replies round trip\<close>

lemma encode_simple_reply_eq:
  "encode_simple_reply c e = u32_be NBD_SIMPLE_REPLY_MAGIC @ u32_be e @ u64_be c"
  by (simp add: encode_simple_reply_def)

lemma length_encode_simple_reply [simp]: "length (encode_simple_reply c e) = SIMPLE_REPLY_BYTES"
  by (simp add: encode_simple_reply_eq SIMPLE_REPLY_BYTES_def)

lemma parse_simple_reply_Inr_iff:
  "parse_simple_reply inp = Inr r \<longleftrightarrow> inp = encode_simple_reply (sr_cookie r) (sr_error r)"
  (is "_ \<longleftrightarrow> ?r")
proof
  show ?r if "parse_simple_reply inp = Inr r"
    using that by (auto simp: parse_simple_reply_def wire_simps and_then_Inr_iff read_Inr_iff
        encode_simple_reply_eq split: if_splits)
qed (simp add: parse_simple_reply_def encode_simple_reply_eq wire_simps)

lemma parse_read_reply_Inr_iff:
  "parse_read_reply inp n = Inr r \<longleftrightarrow>
    inp = encode_simple_reply (rr_cookie r) (rr_error r) @ rr_data r \<and>
    length (rr_data r) = (if rr_error r = 0 then unat n else 0)" (is "_ \<longleftrightarrow> ?r")
proof
  show ?r if "parse_read_reply inp n = Inr r"
    using that by (auto simp: parse_read_reply_def wire_simps Let_def read_Inr_iff is_success_def
        parse_simple_reply_Inr_iff elim!: and_thenE split: if_splits)
next
  assume *: ?r
  have "parse_simple_reply (encode_simple_reply (rr_cookie r) (rr_error r)) =
      Inr \<lparr>sr_cookie = rr_cookie r, sr_error = rr_error r\<rparr>"
    by (simp add: parse_simple_reply_Inr_iff)
  then show "parse_read_reply inp n = Inr r"
    using * by (simp add: parse_read_reply_def new_reader_eq read_bytes_append is_success_def
        read_bytes_reader_of split: if_splits)
qed

section \<open>The codecs\<close>

interpretation request_codec: codec encode_request "\<lambda>inp. parse_request inp MAX_IO_BYTES" "\<lambda>_. True"
proof
  fix inp req
  show "parse_request inp MAX_IO_BYTES = Inr req \<longleftrightarrow> True \<and> encode_request req = Inr inp"
    using parse_request_sound [of inp MAX_IO_BYTES req] parse_request_complete [of req MAX_IO_BYTES]
    by (auto simp: encode_request_Inr_iff)
qed

interpretation header_codec: codec "\<lambda>h. Inr (encode_request_header h)" parse_request_header "\<lambda>_. True"
  by unfold_locales (auto simp: parse_request_header_def new_reader_eq parse_header_append
      parse_header_Inr_iff elim!: and_thenE)

interpretation simple_reply_codec: codec "\<lambda>r. Inr (encode_simple_reply (sr_cookie r) (sr_error r))"
  parse_simple_reply "\<lambda>_. True"
  by unfold_locales (auto simp: parse_simple_reply_Inr_iff)

section \<open>Properties\<close>

text \<open>
  C16. Transmission requests round trip exactly: under the server's limit a byte string is
  parsed to a request if and only if it is what the client's encoder of that command
  produces for it, so no other bytes are accepted and no encoded request is refused.
\<close>

theorem transmission_request_exact:
  "parse_request inp MAX_IO_BYTES = Inr req \<longleftrightarrow> encode_request req = Inr inp"
  by (simp add: request_codec.decode_iff)

text \<open>
  C17. The payload length a header announces is bounded before anything is read: a header is
  accepted exactly when its flags are zero and it is a read or write of a non-empty range
  that ends within 64 bits and is within the limit, or a flush or disconnect without a
  range; only a write announces payload, namely its length.
\<close>

theorem payload_len_exact:
  "payload_len h m = Inr n \<longleftrightarrow> rh_flags h = 0 \<and>
    (rh_command h \<in> {NBD_CMD_READ, NBD_CMD_WRITE} \<and> 0 < rh_length h \<and> rh_length h \<le> m \<and>
       unat (rh_offset h) + unat (rh_length h) < 2 ^ 64 \<and>
       n = (if rh_command h = NBD_CMD_WRITE then unat (rh_length h) else 0) \<or>
     rh_command h \<in> {NBD_CMD_FLUSH, NBD_CMD_DISC} \<and> rh_offset h = 0 \<and> rh_length h = 0 \<and> n = 0)"
  by (auto simp: payload_len_Inr_iff valid_io_def u64_max_def word_neq_0_conv)

text \<open>
  C18. A read reply is accepted exactly when it is a simple reply header followed by the
  requested number of bytes on success and by nothing on failure.
\<close>

theorem read_reply_exact:
  "parse_read_reply inp n = Inr r \<longleftrightarrow>
    inp = encode_simple_reply (rr_cookie r) (rr_error r) @ rr_data r \<and>
    length (rr_data r) = (if rr_error r = 0 then unat n else 0)"
  by (rule parse_read_reply_Inr_iff)

end
