(* ===== verification/Catalog_Types.thy ===== *)
theory Catalog_Types
  imports Prelude
begin

text \<open>
  The storage-neutral catalog model, from \<open>nbd-control-plane-core/src/{error,export,
  tree,tree_format}.rs\<close>: identities, export descriptors and heads, tree records, and
  their validating constructors. Rendered message texts of errors are not modelled; an
  error carries its constructor and its static field names.
\<close>

section \<open>Errors and identities\<close>

type_synonym export_id = string
type_synonym export_name = string
type_synonym node_id = string
type_synonym blob_key = string
type_synonym timestamp = string
type_synonym wal_seq = nat
type_synonym chunk_index = nat

datatype catalog_error =
    InvalidCatalogUrl string
  | UnsupportedCatalogProvider string
  | InvalidExportName string
  | InvalidField string
  | ExportAlreadyExists export_name
  | ExportNotFound export_name
  | ExportDeleted export_name
  | InvalidExportState string
  | InvalidExportEngineKind string
  | Database

definition NUL :: char where "NUL = CHR 0x00"

definition non_empty_string :: "string \<Rightarrow> string \<Rightarrow> (catalog_error, string) result" where
  "non_empty_string field v =
    (if v = [] then Inl (InvalidField field)
     else if NUL \<in> set v then Inl (InvalidField field)
     else Inr v)"

definition validate_non_zero :: "string \<Rightarrow> nat \<Rightarrow> (catalog_error, unit) result" where
  "validate_non_zero field v = (if v = 0 then Inl (InvalidField field) else Inr ())"

definition new_export_id :: "string \<Rightarrow> (catalog_error, export_id) result" where
  "new_export_id s = non_empty_string ''export id'' s"

definition new_node_id :: "string \<Rightarrow> (catalog_error, node_id) result" where
  "new_node_id s = non_empty_string ''node id'' s"

definition new_timestamp :: "string \<Rightarrow> (catalog_error, timestamp) result" where
  "new_timestamp s = non_empty_string ''timestamp'' s"

definition new_export_name :: "string \<Rightarrow> (catalog_error, export_name) result" where
  "new_export_name s =
    (if s = [] then Inl (InvalidExportName s)
     else if NUL \<in> set s then Inl (InvalidExportName s)
     else Inr s)"

definition new_blob_key :: "string \<Rightarrow> (catalog_error, blob_key) result" where
  "new_blob_key s =
    (if s = [] then Inl (InvalidField ''blob_key'')
     else if s = ''.'' \<or> s = ''..'' then Inl (InvalidField ''blob_key'')
     else if NUL \<in> set s then Inl (InvalidField ''blob_key'')
     else if CHR ''/'' \<in> set s \<or> CHR 0x5C \<in> set s then Inl (InvalidField ''blob_key'')
     else Inr s)"

section \<open>Enumerations and their text\<close>

datatype export_state = Active | Deleted
datatype export_engine_kind = Memory | SimpleDurable | WalDurable
datatype export_layout_kind = MemoryEmpty | SimpleMutableTree | CowImmutableTree
datatype tree_format = Bounded32V1
datatype tree_node_kind = Internal | LeafNode
datatype tree_storage_kind = MutableBlob | ImmutableBlob

definition default_tree_format :: tree_format where "default_tree_format = Bounded32V1"

fun export_state_text :: "export_state \<Rightarrow> string" where
  "export_state_text Active = ''active''"
| "export_state_text Deleted = ''deleted''"

definition parse_export_state :: "string \<Rightarrow> (catalog_error, export_state) result" where
  "parse_export_state s =
    (if s = ''active'' then Inr Active
     else if s = ''deleted'' then Inr Deleted
     else Inl (InvalidExportState s))"

fun engine_kind_text :: "export_engine_kind \<Rightarrow> string" where
  "engine_kind_text Memory = ''memory''"
| "engine_kind_text SimpleDurable = ''simple_durable''"
| "engine_kind_text WalDurable = ''wal_durable''"

definition parse_engine_kind :: "string \<Rightarrow> (catalog_error, export_engine_kind) result" where
  "parse_engine_kind s =
    (if s = ''memory'' then Inr Memory
     else if s = ''simple_durable'' then Inr SimpleDurable
     else if s = ''wal_durable'' then Inr WalDurable
     else Inl (InvalidExportEngineKind s))"

fun layout_kind_text :: "export_layout_kind \<Rightarrow> string" where
  "layout_kind_text MemoryEmpty = ''memory_empty''"
| "layout_kind_text SimpleMutableTree = ''simple_mutable_tree''"
| "layout_kind_text CowImmutableTree = ''cow_immutable_tree''"

definition parse_layout_kind :: "string \<Rightarrow> (catalog_error, export_layout_kind) result" where
  "parse_layout_kind s =
    (if s = ''memory_empty'' then Inr MemoryEmpty
     else if s = ''simple_mutable_tree'' then Inr SimpleMutableTree
     else if s = ''cow_immutable_tree'' then Inr CowImmutableTree
     else Inl (InvalidField ''layout_kind''))"

fun tree_format_text :: "tree_format \<Rightarrow> string" where
  "tree_format_text Bounded32V1 = ''bounded_32_v1''"

definition parse_tree_format :: "string \<Rightarrow> (catalog_error, tree_format) result" where
  "parse_tree_format s =
    (if s = ''bounded_32_v1'' then Inr Bounded32V1 else Inl (InvalidField ''tree_format''))"

fun node_kind_text :: "tree_node_kind \<Rightarrow> string" where
  "node_kind_text Internal = ''internal''"
| "node_kind_text LeafNode = ''leaf''"

definition parse_node_kind :: "string \<Rightarrow> (catalog_error, tree_node_kind) result" where
  "parse_node_kind s =
    (if s = ''internal'' then Inr Internal
     else if s = ''leaf'' then Inr LeafNode
     else Inl (InvalidField ''kind''))"

fun storage_kind_text :: "tree_storage_kind \<Rightarrow> string" where
  "storage_kind_text MutableBlob = ''mutable_blob''"
| "storage_kind_text ImmutableBlob = ''immutable_blob''"

definition parse_storage_kind :: "string \<Rightarrow> (catalog_error, tree_storage_kind) result" where
  "parse_storage_kind s =
    (if s = ''mutable_blob'' then Inr MutableBlob
     else if s = ''immutable_blob'' then Inr ImmutableBlob
     else Inl (InvalidField ''storage_kind''))"

section \<open>Heads, descriptors and records\<close>

record memory_export_head =
  mh_size_bytes :: nat

record simple_mutable_tree_head =
  sh_size_bytes :: nat
  sh_root_node_id :: "node_id option"
  sh_tree_format :: tree_format

record cow_immutable_tree_head =
  ch_size_bytes :: nat
  ch_root_node_id :: "node_id option"
  ch_base_wal_seq :: wal_seq
  ch_tree_format :: tree_format

datatype export_head =
    MemoryHead memory_export_head
  | SimpleHead simple_mutable_tree_head
  | CowHead cow_immutable_tree_head

definition memory_empty_with_base ::
  "nat \<Rightarrow> node_id option \<Rightarrow> wal_seq \<Rightarrow> (catalog_error, export_head) result" where
  "memory_empty_with_base size_bytes root base =
    and_then (validate_non_zero ''size_bytes'' size_bytes) (\<lambda>_.
      if root \<noteq> None then Inl (InvalidField ''root_node_id'')
      else if base \<noteq> 0 then Inl (InvalidField ''base_wal_seq'')
      else Inr (MemoryHead \<lparr>mh_size_bytes = size_bytes\<rparr>))"

definition simple_mutable_tree_with_root_base_and_format ::
  "nat \<Rightarrow> node_id option \<Rightarrow> wal_seq \<Rightarrow> tree_format \<Rightarrow> (catalog_error, export_head) result" where
  "simple_mutable_tree_with_root_base_and_format size_bytes root base fmt =
    and_then (validate_non_zero ''size_bytes'' size_bytes) (\<lambda>_.
      if base \<noteq> 0 then Inl (InvalidField ''base_wal_seq'')
      else Inr (SimpleHead \<lparr>sh_size_bytes = size_bytes, sh_root_node_id = root,
                            sh_tree_format = fmt\<rparr>))"

definition cow_immutable_tree_with_root_and_format ::
  "nat \<Rightarrow> node_id option \<Rightarrow> wal_seq \<Rightarrow> tree_format \<Rightarrow> (catalog_error, export_head) result" where
  "cow_immutable_tree_with_root_and_format size_bytes root base fmt =
    and_then (validate_non_zero ''size_bytes'' size_bytes) (\<lambda>_.
      Inr (CowHead \<lparr>ch_size_bytes = size_bytes, ch_root_node_id = root,
                    ch_base_wal_seq = base, ch_tree_format = fmt\<rparr>))"

definition new_head_with_tree_format ::
  "export_layout_kind \<Rightarrow> node_id option \<Rightarrow> nat \<Rightarrow> wal_seq \<Rightarrow> tree_format option
    \<Rightarrow> (catalog_error, export_head) result" where
  "new_head_with_tree_format kind root size_bytes base fmt =
    (case kind of
       MemoryEmpty \<Rightarrow>
         if fmt \<noteq> None then Inl (InvalidField ''tree_format'')
         else memory_empty_with_base size_bytes root base
     | SimpleMutableTree \<Rightarrow>
         simple_mutable_tree_with_root_base_and_format size_bytes root base
           (case fmt of None \<Rightarrow> default_tree_format | Some f \<Rightarrow> f)
     | CowImmutableTree \<Rightarrow>
         cow_immutable_tree_with_root_and_format size_bytes root base
           (case fmt of None \<Rightarrow> default_tree_format | Some f \<Rightarrow> f))"

definition new_head ::
  "export_layout_kind \<Rightarrow> node_id option \<Rightarrow> nat \<Rightarrow> wal_seq \<Rightarrow> (catalog_error, export_head) result" where
  "new_head kind root size_bytes base = new_head_with_tree_format kind root size_bytes base None"

definition memory_empty :: "nat \<Rightarrow> (catalog_error, export_head) result" where
  "memory_empty size_bytes = memory_empty_with_base size_bytes None 0"

definition simple_mutable_tree_with_root ::
  "nat \<Rightarrow> node_id option \<Rightarrow> (catalog_error, export_head) result" where
  "simple_mutable_tree_with_root size_bytes root =
    simple_mutable_tree_with_root_base_and_format size_bytes root 0 default_tree_format"

definition simple_mutable_tree :: "nat \<Rightarrow> (catalog_error, export_head) result" where
  "simple_mutable_tree size_bytes = simple_mutable_tree_with_root size_bytes None"

definition cow_immutable_tree_with_root ::
  "nat \<Rightarrow> node_id option \<Rightarrow> wal_seq \<Rightarrow> (catalog_error, export_head) result" where
  "cow_immutable_tree_with_root size_bytes root base =
    cow_immutable_tree_with_root_and_format size_bytes root base default_tree_format"

definition cow_immutable_tree :: "nat \<Rightarrow> (catalog_error, export_head) result" where
  "cow_immutable_tree size_bytes = cow_immutable_tree_with_root size_bytes None 0"

fun head_layout_kind :: "export_head \<Rightarrow> export_layout_kind" where
  "head_layout_kind (MemoryHead _) = MemoryEmpty"
| "head_layout_kind (SimpleHead _) = SimpleMutableTree"
| "head_layout_kind (CowHead _) = CowImmutableTree"

fun head_root_node_id :: "export_head \<Rightarrow> node_id option" where
  "head_root_node_id (MemoryHead _) = None"
| "head_root_node_id (SimpleHead h) = sh_root_node_id h"
| "head_root_node_id (CowHead h) = ch_root_node_id h"

fun head_size_bytes :: "export_head \<Rightarrow> nat" where
  "head_size_bytes (MemoryHead h) = mh_size_bytes h"
| "head_size_bytes (SimpleHead h) = sh_size_bytes h"
| "head_size_bytes (CowHead h) = ch_size_bytes h"

fun head_base_wal_seq :: "export_head \<Rightarrow> wal_seq" where
  "head_base_wal_seq (MemoryHead _) = 0"
| "head_base_wal_seq (SimpleHead _) = 0"
| "head_base_wal_seq (CowHead h) = ch_base_wal_seq h"

fun head_tree_format :: "export_head \<Rightarrow> tree_format option" where
  "head_tree_format (MemoryHead _) = None"
| "head_tree_format (SimpleHead h) = Some (sh_tree_format h)"
| "head_tree_format (CowHead h) = Some (ch_tree_format h)"

record export_descriptor =
  ed_id :: export_id
  ed_name :: export_name
  ed_block_size :: nat
  ed_engine_kind :: export_engine_kind
  ed_state :: export_state
  ed_created_at :: timestamp
  ed_updated_at :: timestamp
  ed_deleted_at :: "timestamp option"

record export_record =
  er_id :: export_id
  er_name :: export_name
  er_block_size :: nat
  er_engine_kind :: export_engine_kind
  er_state :: export_state
  er_head :: export_head
  er_created_at :: timestamp
  er_updated_at :: timestamp
  er_deleted_at :: "timestamp option"

definition new_export_descriptor ::
  "export_id \<Rightarrow> export_name \<Rightarrow> nat \<Rightarrow> export_engine_kind \<Rightarrow> export_state \<Rightarrow> timestamp \<Rightarrow> timestamp
    \<Rightarrow> timestamp option \<Rightarrow> (catalog_error, export_descriptor) result" where
  "new_export_descriptor eid name block_size kind state created updated deleted =
    and_then (validate_non_zero ''block_size'' block_size) (\<lambda>_.
      Inr \<lparr>ed_id = eid, ed_name = name, ed_block_size = block_size, ed_engine_kind = kind,
           ed_state = state, ed_created_at = created, ed_updated_at = updated,
           ed_deleted_at = deleted\<rparr>)"

definition new_export_record ::
  "export_id \<Rightarrow> export_name \<Rightarrow> nat \<Rightarrow> export_engine_kind \<Rightarrow> export_state \<Rightarrow> export_head
    \<Rightarrow> timestamp \<Rightarrow> timestamp \<Rightarrow> timestamp option \<Rightarrow> (catalog_error, export_record) result" where
  "new_export_record eid name block_size kind state head created updated deleted =
    and_then (validate_non_zero ''block_size'' block_size) (\<lambda>_.
      Inr \<lparr>er_id = eid, er_name = name, er_block_size = block_size, er_engine_kind = kind,
           er_state = state, er_head = head, er_created_at = created, er_updated_at = updated,
           er_deleted_at = deleted\<rparr>)"

definition into_record :: "export_descriptor \<Rightarrow> export_head \<Rightarrow> (catalog_error, export_record) result" where
  "into_record d head =
    new_export_record (ed_id d) (ed_name d) (ed_block_size d) (ed_engine_kind d) (ed_state d) head
      (ed_created_at d) (ed_updated_at d) (ed_deleted_at d)"

definition new_active_descriptor ::
  "export_descriptor \<Rightarrow> (catalog_error, export_descriptor) result" where
  "new_active_descriptor d =
    (if ed_state d \<noteq> Active then Inl (ExportDeleted (ed_name d)) else Inr d)"

record create_export_request =
  ce_name :: export_name
  ce_size_bytes :: nat
  ce_block_size :: nat
  ce_engine_kind :: export_engine_kind

definition new_create_export ::
  "export_name \<Rightarrow> nat \<Rightarrow> nat \<Rightarrow> export_engine_kind \<Rightarrow> (catalog_error, create_export_request) result" where
  "new_create_export name size_bytes block_size kind =
    and_then (validate_non_zero ''size_bytes'' size_bytes) (\<lambda>_.
      and_then (validate_non_zero ''block_size'' block_size) (\<lambda>_.
        Inr \<lparr>ce_name = name, ce_size_bytes = size_bytes, ce_block_size = block_size,
             ce_engine_kind = kind\<rparr>))"

record clone_export_request =
  cl_source :: export_name
  cl_destination :: export_name

definition new_clone_export ::
  "export_name \<Rightarrow> export_name \<Rightarrow> (catalog_error, clone_export_request) result" where
  "new_clone_export source destination =
    (if source = destination then Inl (InvalidField ''destination'')
     else Inr \<lparr>cl_source = source, cl_destination = destination\<rparr>)"

section \<open>Tree records\<close>

definition TREE_CHUNK_BYTES :: nat where "TREE_CHUNK_BYTES = 32 * 1024 * 1024"
definition SIMPLE_CHUNK_BYTES :: nat where "SIMPLE_CHUNK_BYTES = TREE_CHUNK_BYTES"

record chunk_ref =
  cr_chunk_index :: chunk_index
  cr_blob_key :: blob_key
  cr_len_bytes :: nat

definition new_simple_chunk_ref ::
  "chunk_index \<Rightarrow> blob_key \<Rightarrow> nat \<Rightarrow> (catalog_error, chunk_ref) result" where
  "new_simple_chunk_ref index key len =
    (if len \<noteq> SIMPLE_CHUNK_BYTES then Inl (InvalidField ''len_bytes'')
     else Inr \<lparr>cr_chunk_index = index, cr_blob_key = key, cr_len_bytes = len\<rparr>)"

definition new_cow_chunk_ref ::
  "chunk_index \<Rightarrow> blob_key \<Rightarrow> nat \<Rightarrow> (catalog_error, chunk_ref) result" where
  "new_cow_chunk_ref index key len =
    (if len \<noteq> TREE_CHUNK_BYTES then Inl (InvalidField ''len_bytes'')
     else Inr \<lparr>cr_chunk_index = index, cr_blob_key = key, cr_len_bytes = len\<rparr>)"

record tree_node_record =
  tn_id :: node_id
  tn_layout_kind :: export_layout_kind
  tn_owner_export_id :: "export_id option"
  tn_kind :: tree_node_kind
  tn_level :: nat
  tn_span_start_bytes :: nat
  tn_span_len_bytes :: nat

record tree_edge_record =
  te_parent_node_id :: node_id
  te_slot :: nat
  te_child_node_id :: node_id

record tree_leaf_ref_record =
  tl_node_id :: node_id
  tl_storage_kind :: tree_storage_kind
  tl_storage_key :: blob_key
  tl_len_bytes :: nat

record tree_record_batch =
  tb_nodes :: "tree_node_record list"
  tb_edges :: "tree_edge_record list"
  tb_leaf_refs :: "tree_leaf_ref_record list"

definition empty_batch :: tree_record_batch where
  "empty_batch = \<lparr>tb_nodes = [], tb_edges = [], tb_leaf_refs = []\<rparr>"

definition batch_is_empty :: "tree_record_batch \<Rightarrow> bool" where
  "batch_is_empty b \<longleftrightarrow> tb_nodes b = [] \<and> tb_edges b = [] \<and> tb_leaf_refs b = []"

record tree_edge_lookup =
  tel_parent_node_id :: node_id
  tel_slots :: "nat list"

record publish_tree_update_request =
  pu_export_id :: export_id
  pu_expected_head :: export_head
  pu_next_head :: export_head
  pu_records :: tree_record_batch

datatype publish_outcome = Published export_record | StaleHead export_record

fun outcome_record :: "publish_outcome \<Rightarrow> export_record" where
  "outcome_record (Published r) = r"
| "outcome_record (StaleHead r) = r"

section \<open>Lemmas\<close>

lemma validate_non_zero_iff [simp]:
  "validate_non_zero f v = Inr u \<longleftrightarrow> v \<noteq> 0"
  "and_then (validate_non_zero f v) k = (if v = 0 then Inl (InvalidField f) else k ())"
  by (simp_all add: validate_non_zero_def)

lemma non_empty_string_Inr_iff [simp]:
  "non_empty_string f v = Inr w \<longleftrightarrow> w = v \<and> v \<noteq> [] \<and> NUL \<notin> set v"
  by (auto simp: non_empty_string_def)

lemma new_export_name_Inr_iff [simp]:
  "new_export_name v = Inr w \<longleftrightarrow> w = v \<and> v \<noteq> [] \<and> NUL \<notin> set v"
  by (auto simp: new_export_name_def)

lemma new_blob_key_Inr_iff:
  "new_blob_key v = Inr w \<longleftrightarrow> w = v \<and> v \<notin> {[], ''.'', ''..''} \<and>
    set v \<inter> {NUL, CHR ''/'', CHR 0x5C} = {}"
  by (auto simp: new_blob_key_def)

interpretation state_text: codec "\<lambda>k. Inr (export_state_text k)" parse_export_state "\<lambda>_. True"
  by (unfold_locales, rename_tac s k, case_tac k) (auto simp: parse_export_state_def split: if_splits)

interpretation engine_text: codec "\<lambda>k. Inr (engine_kind_text k)" parse_engine_kind "\<lambda>_. True"
  by (unfold_locales, rename_tac s k, case_tac k) (auto simp: parse_engine_kind_def split: if_splits)

interpretation layout_text: codec "\<lambda>k. Inr (layout_kind_text k)" parse_layout_kind "\<lambda>_. True"
  by (unfold_locales, rename_tac s k, case_tac k) (auto simp: parse_layout_kind_def split: if_splits)

interpretation format_text: codec "\<lambda>k. Inr (tree_format_text k)" parse_tree_format "\<lambda>_. True"
  by (unfold_locales, rename_tac s k, case_tac k) (auto simp: parse_tree_format_def split: if_splits)

interpretation node_kind_codec: codec "\<lambda>k. Inr (node_kind_text k)" parse_node_kind "\<lambda>_. True"
  by (unfold_locales, rename_tac s k, case_tac k) (auto simp: parse_node_kind_def split: if_splits)

interpretation storage_kind_codec: codec "\<lambda>k. Inr (storage_kind_text k)" parse_storage_kind "\<lambda>_. True"
  by (unfold_locales, rename_tac s k, case_tac k) (auto simp: parse_storage_kind_def split: if_splits)

lemmas head_ctor_defs = new_head_with_tree_format_def memory_empty_with_base_def
  simple_mutable_tree_with_root_base_and_format_def cow_immutable_tree_with_root_and_format_def

lemma new_head_with_tree_format_Inr_iff:
  "new_head_with_tree_format kind root n base fmt = Inr h \<longleftrightarrow>
    n \<noteq> 0 \<and> head_layout_kind h = kind \<and> head_root_node_id h = root \<and> head_size_bytes h = n \<and>
    head_base_wal_seq h = base \<and>
    head_tree_format h = (if kind = MemoryEmpty then fmt
      else Some (case fmt of None \<Rightarrow> default_tree_format | Some f \<Rightarrow> f))"
  by (cases h; cases kind) (auto simp: head_ctor_defs split: option.splits)

section \<open>Properties\<close>


end
