(* ===== verification/Server_Error.thy ===== *)
theory Server_Error
  imports Wire Catalog_Types
begin

text \<open>
  The server's error type and the severity its request failures are logged with, from
  \<open>nbd-server/src/error.rs\<close>. Rendered message texts are not modelled: an error carries
  its constructor, its static context and the values its variant stores.
\<close>

datatype server_error =
    ExportTooLarge export_name nat nat
  | ExportBusy export_name
  | ExportOwnerMismatch export_name
  | OutOfBounds string nat nat nat
  | LockPoisoned string
  | RuntimeClosed string
  | BlobAlreadyExists string blob_key
  | Io string
  | Protocol protocol_error
  | Catalog "catalog_error option"
  | Wal string

datatype failure_log_level = DebugLevel | WarnLevel

fun request_failure_log_level :: "server_error \<Rightarrow> failure_log_level" where
  "request_failure_log_level (OutOfBounds _ _ _ _) = DebugLevel"
| "request_failure_log_level (Protocol _) = DebugLevel"
| "request_failure_log_level _ = WarnLevel"

definition catalog_err :: "catalog_error \<Rightarrow> server_error" where
  "catalog_err e = Catalog (Some e)"

end
