(* ===== verification/Byte_Range.thy ===== *)
theory Byte_Range
  imports Prelude
begin

text \<open>
  Logical byte ranges, from \<open>nbd-server/src/range.rs\<close>. The start is a \<open>u64\<close> and the
  length a \<open>u32\<close>, so the exact end may leave the range of \<open>u64\<close>: \<open>checked_end\<close>
  reports that and \<open>range_end\<close> saturates. The last section relates \<open>overlaps\<close> to the
  sets of bytes the ranges cover.
\<close>

record byte_range =
  br_start :: nat
  br_len :: nat

definition new_range :: "nat \<Rightarrow> nat \<Rightarrow> byte_range" where
  "new_range start len = \<lparr>br_start = start, br_len = len\<rparr>"

definition range_is_empty :: "byte_range \<Rightarrow> bool" where
  "range_is_empty r \<longleftrightarrow> br_len r = 0"

definition checked_end :: "byte_range \<Rightarrow> nat option" where
  "checked_end r = checked_add (br_start r) (br_len r)"

definition range_end :: "byte_range \<Rightarrow> nat" where
  "range_end r = saturating_add (br_start r) (br_len r)"

definition overlaps :: "byte_range \<Rightarrow> byte_range \<Rightarrow> bool" where
  "overlaps r s \<longleftrightarrow> br_start r < range_end s \<and> br_start s < range_end r"

definition range_bytes :: "byte_range \<Rightarrow> nat set" where
  "range_bytes r = {br_start r ..< br_start r + br_len r}"

lemma new_range_sel [simp]:
  "br_start (new_range a b) = a" "br_len (new_range a b) = b"
  by (simp_all add: new_range_def)

lemma new_range_eta [simp]: "new_range (br_start r) (br_len r) = r"
  by (simp add: new_range_def)

lemma checked_end_Some_iff [checked_arith]:
  "checked_end r = Some e \<longleftrightarrow> e = br_start r + br_len r \<and> e \<le> u64_max"
  by (auto simp: checked_end_def checked_arith)

lemma checked_end_None_iff [checked_arith]:
  "checked_end r = None \<longleftrightarrow> u64_max < br_start r + br_len r"
  by (simp add: checked_end_def checked_arith)

lemma checked_end_range_end: "checked_end r = Some e \<Longrightarrow> range_end r = e"
  by (simp add: checked_arith range_end_def saturating_add_def)

lemma overlaps_commute: "overlaps r s \<longleftrightarrow> overlaps s r"
  by (auto simp: overlaps_def)

lemma overlaps_iff_common_byte:
  assumes "checked_end r \<noteq> None" "checked_end s \<noteq> None"
    and "\<not> range_is_empty r" "\<not> range_is_empty s"
  shows "overlaps r s \<longleftrightarrow> range_bytes r \<inter> range_bytes s \<noteq> {}"
proof -
  have *: "range_end r = br_start r + br_len r" "range_end s = br_start s + br_len s"
    using assms by (auto simp: checked_arith range_end_def saturating_add_def)
  show ?thesis
  proof
    assume "overlaps r s"
    then have "max (br_start r) (br_start s) \<in> range_bytes r \<inter> range_bytes s"
      using assms * by (auto simp: overlaps_def range_bytes_def range_is_empty_def)
    then show "range_bytes r \<inter> range_bytes s \<noteq> {}" by blast
  qed (use * in \<open>auto simp: overlaps_def range_bytes_def\<close>)
qed

lemma not_overlaps_disjoint:
  assumes "checked_end r \<noteq> None" "checked_end s \<noteq> None" "\<not> overlaps r s"
  shows "range_bytes r \<inter> range_bytes s = {}"
proof -
  have "range_end r = br_start r + br_len r" "range_end s = br_start s + br_len s"
    using assms by (auto simp: checked_arith range_end_def saturating_add_def)
  then show ?thesis using assms(3) by (auto simp: overlaps_def range_bytes_def)
qed

section \<open>Properties\<close>

text \<open>
  C23. Two ranges overlap exactly when they share a byte, for non-empty ranges whose end is a
  64-bit number: no conflict between requests is missed and none is invented.
\<close>

theorem overlaps_common_byte:
  assumes "checked_end r \<noteq> None" "checked_end s \<noteq> None"
    and "\<not> range_is_empty r" "\<not> range_is_empty s"
  shows "overlaps r s \<longleftrightarrow> (\<exists>x. x \<in> range_bytes r \<and> x \<in> range_bytes s)"
  using overlaps_iff_common_byte [OF assms] by blast

theorem overlaps_common_byte_witness:
  "overlaps (new_range 0 10) (new_range 9 5) \<and>
    (\<exists>x. x \<in> range_bytes (new_range 0 10) \<and> x \<in> range_bytes (new_range 9 5))"
  using overlaps_common_byte [of "new_range 0 10" "new_range 9 5"]
  by (simp add: checked_end_def checked_add_def u64_max_def range_is_empty_def overlaps_def
      range_end_def saturating_add_def)

end
