(* ===== verification/Wal_Codec.thy ===== *)
theory Wal_Codec
  imports Server_Error Byte_Range
begin

text \<open>
  Write-ahead log records and their on-disk frames, from \<open>nbd-server/src/wal/{mod,codec,
  replay}.rs\<close>. The CRC-32C of the \<open>crc\<close> crate is the parameter \<open>crc\<close>, a function
  of the bytes fed to the digest; feeding a digest twice is feeding the concatenation.
  The lemmas show that a frame decodes to its record whatever surrounds it, and that
  every proper prefix of a frame at the end of a file is recognised as a torn write.
\<close>

section \<open>Requests, records and bounds\<close>

record wal_request =
  wq_range :: byte_range
  wq_data :: bytes

record wal_record =
  wrec_seq :: wal_seq
  wrec_range :: byte_range
  wrec_data :: bytes

record wal_bounds =
  pruned_through :: wal_seq
  last_durable :: wal_seq

record wal_prune_result =
  pr_requested_through :: wal_seq
  pr_pruned_through :: wal_seq
  pr_removed_segments :: nat

definition new_wal_request :: "byte_range \<Rightarrow> bytes \<Rightarrow> (server_error, wal_request) result" where
  "new_wal_request rng data =
    (if data = [] then Inl (Wal ''create WAL request'')
     else if length data \<noteq> br_len rng then Inl (Wal ''create WAL request'')
     else Inr \<lparr>wq_range = rng, wq_data = data\<rparr>)"

definition record_from_request :: "wal_seq \<Rightarrow> wal_request \<Rightarrow> (server_error, wal_record) result" where
  "record_from_request seq req =
    (if seq = 0 then Inl (Wal ''create WAL record'')
     else Inr \<lparr>wrec_seq = seq, wrec_range = wq_range req, wrec_data = wq_data req\<rparr>)"

definition new_wal_record ::
  "wal_seq \<Rightarrow> byte_range \<Rightarrow> bytes \<Rightarrow> (server_error, wal_record) result" where
  "new_wal_record seq rng data =
    and_then (new_wal_request rng data) (\<lambda>req. record_from_request seq req)"

definition new_wal_bounds :: "wal_seq \<Rightarrow> wal_seq \<Rightarrow> (server_error, wal_bounds) result" where
  "new_wal_bounds pruned durable =
    (if pruned > durable then Inl (Wal ''create WAL bounds'')
     else Inr \<lparr>pruned_through = pruned, last_durable = durable\<rparr>)"

definition empty_wal_bounds :: wal_bounds where
  "empty_wal_bounds = \<lparr>pruned_through = 0, last_durable = 0\<rparr>"

section \<open>Replay\<close>

fun replay_ordered :: "wal_seq \<Rightarrow> wal_record list \<Rightarrow> bool" where
  "replay_ordered previous [] = True"
| "replay_ordered previous (r # rs) =
    (if wrec_seq r \<le> previous then False else replay_ordered (wrec_seq r) rs)"

definition replay_from_records ::
  "wal_record list \<Rightarrow> (server_error, wal_record list) result" where
  "replay_from_records records =
    (if replay_ordered 0 records then Inr records else Inl (Wal ''create WAL replay''))"

fun next_record :: "wal_record list \<Rightarrow> wal_record option \<times> wal_record list" where
  "next_record [] = (None, [])"
| "next_record (r # rs) = (Some r, rs)"

section \<open>Segment headers\<close>

definition ascii :: "string \<Rightarrow> bytes" where
  "ascii s = map (\<lambda>c. of_nat (of_char c)) s"

definition SEGMENT_MAGIC :: bytes where "SEGMENT_MAGIC = ascii ''NBDWALSG''"
definition RECORD_MAGIC :: bytes where "RECORD_MAGIC = ascii ''NBDWALRC''"
definition WAL_FORMAT_VERSION :: nat where "WAL_FORMAT_VERSION = 1"
definition SEGMENT_HEADER_LEN :: nat where "SEGMENT_HEADER_LEN = 24"
definition RECORD_KIND_WRITE :: nat where "RECORD_KIND_WRITE = 1"
definition RECORD_HEADER_LEN :: nat where "RECORD_HEADER_LEN = 40"
definition RECORD_CRC_OFFSET :: nat where "RECORD_CRC_OFFSET = 36"

definition u16_at :: "bytes \<Rightarrow> nat \<Rightarrow> nat" where "u16_at data off = le_value (slice data off 2)"
definition u32_at :: "bytes \<Rightarrow> nat \<Rightarrow> nat" where "u32_at data off = le_value (slice data off 4)"
definition u64_at :: "bytes \<Rightarrow> nat \<Rightarrow> nat" where "u64_at data off = le_value (slice data off 8)"

definition encode_segment_header :: "(bytes \<Rightarrow> u32) \<Rightarrow> wal_seq \<Rightarrow> bytes" where
  "encode_segment_header crc first_seq =
    (let header = SEGMENT_MAGIC @ le_bytes 2 WAL_FORMAT_VERSION @ le_bytes 2 SEGMENT_HEADER_LEN @
                  le_bytes 8 first_seq;
         checksum = crc header
     in header @ le_bytes 4 (unat checksum))"

definition decode_segment_header ::
  "(bytes \<Rightarrow> u32) \<Rightarrow> bytes \<Rightarrow> (server_error, wal_seq) result" where
  "decode_segment_header crc data =
    (if length data < SEGMENT_HEADER_LEN then Inl (Wal ''read WAL segment header'')
     else if slice data 0 8 \<noteq> SEGMENT_MAGIC then Inl (Wal ''read WAL segment header'')
     else if u16_at data 8 \<noteq> WAL_FORMAT_VERSION then Inl (Wal ''read WAL segment header'')
     else if u16_at data 10 \<noteq> SEGMENT_HEADER_LEN then Inl (Wal ''read WAL segment header'')
     else let expected = u32_at data 20; actual = crc (take 20 data) in
       if expected \<noteq> unat actual then Inl (Wal ''read WAL segment header'')
       else Inr (u64_at data 12))"

section \<open>Record frames\<close>

datatype record_decode_error_kind =
    PartialHeader
  | PartialPayload
  | ChecksumMismatch nat
  | Corrupt

record record_decode_error =
  rde_kind :: record_decode_error_kind
  rde_error :: server_error

definition partial_header :: record_decode_error where
  "partial_header = \<lparr>rde_kind = PartialHeader, rde_error = Wal ''read WAL record''\<rparr>"

definition partial_payload :: record_decode_error where
  "partial_payload = \<lparr>rde_kind = PartialPayload, rde_error = Wal ''read WAL record''\<rparr>"

definition checksum_mismatch :: "nat \<Rightarrow> record_decode_error" where
  "checksum_mismatch next_offset =
    \<lparr>rde_kind = ChecksumMismatch next_offset, rde_error = Wal ''read WAL record''\<rparr>"

definition corrupt :: "server_error \<Rightarrow> record_decode_error" where
  "corrupt e = \<lparr>rde_kind = Corrupt, rde_error = e\<rparr>"

fun repair_offset_kind :: "record_decode_error_kind \<Rightarrow> nat \<Rightarrow> nat \<Rightarrow> nat option" where
  "repair_offset_kind PartialHeader data_len offset = Some offset"
| "repair_offset_kind PartialPayload data_len offset = Some offset"
| "repair_offset_kind (ChecksumMismatch next_offset) data_len offset =
    (if next_offset = data_len then Some offset else None)"
| "repair_offset_kind Corrupt data_len offset = None"

definition repair_offset :: "record_decode_error \<Rightarrow> nat \<Rightarrow> nat \<Rightarrow> nat option" where
  "repair_offset e data_len offset = repair_offset_kind (rde_kind e) data_len offset"

definition record_header_fields :: "wal_record \<Rightarrow> bytes" where
  "record_header_fields r =
    RECORD_MAGIC @ le_bytes 2 WAL_FORMAT_VERSION @ le_bytes 2 RECORD_HEADER_LEN @
    le_bytes 2 RECORD_KIND_WRITE @ le_bytes 2 0 @ le_bytes 8 (wrec_seq r) @
    le_bytes 8 (br_start (wrec_range r)) @ le_bytes 4 (length (wrec_data r))"

definition encode_record :: "(bytes \<Rightarrow> u32) \<Rightarrow> wal_record \<Rightarrow> bytes" where
  "encode_record crc r =
    (let header = record_header_fields r;
         checksum = crc (header @ wrec_data r)
     in header @ le_bytes 4 (unat checksum) @ wrec_data r)"

definition decode_record_at ::
  "(bytes \<Rightarrow> u32) \<Rightarrow> bytes \<Rightarrow> nat \<Rightarrow> (record_decode_error, wal_record \<times> nat) result" where
  "decode_record_at crc data offset =
    (if length data - offset < RECORD_HEADER_LEN then Inl partial_header
     else
       let header = slice data offset RECORD_HEADER_LEN in
       if slice header 0 8 \<noteq> RECORD_MAGIC then Inl (corrupt (Wal ''read WAL record''))
       else if u16_at header 8 \<noteq> WAL_FORMAT_VERSION then Inl (corrupt (Wal ''read WAL record''))
       else if u16_at header 10 \<noteq> RECORD_HEADER_LEN then Inl (corrupt (Wal ''read WAL record''))
       else if u16_at header 12 \<noteq> RECORD_KIND_WRITE then Inl (corrupt (Wal ''read WAL record''))
       else
         let seq = u64_at header 16; start = u64_at header 24; data_len = u32_at header 32 in
         and_then (ok_or (corrupt (Wal ''read WAL record''))
           (case checked_add offset RECORD_HEADER_LEN of
              None \<Rightarrow> None | Some v \<Rightarrow> checked_add v data_len)) (\<lambda>next_offset.
           if next_offset > length data then Inl partial_payload
           else
             let payload = slice data (offset + RECORD_HEADER_LEN)
                   (next_offset - (offset + RECORD_HEADER_LEN));
                 actual = crc (take RECORD_CRC_OFFSET header @ payload);
                 expected = u32_at header RECORD_CRC_OFFSET
             in if expected \<noteq> unat actual then Inl (checksum_mismatch next_offset)
                else and_then
                  (map_err corrupt (new_wal_record seq (new_range start data_len) payload))
                  (\<lambda>record. Inr (record, next_offset))))"

section \<open>Lemmas: records and replay\<close>

definition wf_record :: "wal_record \<Rightarrow> bool" where
  "wf_record r \<longleftrightarrow> 0 < wrec_seq r \<and> wrec_seq r \<le> u64_max \<and> br_start (wrec_range r) \<le> u64_max \<and>
    wrec_data r \<noteq> [] \<and> length (wrec_data r) = br_len (wrec_range r) \<and>
    length (wrec_data r) \<le> u32_max"

lemma new_wal_request_Inr_iff:
  "new_wal_request rng data = Inr q \<longleftrightarrow>
    data \<noteq> [] \<and> length data = br_len rng \<and> q = \<lparr>wq_range = rng, wq_data = data\<rparr>"
  by (auto simp: new_wal_request_def)

lemma new_wal_record_Inr_iff:
  "new_wal_record seq rng data = Inr r \<longleftrightarrow>
    data \<noteq> [] \<and> length data = br_len rng \<and> seq \<noteq> 0 \<and>
    r = \<lparr>wrec_seq = seq, wrec_range = rng, wrec_data = data\<rparr>"
  by (auto simp: new_wal_record_def and_then_Inr_iff new_wal_request_Inr_iff
      record_from_request_def)

lemma replay_ordered_iff:
  "replay_ordered p rs \<longleftrightarrow> sorted_wrt (<) (p # map wrec_seq rs)"
proof (induction rs arbitrary: p)
  case (Cons r rs)
  then show ?case by (auto intro: less_trans)
qed simp

section \<open>Lemmas: frames\<close>

lemma slice_append_skip:
  "length xs \<le> off \<Longrightarrow> slice (xs @ ys) off n = slice ys (off - length xs) n"
  by (simp add: slice_def)

lemma slice_append_take: "length xs = n \<Longrightarrow> slice (xs @ ys) 0 n = xs"
  by (simp add: slice_def)

lemma slice_all: "length xs = n \<Longrightarrow> slice xs 0 n = xs"
  by (simp add: slice_def)

lemmas field_simps_at = slice_append_skip slice_append_take slice_all u16_at_def u32_at_def u64_at_def

lemma length_magic [simp]: "length SEGMENT_MAGIC = 8" "length RECORD_MAGIC = 8"
  by (simp_all add: SEGMENT_MAGIC_def RECORD_MAGIC_def ascii_def)

lemma le_value_le_bytes_id: "k < 256 ^ n \<Longrightarrow> le_value (le_bytes n k) = k"
  by (simp add: le_value_le_bytes)

lemma length_segment_header [simp]: "length (encode_segment_header crc s) = SEGMENT_HEADER_LEN"
  by (simp add: encode_segment_header_def SEGMENT_HEADER_LEN_def)

lemma decode_encode_segment_header:
  assumes "s \<le> u64_max"
  shows "decode_segment_header crc (encode_segment_header crc s @ rest) = Inr s"
proof -
  have "unat (crc bs) < 2 ^ LENGTH(32)" for bs by (rule unsigned_less)
  then have "le_value (le_bytes 4 (unat (crc bs))) = unat (crc bs)" for bs
    by (simp add: le_value_le_bytes)
  moreover have "le_value (le_bytes 8 s) = s"
    using assms by (simp add: le_value_le_bytes u64_max_def)
  ultimately show ?thesis
    by (simp add: decode_segment_header_def encode_segment_header_def field_simps_at
        SEGMENT_HEADER_LEN_def WAL_FORMAT_VERSION_def le_value_le_bytes del: le_bytes.simps)
qed

lemma length_record_header_fields [simp]: "length (record_header_fields r) = 36"
  by (simp add: record_header_fields_def)

lemma length_encode_record [simp]:
  "length (encode_record crc r) = RECORD_HEADER_LEN + length (wrec_data r)"
  by (simp add: encode_record_def Let_def RECORD_HEADER_LEN_def)

definition frame_header :: "(bytes \<Rightarrow> u32) \<Rightarrow> wal_record \<Rightarrow> bytes" where
  "frame_header crc r =
    record_header_fields r @ le_bytes 4 (unat (crc (record_header_fields r @ wrec_data r)))"

lemma encode_record_eq: "encode_record crc r = frame_header crc r @ wrec_data r"
  by (simp add: encode_record_def frame_header_def Let_def)

lemma length_frame_header [simp]: "length (frame_header crc r) = RECORD_HEADER_LEN"
  by (simp add: frame_header_def RECORD_HEADER_LEN_def)

lemma frame_header_fields:
  assumes "wf_record r"
  shows "slice (frame_header crc r) 0 8 = RECORD_MAGIC"
    "u16_at (frame_header crc r) 8 = WAL_FORMAT_VERSION"
    "u16_at (frame_header crc r) 10 = RECORD_HEADER_LEN"
    "u16_at (frame_header crc r) 12 = RECORD_KIND_WRITE"
    "u64_at (frame_header crc r) 16 = wrec_seq r"
    "u64_at (frame_header crc r) 24 = br_start (wrec_range r)"
    "u32_at (frame_header crc r) 32 = length (wrec_data r)"
    "u32_at (frame_header crc r) RECORD_CRC_OFFSET =
      unat (crc (record_header_fields r @ wrec_data r))"
    "take RECORD_CRC_OFFSET (frame_header crc r) = record_header_fields r"
proof -
  have *: "unat (crc bs) < 2 ^ LENGTH(32)" for bs by (rule unsigned_less)
  show "take RECORD_CRC_OFFSET (frame_header crc r) = record_header_fields r"
    by (simp add: frame_header_def RECORD_CRC_OFFSET_def)
  show "u32_at (frame_header crc r) RECORD_CRC_OFFSET =
      unat (crc (record_header_fields r @ wrec_data r))"
    using * by (simp add: frame_header_def RECORD_CRC_OFFSET_def field_simps_at le_value_le_bytes
        del: le_bytes.simps)
qed (use assms in \<open>simp_all add: wf_record_def frame_header_def record_header_fields_def field_simps_at
      le_value_le_bytes WAL_FORMAT_VERSION_def RECORD_HEADER_LEN_def RECORD_KIND_WRITE_def
      u64_max_def u32_max_def del: le_bytes.simps\<close>)

lemma decode_record_with_header:
  assumes "wf_record r" "length data \<le> u64_max"
    and "length data - offset \<ge> RECORD_HEADER_LEN" "offset \<le> length data"
    and "slice data offset RECORD_HEADER_LEN = frame_header crc r"
  shows "decode_record_at crc data offset =
    (let next_offset = offset + RECORD_HEADER_LEN + length (wrec_data r) in
     if next_offset > u64_max then Inl (corrupt (Wal ''read WAL record''))
     else if next_offset > length data then Inl partial_payload
     else let payload = slice data (offset + RECORD_HEADER_LEN) (length (wrec_data r)) in
       if unat (crc (record_header_fields r @ wrec_data r)) \<noteq> unat (crc (record_header_fields r @ payload))
       then Inl (checksum_mismatch next_offset)
       else and_then (map_err corrupt (new_wal_record (wrec_seq r)
             (new_range (br_start (wrec_range r)) (length (wrec_data r))) payload))
           (\<lambda>record. Inr (record, next_offset)))"
proof -
  have "offset + RECORD_HEADER_LEN \<le> u64_max" using assms by linarith
  then show ?thesis
    using assms(3)
    by (simp add: decode_record_at_def assms(5) frame_header_fields [OF assms(1)] Let_def
        checked_add_def)
qed

lemma decode_encode_record:
  assumes "wf_record r" "length (pre @ encode_record crc r @ post) \<le> u64_max"
  shows "decode_record_at crc (pre @ encode_record crc r @ post) (length pre) =
    Inr (r, length pre + length (encode_record crc r))"
proof -
  let ?data = "pre @ encode_record crc r @ post"
  have "slice ?data (length pre) RECORD_HEADER_LEN = frame_header crc r"
    by (simp add: encode_record_eq slice_append_skip slice_append_take)
  moreover have "slice ?data (length pre + RECORD_HEADER_LEN) (length (wrec_data r)) = wrec_data r"
    by (simp add: encode_record_eq slice_append_skip slice_append_take)
  moreover have "new_range (br_start (wrec_range r)) (length (wrec_data r)) = wrec_range r"
    using assms(1) by (simp add: wf_record_def)
  moreover have "new_wal_record (wrec_seq r) (wrec_range r) (wrec_data r) = Inr r"
    using assms(1) by (simp add: new_wal_record_Inr_iff wf_record_def)
  ultimately show ?thesis
    using assms by (simp add: decode_record_with_header Let_def)
qed

text \<open>A torn write: a proper prefix of a frame at the end of the file.\<close>

lemma decode_torn_record:
  assumes "wf_record r" "k < length (encode_record crc r)"
    and "length (pre @ encode_record crc r) \<le> u64_max"
  shows "decode_record_at crc (pre @ take k (encode_record crc r)) (length pre) =
    Inl (if k < RECORD_HEADER_LEN then partial_header else partial_payload)"
proof (cases "k < RECORD_HEADER_LEN")
  case True
  then show ?thesis by (simp add: decode_record_at_def)
next
  case False
  let ?data = "pre @ take k (encode_record crc r)"
  have "slice ?data (length pre) RECORD_HEADER_LEN = frame_header crc r"
    using False by (simp add: encode_record_eq slice_append_skip slice_append_take)
  then show ?thesis
    using assms False by (simp add: decode_record_with_header Let_def)
qed

lemma decode_record_sound:
  assumes "decode_record_at crc data offset = Inr (r, nxt)" "offset \<le> length data"
  shows "wf_record r" "nxt = offset + RECORD_HEADER_LEN + length (wrec_data r)" "nxt \<le> length data"
    "slice data (offset + RECORD_HEADER_LEN) (length (wrec_data r)) = wrec_data r"
proof -
  let ?header = "slice data offset RECORD_HEADER_LEN"
  let ?n = "u32_at ?header 32"
  let ?payload = "slice data (offset + RECORD_HEADER_LEN) ?n"
  have *: "new_wal_record (u64_at ?header 16) (new_range (u64_at ?header 24) ?n) ?payload = Inr r"
    "nxt = offset + RECORD_HEADER_LEN + ?n" "nxt \<le> length data"
    using assms by (auto simp: decode_record_at_def Let_def checked_add_def
        elim!: and_thenE split: if_split_asm option.split_asm)
  have len: "length ?payload = ?n"
    using *(2,3) by (simp add: length_slice)
  have "length (slice ?header a b) \<le> b" for a b by (simp add: slice_def)
  then have "256 ^ length (slice ?header a b) \<le> (256 :: nat) ^ b" for a b
    by (simp add: power_increasing)
  then have "le_value (slice ?header a b) < 256 ^ b" for a b
    using le_value_less [of "slice ?header a b"] by (rule order.strict_trans2 [rotated])
  from this [of 16 8] this [of 24 8] this [of 32 4] * len
  show "wf_record r" "nxt = offset + RECORD_HEADER_LEN + length (wrec_data r)" "nxt \<le> length data"
    "slice data (offset + RECORD_HEADER_LEN) (length (wrec_data r)) = wrec_data r"
    by (auto simp: new_wal_record_Inr_iff wf_record_def u64_at_def u32_at_def u64_max_def u32_max_def)
qed

lemma repair_offset_torn [simp]:
  "repair_offset partial_header n off = Some off" "repair_offset partial_payload n off = Some off"
  by (simp_all add: repair_offset_def partial_header_def partial_payload_def)

section \<open>Properties\<close>

text \<open>
  C15. A record written anywhere in a segment is read back: decoding at the position of an
  encoded record returns that record and the position after it, whatever surrounds it and
  whatever the checksum function is.
\<close>

theorem record_frame_roundtrip:
  assumes "wf_record r" "length (pre @ encode_record crc r @ post) \<le> u64_max"
  shows "decode_record_at crc (pre @ encode_record crc r @ post) (length pre) =
    Inr (r, length (pre @ encode_record crc r))"
  using decode_encode_record [OF assms] by simp

theorem record_frame_roundtrip_witness:
  "decode_record_at (\<lambda>bs. of_nat (length bs))
      ([1, 2] @ encode_record (\<lambda>bs. of_nat (length bs))
        \<lparr>wrec_seq = 3, wrec_range = new_range 4096 2, wrec_data = [8, 9]\<rparr> @ [5]) 2 =
    Inr (\<lparr>wrec_seq = 3, wrec_range = new_range 4096 2, wrec_data = [8, 9]\<rparr>, 44)"
  using record_frame_roundtrip [of "\<lparr>wrec_seq = 3, wrec_range = new_range 4096 2, wrec_data = [8, 9]\<rparr>"
      "[1, 2]" "\<lambda>bs. of_nat (length bs)" "[5]"]
  by (simp add: wf_record_def u64_max_def u32_max_def RECORD_HEADER_LEN_def numeral_2_eq_2)

end
