(* ===== verification/Wal_Local.thy ===== *)
theory Wal_Local
  imports Wal_Codec "HOL-Library.AList"
begin

text \<open>
  The local write-ahead log, from \<open>nbd-server/src/wal/local.rs\<close>: segment files in a
  directory, scanning with repair of a torn tail, append, replay and prune. The
  directory is a list of named files in the order \<open>read_dir\<close> yields them. Every I/O
  call can fail: \<open>io_fails\<close> says which call (by its error context) fails on which file,
  and \<open>io_written\<close> how many bytes of a failing write reach the file. The scan loop
  terminates because every decoded frame is at least a header long.
\<close>

unbundle bit_operations_syntax

section \<open>Files and I/O\<close>

type_synonym wal_dir = "(string \<times> bytes) list"

record io_env =
  io_fails :: "string \<Rightarrow> string \<Rightarrow> bool"
  io_written :: nat

definition io_ok :: io_env where
  "io_ok = \<lparr>io_fails = (\<lambda>_ _. False), io_written = 0\<rparr>"

definition io_step :: "io_env \<Rightarrow> string \<Rightarrow> string \<Rightarrow> (server_error, unit) result" where
  "io_step io ctx name = (if io_fails io ctx name then Inl (Io ctx) else Inr ())"

definition file_bytes :: "wal_dir \<Rightarrow> string \<Rightarrow> bytes option" where
  "file_bytes dir name = map_of dir name"

definition put_file :: "wal_dir \<Rightarrow> string \<Rightarrow> bytes \<Rightarrow> wal_dir" where
  "put_file dir name bs = AList.update name bs dir"

definition drop_file :: "wal_dir \<Rightarrow> string \<Rightarrow> wal_dir" where
  "drop_file dir name = AList.delete name dir"

section \<open>Segment names\<close>

definition digit_char :: "nat \<Rightarrow> char" where
  "digit_char d = char_of (48 + d)"

fun dec_digits :: "nat \<Rightarrow> string" where
  "dec_digits n = (if n < 10 then [digit_char n] else dec_digits (n div 10) @ [digit_char (n mod 10)])"

definition pad16 :: "string \<Rightarrow> string" where
  "pad16 s = replicate (16 - length s) (CHR ''0'') @ s"

definition segment_path :: "wal_seq \<Rightarrow> string" where
  "segment_path first_seq = pad16 (dec_digits first_seq) @ ''.wal''"

definition is_digit :: "char \<Rightarrow> bool" where
  "is_digit c \<longleftrightarrow> 48 \<le> (of_char c :: nat) \<and> (of_char c :: nat) \<le> 57"

definition digits_value :: "string \<Rightarrow> nat" where
  "digits_value s = foldl (\<lambda>acc c. 10 * acc + (of_char c - 48)) 0 s"

definition parse_u64 :: "string \<Rightarrow> nat option" where
  "parse_u64 s =
    (let ds = (case s of [] \<Rightarrow> [] | c # cs \<Rightarrow> if c = CHR ''+'' then cs else s) in
     if ds \<noteq> [] \<and> list_all is_digit ds \<and> digits_value ds \<le> u64_max
     then Some (digits_value ds) else None)"

definition rsplit_dot :: "string \<Rightarrow> (string \<times> string) option" where
  "rsplit_dot s =
    (let after = takeWhile (\<lambda>c. c \<noteq> CHR ''.'') (rev s) in
     if length after = length s then None
     else Some (take (length s - length after - 1) s, rev after))"

definition file_extension :: "string \<Rightarrow> string option" where
  "file_extension name =
    (if name = ''..'' then None
     else case rsplit_dot name of None \<Rightarrow> None
       | Some (before, after) \<Rightarrow> if before = [] then None else Some after)"

definition file_stem :: "string \<Rightarrow> string" where
  "file_stem name =
    (if name = ''..'' then name
     else case rsplit_dot name of None \<Rightarrow> name
       | Some (before, after) \<Rightarrow> if before = [] then name else before)"

definition parse_segment_file_name :: "string \<Rightarrow> (server_error, wal_seq) result" where
  "parse_segment_file_name name =
    and_then (ok_or (Wal ''parse WAL segment name'') (parse_u64 (file_stem name))) (\<lambda>seq.
      if seq = 0 then Inl (Wal ''parse WAL segment name'') else Inr seq)"

definition hex_digit :: "nat \<Rightarrow> char" where
  "hex_digit d = ''0123456789abcdef'' ! d"

definition hex_encode :: "bytes \<Rightarrow> string" where
  "hex_encode bs = concat (map (\<lambda>b. [hex_digit (unat (drop_bit 4 b)), hex_digit (unat (b AND 0x0f))]) bs)"

definition next_seq_after :: "wal_seq \<Rightarrow> (server_error, wal_seq) result" where
  "next_seq_after seq = ok_or (Wal ''assign WAL sequence'') (checked_add seq 1)"

definition previous_seq_before :: "wal_seq \<Rightarrow> (server_error, wal_seq) result" where
  "previous_seq_before seq = ok_or (Wal ''read WAL segment'') (checked_sub seq 1)"

section \<open>State\<close>

record active_segment =
  as_path :: string
  as_len_bytes :: nat

record local_wal_state =
  lw_bounds :: wal_bounds
  lw_active :: "active_segment option"

record segment_scan =
  ss_first_seq :: wal_seq
  ss_path :: string
  ss_len_bytes :: nat
  ss_records :: "wal_record list"

record local_export_wal =
  lx_dir :: wal_dir
  lx_segment_target_bytes :: nat
  lx_state :: local_wal_state

definition LOCAL_WAL_SEGMENT_TARGET_BYTES :: nat where
  "LOCAL_WAL_SEGMENT_TARGET_BYTES = 128 * 1024 * 1024"

definition with_segment_target_bytes :: "nat \<Rightarrow> (server_error, nat) result" where
  "with_segment_target_bytes target =
    (if target \<le> SEGMENT_HEADER_LEN then Inl (Wal ''create local WAL provider'') else Inr target)"

section \<open>Segment files\<close>

definition sync_directory :: "io_env \<Rightarrow> (server_error, unit) result" where
  "sync_directory io = io_step io ''sync WAL directory'' []"

definition write_new_segment ::
  "(bytes \<Rightarrow> u32) \<Rightarrow> io_env \<Rightarrow> wal_dir \<Rightarrow> string \<Rightarrow> wal_seq \<Rightarrow> wal_dir \<times> (server_error, unit) result" where
  "write_new_segment crc io dir name first_seq =
    (if io_fails io ''create WAL segment'' name \<or> file_bytes dir name \<noteq> None
     then (dir, Inl (Io ''create WAL segment''))
     else
       let header = encode_segment_header crc first_seq in
       if io_fails io ''write WAL segment header'' name
       then (put_file dir name (take (io_written io) header), Inl (Io ''write WAL segment header''))
       else (put_file dir name header, io_step io ''sync WAL segment header'' name))"

definition truncate_segment_tail ::
  "io_env \<Rightarrow> wal_dir \<Rightarrow> string \<Rightarrow> bytes \<Rightarrow> nat \<Rightarrow> wal_dir \<times> (server_error, unit) result" where
  "truncate_segment_tail io dir name data offset =
    (if io_fails io ''open WAL segment for tail repair'' name
     then (dir, Inl (Io ''open WAL segment for tail repair''))
     else if io_fails io ''truncate WAL segment tail'' name
     then (dir, Inl (Io ''truncate WAL segment tail''))
     else (put_file dir name (take offset data),
           io_step io ''sync WAL segment after tail repair'' name))"

section \<open>Scanning\<close>

function scan_records ::
  "(bytes \<Rightarrow> u32) \<Rightarrow> bytes \<Rightarrow> bool \<Rightarrow> nat \<Rightarrow> wal_seq \<Rightarrow> wal_record list
    \<Rightarrow> (server_error, wal_record list \<times> nat option) result" where
  "scan_records crc data is_newest offset expected_seq records =
    (if offset < length data then
       (case decode_record_at crc data offset of
          Inl error \<Rightarrow>
            if is_newest \<and> repair_offset error (length data) offset \<noteq> None
            then Inr (records, Some offset)
            else Inl (rde_error error)
        | Inr (record, next_offset) \<Rightarrow>
            if wrec_seq record \<noteq> expected_seq then Inl (Wal ''scan WAL segment'')
            else and_then (next_seq_after (wrec_seq record)) (\<lambda>expected_seq.
              scan_records crc data is_newest next_offset expected_seq (records @ [record])))
     else Inr (records, None))"
  by pat_completeness auto

termination
proof (relation "measure (\<lambda>(crc, data, n, offset, e, rs). length data - offset)", goal_cases)
  case (2 crc data n offset e rs p r nx s)
  then show ?case
    using decode_record_sound(2) [of crc data offset r nx] by (auto simp: RECORD_HEADER_LEN_def)
qed simp

declare scan_records.simps [simp del]

definition scan_segment ::
  "(bytes \<Rightarrow> u32) \<Rightarrow> io_env \<Rightarrow> wal_dir \<Rightarrow> string \<Rightarrow> wal_seq \<Rightarrow> bool
    \<Rightarrow> wal_dir \<times> (server_error, segment_scan) result" where
  "scan_segment crc io dir name expected_first_seq is_newest =
    (case (if io_fails io ''read WAL segment'' name then None else file_bytes dir name) of
       None \<Rightarrow> (dir, Inl (Io ''read WAL segment''))
     | Some data \<Rightarrow>
         then_st (dir, decode_segment_header crc data) (\<lambda>dir first_seq.
           if first_seq \<noteq> expected_first_seq then (dir, Inl (Wal ''scan WAL segment''))
           else then_st (dir, scan_records crc data is_newest SEGMENT_HEADER_LEN first_seq [])
             (\<lambda>dir (records, repair).
               case repair of
                 None \<Rightarrow> (dir, Inr \<lparr>ss_first_seq = first_seq, ss_path = name,
                                   ss_len_bytes = length data, ss_records = records\<rparr>)
               | Some offset \<Rightarrow>
                   then_st (truncate_segment_tail io dir name data offset) (\<lambda>dir _.
                     (dir, Inr \<lparr>ss_first_seq = first_seq, ss_path = name,
                                ss_len_bytes = offset, ss_records = records\<rparr>)))))"

fun segment_entries :: "io_env \<Rightarrow> wal_dir \<Rightarrow> (server_error, (wal_seq \<times> string) list) result" where
  "segment_entries io [] = Inr []"
| "segment_entries io ((name, bs) # dir) =
    (if io_fails io ''read WAL directory entry'' name
     then Inl (Io ''read WAL directory entry'')
     else if file_extension name \<noteq> Some ''wal'' then segment_entries io dir
     else and_then (parse_segment_file_name name) (\<lambda>first_seq.
       and_then (segment_entries io dir) (\<lambda>entries. Inr ((first_seq, name) # entries))))"

fun scan_entries ::
  "(bytes \<Rightarrow> u32) \<Rightarrow> io_env \<Rightarrow> wal_dir \<Rightarrow> wal_seq \<Rightarrow> (wal_seq \<times> string) list
    \<Rightarrow> wal_dir \<times> (server_error, segment_scan list) result" where
  "scan_entries crc io dir expected_seq [] = (dir, Inr [])"
| "scan_entries crc io dir expected_seq ((first_seq, name) # entries) =
    (if first_seq \<noteq> expected_seq then (dir, Inl (Wal ''scan WAL''))
     else then_st (scan_segment crc io dir name expected_seq (entries = [])) (\<lambda>dir scan.
       then_st (dir, case ss_records scan of
           [] \<Rightarrow> Inr (ss_first_seq scan)
         | r # rs \<Rightarrow> next_seq_after (wrec_seq (last (r # rs)))) (\<lambda>dir expected_seq.
         then_st (scan_entries crc io dir expected_seq entries) (\<lambda>dir scans.
           (dir, Inr (scan # scans))))))"

definition scan_segments ::
  "(bytes \<Rightarrow> u32) \<Rightarrow> io_env \<Rightarrow> wal_dir \<Rightarrow> wal_dir \<times> (server_error, segment_scan list) result" where
  "scan_segments crc io dir =
    (if io_fails io ''read WAL directory'' [] then (dir, Inl (Io ''read WAL directory''))
     else then_st (dir, segment_entries io dir) (\<lambda>dir entries.
       let entries = sort_key fst entries;
           expected_seq = (case entries of [] \<Rightarrow> 1 | (first_seq, _) # _ \<Rightarrow> first_seq)
       in scan_entries crc io dir expected_seq entries))"

definition max_seq :: "segment_scan \<Rightarrow> (server_error, wal_seq) result" where
  "max_seq scan =
    (if ss_records scan = [] then previous_seq_before (ss_first_seq scan)
     else Inr (wrec_seq (last (ss_records scan))))"

definition scan_wal_dir ::
  "(bytes \<Rightarrow> u32) \<Rightarrow> io_env \<Rightarrow> wal_dir \<Rightarrow> wal_dir \<times> (server_error, local_wal_state) result" where
  "scan_wal_dir crc io dir =
    then_st (scan_segments crc io dir) (\<lambda>dir scans.
      (dir,
       and_then (case scans of [] \<Rightarrow> Inr 0 | scan # _ \<Rightarrow> previous_seq_before (ss_first_seq scan))
         (\<lambda>pruned.
           let (durable, active) =
             foldl (\<lambda>(durable, active) scan.
               (if ss_records scan = [] then durable else wrec_seq (last (ss_records scan)),
                Some \<lparr>as_path = ss_path scan, as_len_bytes = ss_len_bytes scan\<rparr>))
               (pruned, None) scans
           in and_then (new_wal_bounds pruned durable) (\<lambda>bounds.
                Inr \<lparr>lw_bounds = bounds, lw_active = active\<rparr>))))"

section \<open>Operations\<close>

definition open_local_wal ::
  "(bytes \<Rightarrow> u32) \<Rightarrow> io_env \<Rightarrow> wal_dir \<Rightarrow> nat \<Rightarrow> wal_dir \<times> (server_error, local_export_wal) result" where
  "open_local_wal crc io dir target =
    then_st (dir, io_step io ''create WAL directory'' []) (\<lambda>dir _.
      then_st (dir, sync_directory io) (\<lambda>dir _.
        then_st (scan_wal_dir crc io dir) (\<lambda>dir state.
          (dir, Inr \<lparr>lx_dir = dir, lx_segment_target_bytes = target, lx_state = state\<rparr>))))"

definition ensure_active_segment ::
  "(bytes \<Rightarrow> u32) \<Rightarrow> io_env \<Rightarrow> local_export_wal \<Rightarrow> local_export_wal \<times> (server_error, unit) result" where
  "ensure_active_segment crc io w =
    then_st (w, next_seq_after (last_durable (lw_bounds (lx_state w)))) (\<lambda>w next_seq.
      let should_create = (case lw_active (lx_state w) of
            None \<Rightarrow> True
          | Some active \<Rightarrow> as_len_bytes active \<ge> lx_segment_target_bytes w) in
      if \<not> should_create then (w, Inr ())
      else
        let path = segment_path next_seq;
            (dir, res) = write_new_segment crc io (lx_dir w) path next_seq
        in then_st (w\<lparr>lx_dir := dir\<rparr>, res) (\<lambda>w _.
          then_st (w, sync_directory io) (\<lambda>w _.
            (w\<lparr>lx_state := (lx_state w)\<lparr>lw_active :=
                Some \<lparr>as_path = path, as_len_bytes = SEGMENT_HEADER_LEN\<rparr>\<rparr>\<rparr>, Inr ()))))"

definition wal_append ::
  "(bytes \<Rightarrow> u32) \<Rightarrow> io_env \<Rightarrow> local_export_wal \<Rightarrow> wal_request
    \<Rightarrow> local_export_wal \<times> (server_error, wal_record) result" where
  "wal_append crc io w request =
    then_st (ensure_active_segment crc io w) (\<lambda>w _.
      then_st (w, next_seq_after (last_durable (lw_bounds (lx_state w)))) (\<lambda>w seq.
        then_st (w, record_from_request seq request) (\<lambda>w record.
          let frame = encode_record crc record in
          case lw_active (lx_state w) of
            None \<Rightarrow> (w, Inl (Wal ''active segment exists after ensure_active_segment''))
          | Some active \<Rightarrow>
              case (if io_fails io ''open WAL segment for append'' (as_path active) then None
                    else file_bytes (lx_dir w) (as_path active)) of
                None \<Rightarrow> (w, Inl (Io ''open WAL segment for append''))
              | Some data \<Rightarrow>
                  if io_fails io ''write WAL record'' (as_path active)
                  then (w\<lparr>lx_dir := put_file (lx_dir w) (as_path active)
                            (data @ take (io_written io) frame)\<rparr>, Inl (Io ''write WAL record''))
                  else
                    let w = w\<lparr>lx_dir := put_file (lx_dir w) (as_path active) (data @ frame)\<rparr> in
                    then_st (w, io_step io ''sync WAL segment'' (as_path active)) (\<lambda>w _.
                      (w\<lparr>lx_state := \<lparr>lw_bounds = (lw_bounds (lx_state w))\<lparr>last_durable := seq\<rparr>,
                          lw_active = Some (active\<lparr>as_len_bytes :=
                            as_len_bytes active + length frame\<rparr>)\<rparr>\<rparr>, Inr record)))))"

definition wal_bounds_of :: "local_export_wal \<Rightarrow> wal_bounds" where
  "wal_bounds_of w = lw_bounds (lx_state w)"

definition validate_replay_range ::
  "wal_bounds \<Rightarrow> wal_seq \<Rightarrow> wal_seq \<Rightarrow> (server_error, unit) result" where
  "validate_replay_range bounds after through =
    (if through < after then Inl (Wal ''replay WAL'')
     else if after < pruned_through bounds then Inl (Wal ''replay WAL'')
     else if through > last_durable bounds then Inl (Wal ''replay WAL'')
     else Inr ())"

definition load_records ::
  "(bytes \<Rightarrow> u32) \<Rightarrow> io_env \<Rightarrow> local_export_wal
    \<Rightarrow> local_export_wal \<times> (server_error, wal_record list) result" where
  "load_records crc io w =
    (let (dir, res) = scan_segments crc io (lx_dir w) in
     then_st (w\<lparr>lx_dir := dir\<rparr>, res) (\<lambda>w scans. (w, Inr (concat (map ss_records scans)))))"

definition replay_range ::
  "(bytes \<Rightarrow> u32) \<Rightarrow> io_env \<Rightarrow> local_export_wal \<Rightarrow> wal_seq \<Rightarrow> wal_seq
    \<Rightarrow> local_export_wal \<times> (server_error, wal_record list) result" where
  "replay_range crc io w after through =
    then_st (w, validate_replay_range (wal_bounds_of w) after through) (\<lambda>w _.
      then_st (load_records crc io w) (\<lambda>w records.
        (w, replay_from_records
              (filter (\<lambda>r. after < wrec_seq r \<and> wrec_seq r \<le> through) records))))"

definition replay_after ::
  "(bytes \<Rightarrow> u32) \<Rightarrow> io_env \<Rightarrow> local_export_wal \<Rightarrow> wal_seq
    \<Rightarrow> local_export_wal \<times> (server_error, wal_record list) result" where
  "replay_after crc io w after = replay_range crc io w after (last_durable (wal_bounds_of w))"

definition sync_and_reload_wal_state ::
  "(bytes \<Rightarrow> u32) \<Rightarrow> io_env \<Rightarrow> local_export_wal \<Rightarrow> local_export_wal \<times> (server_error, unit) result" where
  "sync_and_reload_wal_state crc io w =
    then_st (w, sync_directory io) (\<lambda>w _.
      let (dir, res) = scan_wal_dir crc io (lx_dir w) in
      then_st (w\<lparr>lx_dir := dir\<rparr>, res) (\<lambda>w state. (w\<lparr>lx_state := state\<rparr>, Inr ())))"

fun prune_segments ::
  "(bytes \<Rightarrow> u32) \<Rightarrow> io_env \<Rightarrow> wal_seq \<Rightarrow> string option \<Rightarrow> segment_scan list
    \<Rightarrow> local_export_wal \<Rightarrow> nat \<Rightarrow> bool \<Rightarrow> local_export_wal \<times> (server_error, nat \<times> bool) result" where
  "prune_segments crc io seq active_path [] w removed changed = (w, Inr (removed, changed))"
| "prune_segments crc io seq active_path (scan # scans) w removed changed =
    (if Some (ss_path scan) = active_path
     then prune_segments crc io seq active_path scans w removed changed
     else then_st (w, max_seq scan) (\<lambda>w m.
       if m \<le> seq then
         (if io_fails io ''remove WAL segment'' (ss_path scan) then
            (if changed then
               then_st (sync_and_reload_wal_state crc io w) (\<lambda>w _.
                 (w, Inl (Io ''remove WAL segment'')))
             else (w, Inl (Io ''remove WAL segment'')))
          else prune_segments crc io seq active_path scans
                 (w\<lparr>lx_dir := drop_file (lx_dir w) (ss_path scan)\<rparr>) (removed + 1) True)
       else prune_segments crc io seq active_path scans w removed changed))"

definition rotate_active ::
  "(bytes \<Rightarrow> u32) \<Rightarrow> io_env \<Rightarrow> wal_seq \<Rightarrow> segment_scan \<Rightarrow> local_export_wal \<Rightarrow> nat \<Rightarrow> bool
    \<Rightarrow> local_export_wal \<times> (server_error, nat \<times> bool) result" where
  "rotate_active crc io seq active_scan w removed changed =
    (if ss_records active_scan = [] then (w, Inr (removed, changed))
     else then_st (w, max_seq active_scan) (\<lambda>w m.
       if seq < m then (w, Inr (removed, changed))
       else then_st (w, next_seq_after (last_durable (wal_bounds_of w))) (\<lambda>w next_seq.
         let new_path = segment_path next_seq;
             (dir, res) = write_new_segment crc io (lx_dir w) new_path next_seq
         in then_st (w\<lparr>lx_dir := dir\<rparr>, res) (\<lambda>w _.
           then_st (w, sync_directory io) (\<lambda>w _.
             let w = w\<lparr>lx_state := (lx_state w)\<lparr>lw_active :=
                   Some \<lparr>as_path = new_path, as_len_bytes = SEGMENT_HEADER_LEN\<rparr>\<rparr>\<rparr> in
             if io_fails io ''remove active WAL segment'' (ss_path active_scan) then
               then_st (sync_and_reload_wal_state crc io w) (\<lambda>w _.
                 (w, Inl (Io ''remove active WAL segment'')))
             else (w\<lparr>lx_dir := drop_file (lx_dir w) (ss_path active_scan)\<rparr>,
                   Inr (removed + 1, True)))))))"

definition prune_through ::
  "(bytes \<Rightarrow> u32) \<Rightarrow> io_env \<Rightarrow> local_export_wal \<Rightarrow> wal_seq
    \<Rightarrow> local_export_wal \<times> (server_error, wal_prune_result) result" where
  "prune_through crc io w seq =
    (if seq > last_durable (wal_bounds_of w) then (w, Inl (Wal ''prune WAL''))
     else
       let (dir, res) = scan_segments crc io (lx_dir w);
           active_path = map_option as_path (lw_active (lx_state w))
       in then_st (w\<lparr>lx_dir := dir\<rparr>, res) (\<lambda>w scans.
         then_st (prune_segments crc io seq active_path scans w 0 False) (\<lambda>w (removed, changed).
           then_st (case find (\<lambda>scan. Some (ss_path scan) = active_path) scans of
               None \<Rightarrow> (w, Inr (removed, changed))
             | Some active_scan \<Rightarrow> rotate_active crc io seq active_scan w removed changed)
             (\<lambda>w (removed, changed).
               then_st (if changed then sync_and_reload_wal_state crc io w else (w, Inr ()))
                 (\<lambda>w _. (w, Inr \<lparr>pr_requested_through = seq,
                          pr_pruned_through = pruned_through (wal_bounds_of w),
                          pr_removed_segments = removed\<rparr>))))))"

end
