(* ===== verification/Wal_Log.thy ===== *)
theory Wal_Log
  imports Wal_Local "HOL-Library.Multiset"
begin

text \<open>
  The local write-ahead log refines a log of records with consecutive sequence numbers.
  A directory represents a chain of segments, with an optional torn tail on the newest
  one; opening recovers exactly the complete records, append extends the log by one
  record, replay returns the requested part of it, and prune removes a prefix.
\<close>

section \<open>Segment names\<close>

lemma digits_value_snoc: "digits_value (s @ [c]) = 10 * digits_value s + (of_char c - 48)"
  by (simp add: digits_value_def)

lemma of_char_digit [simp]: "d < 10 \<Longrightarrow> of_char (digit_char d) = 48 + d"
  by (simp add: digit_char_def)

lemma digits_value_dec [simp]: "digits_value (dec_digits n) = n"
proof (induction n rule: dec_digits.induct)
  case (1 n)
  then show ?case
    by (subst dec_digits.simps) (auto simp: digits_value_snoc simp del: dec_digits.simps,
        simp add: digits_value_def)
qed

declare dec_digits.simps [simp del]

lemma is_digit_digit [simp]: "d < 10 \<Longrightarrow> is_digit (digit_char d)"
  by (simp add: is_digit_def)

lemma is_digit_dec: "list_all is_digit (dec_digits n)"
proof (induction n rule: dec_digits.induct)
  case (1 n)
  then show ?case by (subst dec_digits.simps) auto
qed

lemma dec_digits_ne [simp]: "dec_digits n \<noteq> []"
  by (subst dec_digits.simps) simp

lemma digits_value_zeros [simp]: "digits_value (replicate k (CHR ''0'') @ s) = digits_value s"
  by (induction k) (simp_all add: digits_value_def)

lemma digits_value_pad [simp]: "digits_value (pad16 s) = digits_value s"
  by (simp add: pad16_def)

lemma is_digit_pad: "list_all is_digit s \<Longrightarrow> list_all is_digit (pad16 s)"
  by (auto simp: pad16_def list_all_iff is_digit_def)

lemma parse_u64_pad:
  assumes "n \<le> u64_max"
  shows "parse_u64 (pad16 (dec_digits n)) = Some n"
proof -
  let ?s = "pad16 (dec_digits n)"
  have ne: "?s \<noteq> []" by (simp add: pad16_def)
  have dig: "list_all is_digit ?s" by (rule is_digit_pad [OF is_digit_dec])
  then have "hd ?s \<noteq> CHR ''+''" using ne by (cases ?s) (auto simp: is_digit_def)
  then have "(case ?s of [] \<Rightarrow> [] | c # cs \<Rightarrow> if c = CHR ''+'' then cs else ?s) = ?s"
    using ne by (cases ?s) auto
  with ne dig assms show ?thesis by (simp add: parse_u64_def Let_def)
qed

lemma rsplit_dot_wal: "rsplit_dot (s @ ''.wal'') = Some (s, ''wal'')"
  by (simp add: rsplit_dot_def Let_def)

lemma segment_path_ext [simp]: "file_extension (segment_path n) = Some ''wal''"
  and segment_path_stem [simp]: "file_stem (segment_path n) = pad16 (dec_digits n)"
proof -
  have "pad16 (dec_digits n) \<noteq> []" by (simp add: pad16_def)
  then show "file_extension (segment_path n) = Some ''wal''"
    "file_stem (segment_path n) = pad16 (dec_digits n)"
    by (simp_all add: file_extension_def file_stem_def segment_path_def rsplit_dot_wal)
qed

lemma parse_segment_path:
  "0 < n \<Longrightarrow> n \<le> u64_max \<Longrightarrow> parse_segment_file_name (segment_path n) = Inr n"
  by (simp add: parse_segment_file_name_def parse_u64_pad)

lemma segment_path_inject [simp]: "segment_path m = segment_path n \<longleftrightarrow> m = n"
  by (metis digits_value_dec digits_value_pad segment_path_stem)

lemma next_seq_after_Inr [simp]: "s < u64_max \<Longrightarrow> next_seq_after s = Inr (s + 1)"
  by (simp add: next_seq_after_def checked_add_def)

lemma previous_seq_before_Inr [simp]: "0 < s \<Longrightarrow> previous_seq_before s = Inr (s - 1)"
  by (simp add: previous_seq_before_def checked_sub_def)

section \<open>Scanning one segment\<close>

abbreviation frames :: "(bytes \<Rightarrow> u32) \<Rightarrow> wal_record list \<Rightarrow> bytes" where
  "frames crc rs \<equiv> concat (map (encode_record crc) rs)"

fun consecutive :: "wal_seq \<Rightarrow> wal_record list \<Rightarrow> bool" where
  "consecutive e [] \<longleftrightarrow> True"
| "consecutive e (r # rs) \<longleftrightarrow> wrec_seq r = e \<and> consecutive (Suc e) rs"

lemma consecutive_append [simp]:
  "consecutive e (rs @ rs') \<longleftrightarrow> consecutive e rs \<and> consecutive (e + length rs) rs'"
  by (induction rs arbitrary: e) auto

lemma consecutive_seqs: "consecutive e rs \<longleftrightarrow> map wrec_seq rs = [e..<e + length rs]"
proof (induction rs arbitrary: e)
  case (Cons r rs)
  then show ?case by (auto simp: upt_conv_Cons simp del: upt_Suc)
qed simp

lemma consecutive_last: "consecutive e rs \<Longrightarrow> rs \<noteq> [] \<Longrightarrow> wrec_seq (last rs) + 1 = e + length rs"
  by (induction rs arbitrary: e) fastforce+

lemma scan_records_frames:
  assumes "list_all wf_record rs" "consecutive e rs"
    and "length (pre @ frames crc rs @ tail) \<le> u64_max" "e + length rs \<le> u64_max"
  shows "scan_records crc (pre @ frames crc rs @ tail) newest (length pre) e acc =
    scan_records crc (pre @ frames crc rs @ tail) newest (length (pre @ frames crc rs))
      (e + length rs) (acc @ rs)"
  using assms
proof (induction rs arbitrary: pre e acc)
  case (Cons r rs)
  let ?data = "pre @ encode_record crc r @ frames crc rs @ tail"
  from Cons.prems have r: "wrec_seq r = e" "wf_record r"
    and rs: "consecutive (Suc e) rs"
    by auto
  have "decode_record_at crc ?data (length pre) = Inr (r, length (pre @ encode_record crc r))"
    using decode_encode_record [of r pre crc "frames crc rs @ tail"] r Cons.prems(3) by simp
  moreover have "length pre < length ?data" by (simp add: RECORD_HEADER_LEN_def)
  ultimately have "scan_records crc ?data newest (length pre) e acc =
      scan_records crc ?data newest (length (pre @ encode_record crc r)) (Suc e) (acc @ [r])"
    using r Cons.prems(4) by (subst scan_records.simps) simp
  moreover have "scan_records crc ((pre @ encode_record crc r) @ frames crc rs @ tail) newest
      (length (pre @ encode_record crc r)) (Suc e) (acc @ [r]) =
    scan_records crc ((pre @ encode_record crc r) @ frames crc rs @ tail) newest
      (length ((pre @ encode_record crc r) @ frames crc rs)) (Suc e + length rs) ((acc @ [r]) @ rs)"
    using Cons.prems rs by (intro Cons.IH) auto
  ultimately show ?case by (simp add: add.assoc)
qed simp

lemma scan_records_end: "scan_records crc data newest (length data) e acc = Inr (acc, None)"
  by (subst scan_records.simps) simp

lemma scan_records_torn:
  assumes "wf_record r" "0 < k" "k < length (encode_record crc r)"
    and "length (pre @ encode_record crc r) \<le> u64_max"
  shows "scan_records crc (pre @ take k (encode_record crc r)) True (length pre) e acc =
    Inr (acc, Some (length pre))"
  using assms by (subst scan_records.simps) (auto simp: decode_torn_record)

text \<open>A torn tail of a file: nothing, or a proper prefix of some frame.\<close>

definition torn_tail :: "(bytes \<Rightarrow> u32) \<Rightarrow> bytes \<Rightarrow> bool" where
  "torn_tail crc t \<longleftrightarrow> t = [] \<or> (\<exists>r k. wf_record r \<and> 0 < k \<and> k < length (encode_record crc r) \<and>
    t = take k (encode_record crc r))"

section \<open>Directories that represent a chain of segments\<close>

type_synonym segment = "wal_seq \<times> wal_record list"

definition segment_bytes :: "(bytes \<Rightarrow> u32) \<Rightarrow> segment \<Rightarrow> bytes" where
  "segment_bytes crc seg = encode_segment_header crc (fst seg) @ frames crc (snd seg)"

fun segment_files :: "(bytes \<Rightarrow> u32) \<Rightarrow> segment list \<Rightarrow> bytes \<Rightarrow> wal_dir" where
  "segment_files crc [] torn = []"
| "segment_files crc [seg] torn = [(segment_path (fst seg), segment_bytes crc seg @ torn)]"
| "segment_files crc (seg # seg' # segs) torn =
    (segment_path (fst seg), segment_bytes crc seg) # segment_files crc (seg' # segs) torn"

fun chain :: "(bytes \<Rightarrow> u32) \<Rightarrow> wal_seq \<Rightarrow> segment list \<Rightarrow> bool" where
  "chain crc e [] \<longleftrightarrow> True"
| "chain crc e (seg # segs) \<longleftrightarrow> fst seg = e \<and> consecutive e (snd seg) \<and>
    list_all wf_record (snd seg) \<and> (segs \<noteq> [] \<longrightarrow> snd seg \<noteq> []) \<and>
    length (segment_bytes crc seg) + RECORD_HEADER_LEN + u32_max \<le> u64_max \<and>
    e + length (snd seg) \<le> u64_max \<and> chain crc (e + length (snd seg)) segs"

definition log_of :: "segment list \<Rightarrow> wal_record list" where
  "log_of segs = concat (map snd segs)"

definition represents :: "(bytes \<Rightarrow> u32) \<Rightarrow> wal_dir \<Rightarrow> segment list \<Rightarrow> bytes \<Rightarrow> bool" where
  "represents crc dir segs torn \<longleftrightarrow> distinct (map fst dir) \<and>
    (\<forall>n. file_extension n = Some ''wal'' \<longrightarrow>
      map_of dir n = map_of (segment_files crc segs torn) n)"

definition scan_of :: "(bytes \<Rightarrow> u32) \<Rightarrow> segment \<Rightarrow> segment_scan" where
  "scan_of crc seg = \<lparr>ss_first_seq = fst seg, ss_path = segment_path (fst seg),
    ss_len_bytes = length (segment_bytes crc seg), ss_records = snd seg\<rparr>"

lemma io_ok_simps [simp]: "\<not> io_fails io_ok c n" "io_step io_ok c n = Inr ()" "sync_directory io_ok = Inr ()"
  by (simp_all add: io_ok_def io_step_def sync_directory_def)

lemma map_of_put_file [simp]: "map_of (put_file dir n bs) = (map_of dir)(n \<mapsto> bs)"
  by (simp add: put_file_def update_conv')

lemma distinct_put_file [simp]: "distinct (map fst dir) \<Longrightarrow> distinct (map fst (put_file dir n bs))"
  by (simp add: put_file_def distinct_update)

lemma map_of_drop_file [simp]: "map_of (drop_file dir n) = (map_of dir)(n := None)"
  by (simp add: drop_file_def delete_conv')

lemma distinct_drop_file [simp]: "distinct (map fst dir) \<Longrightarrow> distinct (map fst (drop_file dir n))"
  by (simp add: drop_file_def distinct_delete)

lemma chain_firsts: "chain crc e segs \<Longrightarrow> seg \<in> set segs \<Longrightarrow> e \<le> fst seg \<and> fst seg \<le> u64_max"
  by (induction segs arbitrary: e) fastforce+

lemma chain_sorted: "chain crc e segs \<Longrightarrow> sorted_wrt (<) (map fst segs)"
proof (induction segs arbitrary: e)
  case (Cons seg segs)
  have "fst seg < fst s" if "s \<in> set segs" for s
  proof -
    have "chain crc (e + length (snd seg)) segs" "fst seg = e" "snd seg \<noteq> []"
      using Cons.prems that by auto
    then show ?thesis using chain_firsts [of crc "e + length (snd seg)" segs s] that
      by (cases "snd seg") auto
  qed
  moreover have "sorted_wrt (<) (map fst segs)" using Cons by auto
  ultimately show ?case by auto
qed simp

lemma fst_segment_files: "map fst (segment_files crc segs torn) = map (\<lambda>s. segment_path (fst s)) segs"
  by (induction crc segs torn rule: segment_files.induct) auto

lemma distinct_segment_files:
  assumes "chain crc e segs"
  shows "distinct (map fst (segment_files crc segs torn))"
proof -
  have "distinct (map fst segs)"
    using chain_sorted [OF assms] strict_sorted_iff by blast
  then have "distinct (map (segment_path \<circ> fst) segs)"
    by (auto simp: distinct_map inj_on_def)
  then show ?thesis by (simp add: fst_segment_files comp_def)
qed

section \<open>Directory entries\<close>

definition wal_files :: "wal_dir \<Rightarrow> wal_dir" where
  "wal_files dir = filter (\<lambda>(n, _). file_extension n = Some ''wal'') dir"

lemma map_of_wal_files:
  "map_of (wal_files dir) n = (if file_extension n = Some ''wal'' then map_of dir n else None)"
  by (induction dir) (auto simp: wal_files_def)

lemma wal_files_mset:
  assumes "represents crc dir segs torn" "chain crc e segs"
  shows "mset (wal_files dir) = mset (segment_files crc segs torn)"
proof -
  have ext: "map_of (segment_files crc segs torn) n = None" if "file_extension n \<noteq> Some ''wal''" for n
  proof -
    have "fst ` set (segment_files crc segs torn) = (\<lambda>s. segment_path (fst s)) ` set segs"
      by (metis fst_segment_files set_map)
    with that show ?thesis by (auto simp: map_of_eq_None_iff)
  qed
  have "map_of (wal_files dir) = map_of (segment_files crc segs torn)"
    using assms(1) ext by (auto simp: represents_def map_of_wal_files fun_eq_iff)
  moreover have "distinct (map fst (wal_files dir))"
    using assms(1) by (auto simp: represents_def wal_files_def distinct_map_filter)
  ultimately have "set (wal_files dir) = set (segment_files crc segs torn)"
    using distinct_segment_files [OF assms(2)] by (intro map_of_inject_set [THEN iffD1])
  moreover have "distinct (wal_files dir)" "distinct (segment_files crc segs torn)"
    using \<open>distinct (map fst (wal_files dir))\<close> distinct_segment_files [OF assms(2)]
    by (auto simp: distinct_map)
  ultimately show ?thesis by (simp add: set_eq_iff_mset_eq_distinct)
qed

lemma segment_entries_filter: "segment_entries io_ok dir = segment_entries io_ok (wal_files dir)"
  by (induction dir) (auto simp: wal_files_def)

lemma segment_entries_map:
  assumes "\<forall>n \<in> fst ` set dir. file_extension n = Some ''wal'' \<and> parse_segment_file_name n = Inr (f n)"
  shows "segment_entries io_ok dir = Inr (map (\<lambda>(n, _). (f n, n)) dir)"
  using assms by (induction dir) auto

definition seq_of_name :: "string \<Rightarrow> wal_seq" where
  "seq_of_name n = digits_value (file_stem n)"

lemma seq_of_segment_path [simp]: "seq_of_name (segment_path f) = f"
  by (simp add: seq_of_name_def)

lemma set_segment_file_names:
  "fst ` set (segment_files crc segs torn) = (\<lambda>s. segment_path (fst s)) ` set segs"
  by (metis fst_segment_files set_map)

lemma entries_of_segment_files:
  "map (\<lambda>(n, _). (seq_of_name n, n)) (segment_files crc segs torn) =
    map (\<lambda>s. (fst s, segment_path (fst s))) segs"
  by (induction crc segs torn rule: segment_files.induct) auto

lemma sorted_segment_entries:
  assumes "represents crc dir segs torn" "chain crc e segs" "0 < e"
  obtains es where "segment_entries io_ok dir = Inr es"
    "sort_key fst es = map (\<lambda>s. (fst s, segment_path (fst s))) segs"
proof
  let ?g = "\<lambda>(n, _ :: bytes). (seq_of_name n, n)"
  note m = wal_files_mset [OF assms(1,2)]
  have "fst ` set (wal_files dir) = (\<lambda>s. segment_path (fst s)) ` set segs"
    using m by (metis mset_eq_setD set_segment_file_names)
  moreover have "parse_segment_file_name (segment_path (fst s)) = Inr (fst s)" if "s \<in> set segs" for s
    using chain_firsts [OF assms(2) that] assms(3) by (simp add: parse_segment_path)
  ultimately have "\<forall>n \<in> fst ` set (wal_files dir). file_extension n = Some ''wal'' \<and>
      parse_segment_file_name n = Inr (seq_of_name n)" by auto
  then show "segment_entries io_ok dir = Inr (map ?g (wal_files dir))"
    by (subst segment_entries_filter) (rule segment_entries_map)
  have "mset (map ?g (wal_files dir)) = mset (map ?g (segment_files crc segs torn))"
    using m by (simp only: mset_map)
  also have "\<dots> = mset (map (\<lambda>s. (fst s, segment_path (fst s))) segs)"
    by (simp only: entries_of_segment_files)
  finally have "mset (map ?g (wal_files dir)) = mset (map (\<lambda>s. (fst s, segment_path (fst s))) segs)" .
  moreover from mset_eq_setD [OF this] have "inj_on fst (set (map ?g (wal_files dir)))"
    by (simp only:) (auto simp: inj_on_def)
  moreover have "sorted (map fst (map (\<lambda>s. (fst s, segment_path (fst s))) segs))"
    using chain_sorted [OF assms(2)] by (simp add: comp_def strict_sorted_imp_sorted)
  ultimately show "sort_key fst (map ?g (wal_files dir)) = map (\<lambda>s. (fst s, segment_path (fst s))) segs"
    by (rule sort_key_inj_key_eq)
qed

section \<open>Scanning a directory\<close>

lemma scan_segment_ok:
  assumes "chain crc (fst seg) [seg]" "file_bytes dir (segment_path (fst seg)) = Some (segment_bytes crc seg @ torn)"
    and "torn_tail crc torn" "torn \<noteq> [] \<longrightarrow> newest"
  shows "scan_segment crc io_ok dir (segment_path (fst seg)) (fst seg) newest =
    (if torn = [] then dir else put_file dir (segment_path (fst seg)) (segment_bytes crc seg),
     Inr (scan_of crc seg))"
proof -
  let ?h = "encode_segment_header crc (fst seg)" and ?f = "frames crc (snd seg)"
  have b: "length (segment_bytes crc seg) + RECORD_HEADER_LEN + u32_max \<le> u64_max"
    "fst seg \<le> u64_max" "list_all wf_record (snd seg)" "consecutive (fst seg) (snd seg)"
    "fst seg + length (snd seg) \<le> u64_max"
    using assms(1) by auto
  have hd: "decode_segment_header crc (segment_bytes crc seg @ torn) = Inr (fst seg)"
    using b(2) by (simp add: segment_bytes_def decode_encode_segment_header)
  have torn_len: "length torn \<le> RECORD_HEADER_LEN + u32_max"
    using assms(3) by (auto simp: torn_tail_def wf_record_def)
  have step: "scan_records crc (segment_bytes crc seg @ torn) newest SEGMENT_HEADER_LEN (fst seg) [] =
      scan_records crc (segment_bytes crc seg @ torn) newest (length (segment_bytes crc seg))
        (fst seg + length (snd seg)) (snd seg)"
    using scan_records_frames [of "snd seg" "fst seg" ?h crc torn newest "[]"] b torn_len
    by (simp add: segment_bytes_def)
  show ?thesis
  proof (cases "torn = []")
    case True
    then show ?thesis using assms(2) hd step scan_records_end [of crc "segment_bytes crc seg"]
      by (simp add: scan_segment_def scan_of_def)
  next
    case False
    then obtain r k where r: "wf_record r" "0 < k" "k < length (encode_record crc r)"
      "torn = take k (encode_record crc r)" and newest
      using assms(3,4) by (auto simp: torn_tail_def)
    then have "scan_records crc (segment_bytes crc seg @ torn) newest (length (segment_bytes crc seg))
        (fst seg + length (snd seg)) (snd seg) = Inr (snd seg, Some (length (segment_bytes crc seg)))"
      using scan_records_torn [of r k crc "segment_bytes crc seg"] b(1) by (simp add: wf_record_def)
    then show ?thesis using assms(2) False hd step
      by (simp add: scan_segment_def scan_of_def truncate_segment_tail_def)
  qed
qed

definition repaired :: "(bytes \<Rightarrow> u32) \<Rightarrow> wal_dir \<Rightarrow> segment list \<Rightarrow> bytes \<Rightarrow> wal_dir" where
  "repaired crc dir segs torn =
    (if torn = [] \<or> segs = [] then dir
     else put_file dir (segment_path (fst (last segs))) (segment_bytes crc (last segs)))"

lemma scan_entries_chain:
  assumes "chain crc e segs" "torn_tail crc torn"
    and "\<forall>(n, bs) \<in> set (segment_files crc segs torn). file_bytes dir n = Some bs"
  shows "scan_entries crc io_ok dir e (map (\<lambda>s. (fst s, segment_path (fst s))) segs) =
    (repaired crc dir segs torn, Inr (map (scan_of crc) segs))"
  using assms
proof (induction crc segs torn arbitrary: e rule: segment_files.induct)
  case (2 crc seg torn)
  have "scan_segment crc io_ok dir (segment_path (fst seg)) (fst seg) True =
      (if torn = [] then dir else put_file dir (segment_path (fst seg)) (segment_bytes crc seg),
       Inr (scan_of crc seg))"
    using 2 by (intro scan_segment_ok) auto
  moreover have "wrec_seq (last (snd seg)) < u64_max" if "snd seg \<noteq> []"
    using 2 that consecutive_last [of "fst seg" "snd seg"] by auto
  ultimately show ?case using 2
    by (cases "snd seg") (auto simp: repaired_def scan_of_def)
next
  case (3 crc seg seg' segs torn)
  let ?n = "fst seg + length (snd seg)"
  have "scan_segment crc io_ok dir (segment_path (fst seg)) (fst seg) False = (dir, Inr (scan_of crc seg))"
    using 3 scan_segment_ok [of crc seg dir "[]" False] by (auto simp: torn_tail_def)
  moreover have "next_seq_after (wrec_seq (last (snd seg))) = Inr ?n" "snd seg \<noteq> []"
    using 3 consecutive_last [of "fst seg" "snd seg"] by auto
  moreover have "scan_entries crc io_ok dir ?n (map (\<lambda>s. (fst s, segment_path (fst s))) (seg' # segs)) =
      (repaired crc dir (seg' # segs) torn, Inr (map (scan_of crc) (seg' # segs)))"
    using 3 by (intro "3.IH") auto
  ultimately show ?case using 3
    by (cases "snd seg") (auto simp: repaired_def scan_of_def)
qed (simp add: repaired_def)

abbreviation segment_file :: "(bytes \<Rightarrow> u32) \<Rightarrow> segment \<Rightarrow> string \<times> bytes" where
  "segment_file crc seg \<equiv> (segment_path (fst seg), segment_bytes crc seg)"

lemma segment_files_snoc:
  "segment_files crc (segs @ [seg]) torn =
    map (segment_file crc) segs @ [(segment_path (fst seg), segment_bytes crc seg @ torn)]"
proof (induction segs)
  case (Cons s segs)
  then show ?case by (cases segs) auto
qed simp

lemma segment_files_clean: "segment_files crc segs [] = map (segment_file crc) segs"
  by (cases segs rule: rev_cases) (auto simp: segment_files_snoc)

lemma represents_files:
  assumes "represents crc dir segs torn" "chain crc e segs" "(n, bs) \<in> set (segment_files crc segs torn)"
  shows "file_bytes dir n = Some bs"
proof -
  have "map_of (segment_files crc segs torn) n = Some bs"
    using assms(3) distinct_segment_files [OF assms(2)] by (simp add: map_of_is_SomeI)
  moreover have "n \<in> (\<lambda>s. segment_path (fst s)) ` set segs"
    using assms(3) set_segment_file_names [of crc segs torn] by force
  then have "map_of dir n = map_of (segment_files crc segs torn) n"
    using assms(1) by (auto simp: represents_def)
  ultimately show ?thesis by (simp only: file_bytes_def)
qed

lemma map_of_segment_file_None:
  "(\<forall>s \<in> set segs. fst s \<noteq> f) \<Longrightarrow> map_of (map (segment_file crc) segs) (segment_path f) = None"
  by (induction segs) auto

lemma map_of_snoc_fresh:
  assumes "map_of xs k = None"
  shows "map_of (xs @ [(k, v)]) = (map_of xs)(k \<mapsto> v)"
  using assms by (auto simp: map_add_def fun_eq_iff split: option.splits)

lemma chain_snoc_fresh: "chain crc e (segs @ [seg]) \<Longrightarrow> s \<in> set segs \<Longrightarrow> fst s \<noteq> fst seg"
  using chain_sorted [of crc e "segs @ [seg]"] by (auto simp: sorted_wrt_append)

lemma represents_repaired:
  assumes "represents crc dir segs torn" "chain crc e segs"
  shows "represents crc (repaired crc dir segs torn) segs []"
proof (cases segs rule: rev_cases)
  case Nil
  then show ?thesis using assms by (simp add: represents_def repaired_def)
next
  case (snoc ss seg)
  let ?f = "segment_path (fst seg)"
  have "map_of (map (segment_file crc) ss) ?f = None"
    using chain_snoc_fresh [of crc e ss seg] assms(2) snoc
    by (intro map_of_segment_file_None) auto
  then show ?thesis
    using assms(1)
    by (auto simp: snoc represents_def repaired_def segment_files_snoc map_of_snoc_fresh
        simp del: map_of_append)
qed

section \<open>The state a directory is opened with\<close>

definition base_of :: "segment list \<Rightarrow> wal_seq" where
  "base_of segs = (case segs of [] \<Rightarrow> 0 | s # _ \<Rightarrow> fst s - 1)"

definition durable_of :: "segment list \<Rightarrow> wal_seq" where
  "durable_of segs = base_of segs + length (log_of segs)"

definition active_of :: "(bytes \<Rightarrow> u32) \<Rightarrow> segment list \<Rightarrow> active_segment option" where
  "active_of crc segs = (if segs = [] then None
    else Some \<lparr>as_path = segment_path (fst (last segs)),
               as_len_bytes = length (segment_bytes crc (last segs))\<rparr>)"

definition state_of :: "(bytes \<Rightarrow> u32) \<Rightarrow> segment list \<Rightarrow> local_wal_state" where
  "state_of crc segs = \<lparr>lw_bounds = \<lparr>pruned_through = base_of segs, last_durable = durable_of segs\<rparr>,
    lw_active = active_of crc segs\<rparr>"

definition wf_segs :: "(bytes \<Rightarrow> u32) \<Rightarrow> segment list \<Rightarrow> bool" where
  "wf_segs crc segs \<longleftrightarrow> chain crc (base_of segs + 1) segs \<and> (segs \<noteq> [] \<longrightarrow> 0 < fst (hd segs))"

lemma log_of_simps [simp]: "log_of [] = []" "log_of (s # segs) = snd s @ log_of segs"
  "log_of (segs @ segs') = log_of segs @ log_of segs'"
  by (simp_all add: log_of_def)

lemma chain_append:
  "chain crc e (segs @ segs') \<longleftrightarrow> chain crc e segs \<and>
    (segs' \<noteq> [] \<longrightarrow> (\<forall>s \<in> set segs. snd s \<noteq> [])) \<and> chain crc (e + length (log_of segs)) segs'"
  by (induction segs arbitrary: e) (auto simp: add.assoc)

lemma chain_log: "chain crc e segs \<Longrightarrow> consecutive e (log_of segs) \<and> list_all wf_record (log_of segs)"
  by (induction segs arbitrary: e) auto

lemma chain_total: "chain crc e segs \<Longrightarrow> segs \<noteq> [] \<Longrightarrow> e + length (log_of segs) \<le> u64_max"
proof (induction segs arbitrary: e)
  case (Cons s segs)
  then show ?case by (cases "segs = []") (auto simp flip: add.assoc)
qed simp

lemma fold_scans:
  "chain crc (d + 1) segs \<Longrightarrow>
    foldl (\<lambda>(durable, active) scan.
      (if ss_records scan = [] then durable else wrec_seq (last (ss_records scan)),
       Some \<lparr>as_path = ss_path scan, as_len_bytes = ss_len_bytes scan\<rparr>)) (d, a) (map (scan_of crc) segs)
    = (d + length (log_of segs), if segs = [] then a else active_of crc segs)"
proof (induction segs arbitrary: d a)
  case (Cons s segs)
  let ?d = "d + length (snd s)"
  have "(if snd s = [] then d else wrec_seq (last (snd s))) = ?d"
    using Cons.prems consecutive_last [of "d + 1" "snd s"] by auto
  moreover have "chain crc (?d + 1) segs" using Cons.prems by simp
  ultimately show ?case
    using Cons.IH [of ?d] by (auto simp: scan_of_def active_of_def)
qed simp

lemma scan_segments_ok:
  assumes "represents crc dir segs torn" "wf_segs crc segs" "torn_tail crc torn"
  shows "scan_segments crc io_ok dir = (repaired crc dir segs torn, Inr (map (scan_of crc) segs))"
proof -
  let ?e = "base_of segs + 1"
  obtain es where es: "segment_entries io_ok dir = Inr es"
    "sort_key fst es = map (\<lambda>s. (fst s, segment_path (fst s))) segs"
    using sorted_segment_entries [of crc dir segs torn ?e] assms by (auto simp: wf_segs_def)
  have "(case sort_key fst es of [] \<Rightarrow> 1 | (f, _) # _ \<Rightarrow> f) = ?e"
    using assms(2) es(2) by (cases segs) (auto simp: wf_segs_def base_of_def)
  moreover have "scan_entries crc io_ok dir ?e (map (\<lambda>s. (fst s, segment_path (fst s))) segs) =
      (repaired crc dir segs torn, Inr (map (scan_of crc) segs))"
    using assms represents_files [OF assms(1)] by (intro scan_entries_chain) (auto simp: wf_segs_def)
  ultimately show ?thesis using es by (simp add: scan_segments_def Let_def)
qed

lemma scan_wal_dir_ok:
  assumes "represents crc dir segs torn" "wf_segs crc segs" "torn_tail crc torn"
  shows "scan_wal_dir crc io_ok dir = (repaired crc dir segs torn, Inr (state_of crc segs))"
proof -
  have "(case map (scan_of crc) segs of [] \<Rightarrow> Inr 0 | scan # _ \<Rightarrow> previous_seq_before (ss_first_seq scan))
      = (Inr (base_of segs) :: (server_error, wal_seq) result)"
    using assms(2) by (cases segs) (auto simp: wf_segs_def base_of_def scan_of_def)
  moreover have "chain crc (base_of segs + 1) segs" using assms(2) by (simp add: wf_segs_def)
  ultimately show ?thesis
    using scan_segments_ok [OF assms] fold_scans [of crc "base_of segs" segs None]
    by (auto simp: scan_wal_dir_def new_wal_bounds_def state_of_def durable_of_def active_of_def Let_def)
qed

section \<open>The invariant of an open log\<close>

definition wal_inv :: "(bytes \<Rightarrow> u32) \<Rightarrow> local_export_wal \<Rightarrow> segment list \<Rightarrow> bool" where
  "wal_inv crc w segs \<longleftrightarrow> wf_segs crc segs \<and> represents crc (lx_dir w) segs [] \<and>
    lx_state w = state_of crc segs \<and> SEGMENT_HEADER_LEN < lx_segment_target_bytes w"

definition wal_room :: "local_export_wal \<Rightarrow> bool" where
  "wal_room w \<longleftrightarrow> last_durable (wal_bounds_of w) + 2 \<le> u64_max \<and>
    (case lw_active (lx_state w) of None \<Rightarrow> True
     | Some a \<Rightarrow> as_len_bytes a + 2 * (RECORD_HEADER_LEN + u32_max) \<le> u64_max)"

definition wf_request :: "wal_request \<Rightarrow> bool" where
  "wf_request q \<longleftrightarrow> wq_data q \<noteq> [] \<and> length (wq_data q) = br_len (wq_range q) \<and>
    br_len (wq_range q) \<le> u32_max \<and> br_start (wq_range q) \<le> u64_max"

lemma torn_tail_Nil [simp]: "torn_tail crc []"
  by (simp add: torn_tail_def)

lemma repaired_Nil [simp]: "repaired crc dir segs [] = dir"
  by (simp add: repaired_def)

lemma state_of_sel [simp]:
  "pruned_through (lw_bounds (state_of crc segs)) = base_of segs"
  "last_durable (lw_bounds (state_of crc segs)) = durable_of segs"
  "lw_active (state_of crc segs) = active_of crc segs"
  by (simp_all add: state_of_def)

lemma durable_after: "wf_segs crc segs \<Longrightarrow> base_of segs + 1 + length (log_of segs) = durable_of segs + 1"
  by (simp add: durable_of_def)

lemma open_recovers:
  assumes "represents crc dir segs torn" "wf_segs crc segs" "torn_tail crc torn"
    and "SEGMENT_HEADER_LEN < target"
  shows "\<exists>dir' w. open_local_wal crc io_ok dir target = (dir', Inr w) \<and> lx_dir w = dir' \<and>
    wal_inv crc w segs"
  using scan_wal_dir_ok [OF assms(1-3)] represents_repaired [OF assms(1)] assms
  by (auto simp: open_local_wal_def wal_inv_def wf_segs_def)

section \<open>Append\<close>

lemma represents_add:
  assumes "represents crc dir segs []" "chain crc e (segs @ [seg])"
  shows "represents crc (put_file dir (segment_path (fst seg)) (segment_bytes crc seg)) (segs @ [seg]) []"
proof -
  have "map_of (map (segment_file crc) segs) (segment_path (fst seg)) = None"
    using chain_snoc_fresh [OF assms(2)] by (intro map_of_segment_file_None) auto
  then show ?thesis
    using assms(1) by (auto simp: represents_def segment_files_clean map_of_snoc_fresh
        simp del: map_of_append)
qed

lemma represents_replace_last:
  assumes "represents crc dir (segs @ [(f, rs)]) []" "chain crc e (segs @ [(f, rs)])"
  shows "represents crc (put_file dir (segment_path f) (segment_bytes crc (f, rs'))) (segs @ [(f, rs')]) []"
proof -
  have "map_of (map (segment_file crc) segs) (segment_path f) = None"
    using chain_snoc_fresh [OF assms(2)] by (intro map_of_segment_file_None) auto
  then show ?thesis
    using assms(1) by (auto simp: represents_def segment_files_clean map_of_snoc_fresh
        simp del: map_of_append)
qed

lemma chain_new_segment:
  assumes "wf_segs crc segs" "\<forall>s \<in> set segs. snd s \<noteq> []" "durable_of segs + 1 \<le> u64_max"
  shows "wf_segs crc (segs @ [(durable_of segs + 1, [])])"
proof -
  have "base_of (segs @ [(durable_of segs + 1, [])]) = base_of segs"
    using assms by (cases segs) (auto simp: base_of_def durable_of_def)
  moreover have "length (segment_bytes crc (durable_of segs + 1, [])) + RECORD_HEADER_LEN + u32_max \<le> u64_max"
    by (simp add: segment_bytes_def SEGMENT_HEADER_LEN_def RECORD_HEADER_LEN_def u32_max_def u64_max_def)
  ultimately show ?thesis
    using assms by (cases segs) (auto simp: wf_segs_def chain_append durable_of_def)
qed

lemma ensure_active_segment_ok:
  assumes inv: "wal_inv crc w segs" and room: "wal_room w"
  shows "\<exists>w' segs'. ensure_active_segment crc io_ok w = (w', Inr ()) \<and> wal_inv crc w' segs' \<and>
    wal_room w' \<and> log_of segs' = log_of segs \<and> base_of segs' = base_of segs \<and> segs' \<noteq> []"
proof (cases "case active_of crc segs of None \<Rightarrow> True
    | Some a \<Rightarrow> lx_segment_target_bytes w \<le> as_len_bytes a")
  case False
  then have "segs \<noteq> []" by (auto simp: active_of_def)
  with False inv room show ?thesis
    by (intro exI [of _ w] exI [of _ segs])
      (auto simp: ensure_active_segment_def wal_inv_def wal_room_def wal_bounds_of_def split: option.splits)
next
  case True
  let ?s = "durable_of segs + 1" and ?new = "segs @ [(durable_of segs + 1, [])]"
  from inv room have wf: "wf_segs crc segs" "durable_of segs + 2 \<le> u64_max"
    and rep: "represents crc (lx_dir w) segs []" and st: "lx_state w = state_of crc segs"
    by (auto simp: wal_inv_def wal_room_def wal_bounds_of_def)
  have ne: "\<forall>s \<in> set segs. snd s \<noteq> []"
  proof (cases segs rule: rev_cases)
    case (snoc ss l)
    then have "snd l \<noteq> []"
      using True inv by (auto simp: active_of_def wal_inv_def segment_bytes_def)
    with snoc wf show ?thesis by (auto simp: wf_segs_def chain_append)
  qed simp
  have wf': "wf_segs crc ?new" using chain_new_segment [OF wf(1) ne] wf(2) by simp
  then have ch: "chain crc (base_of ?new + 1) ?new" by (simp add: wf_segs_def)
  have base: "base_of ?new = base_of segs"
    by (cases segs) (auto simp: base_of_def durable_of_def)
  have "file_bytes (lx_dir w) (segment_path ?s) = None"
    using rep map_of_segment_file_None [of segs ?s crc] chain_snoc_fresh [OF ch]
    by (simp add: represents_def file_bytes_def segment_files_clean)
  moreover have "represents crc (put_file (lx_dir w) (segment_path ?s) (encode_segment_header crc ?s)) ?new []"
    using represents_add [OF rep ch] by (simp add: segment_bytes_def)
  moreover have "state_of crc ?new = (state_of crc segs)\<lparr>lw_active :=
      Some \<lparr>as_path = segment_path ?s, as_len_bytes = SEGMENT_HEADER_LEN\<rparr>\<rparr>"
    using base by (simp add: state_of_def active_of_def segment_bytes_def durable_of_def)
  ultimately show ?thesis
    using True inv wf wf' st base
    by (intro exI [of _ "w\<lparr>lx_dir := put_file (lx_dir w) (segment_path ?s) (encode_segment_header crc ?s),
          lx_state := state_of crc ?new\<rparr>"] exI [of _ ?new])
      (auto simp: ensure_active_segment_def wal_inv_def write_new_segment_def Let_def wal_room_def
        wal_bounds_of_def active_of_def durable_of_def segment_bytes_def SEGMENT_HEADER_LEN_def
        RECORD_HEADER_LEN_def u32_max_def u64_max_def)
qed

lemma wal_append_last:
  assumes inv: "wal_inv crc w segs" and room: "wal_room w" and "segs \<noteq> []" and q: "wf_request q"
  defines "r \<equiv> \<lparr>wrec_seq = durable_of segs + 1, wrec_range = wq_range q, wrec_data = wq_data q\<rparr>"
  defines "segs' \<equiv> butlast segs @ [(fst (last segs), snd (last segs) @ [r])]"
  shows "wf_segs crc segs'" "log_of segs' = log_of segs @ [r]" "base_of segs' = base_of segs"
    "file_bytes (lx_dir w) (segment_path (fst (last segs))) = Some (segment_bytes crc (last segs))"
    "represents crc (put_file (lx_dir w) (segment_path (fst (last segs)))
      (segment_bytes crc (last segs) @ encode_record crc r)) segs' []"
proof -
  obtain ss f rs where segs: "segs = ss @ [(f, rs)]"
    using assms(3) by (metis prod.exhaust rev_exhaust)
  from inv have wf: "wf_segs crc segs" and rep: "represents crc (lx_dir w) segs []"
    and ch: "chain crc (base_of segs + 1) segs"
    by (auto simp: wal_inv_def wf_segs_def)
  show log: "log_of segs' = log_of segs @ [r]" by (simp add: segs'_def segs)
  show base: "base_of segs' = base_of segs"
    by (cases ss) (auto simp: segs'_def segs base_of_def)
  have bytes: "segment_bytes crc (last segs) @ encode_record crc r = segment_bytes crc (f, rs @ [r])"
    by (simp add: segs segment_bytes_def)
  have "wf_record r" using q room inv
    by (auto simp: r_def wf_record_def wf_request_def wal_room_def wal_bounds_of_def wal_inv_def)
  moreover have "durable_of segs + 2 \<le> u64_max"
      "length (segment_bytes crc (f, rs)) + 2 * (RECORD_HEADER_LEN + u32_max) \<le> u64_max"
    using room inv by (auto simp: wal_room_def wal_bounds_of_def wal_inv_def segs active_of_def)
  moreover have "length (wq_data q) \<le> u32_max" using q by (simp add: wf_request_def)
  moreover have "durable_of segs + 1 = base_of segs + 1 + length (log_of ss) + length rs"
    by (simp add: durable_of_def segs)
  moreover obtain b where b: "base_of segs = b" by blast
  ultimately have "chain crc (b + 1) segs'"
    using ch by (auto simp: segs'_def segs chain_append segment_bytes_def r_def)
  then show "wf_segs crc segs'"
    using wf by (cases ss) (auto simp: wf_segs_def base b, auto simp: segs'_def segs)
  show "file_bytes (lx_dir w) (segment_path (fst (last segs))) = Some (segment_bytes crc (last segs))"
    using represents_files [OF rep ch] by (simp add: segs segment_files_clean)
  show "represents crc (put_file (lx_dir w) (segment_path (fst (last segs)))
      (segment_bytes crc (last segs) @ encode_record crc r)) segs' []"
    unfolding bytes using represents_replace_last [of crc "lx_dir w" ss f rs _ "rs @ [r]"] rep ch
    by (simp add: segs segs'_def)
qed

lemma wal_append_refines:
  assumes inv: "wal_inv crc w segs" and room: "wal_room w" and q: "wf_request q"
  defines "r \<equiv> \<lparr>wrec_seq = durable_of segs + 1, wrec_range = wq_range q, wrec_data = wq_data q\<rparr>"
  shows "\<exists>w' segs'. wal_append crc io_ok w q = (w', Inr r) \<and> wal_inv crc w' segs' \<and>
    log_of segs' = log_of segs @ [r] \<and> base_of segs' = base_of segs"
proof -
  obtain w1 segs1 where e: "ensure_active_segment crc io_ok w = (w1, Inr ())" and inv1: "wal_inv crc w1 segs1"
    and room1: "wal_room w1" and same: "log_of segs1 = log_of segs" "base_of segs1 = base_of segs"
    and ne: "segs1 \<noteq> []"
    using ensure_active_segment_ok [OF inv room] by (elim exE conjE) (rule that)
  have d: "durable_of segs1 = durable_of segs" by (simp add: durable_of_def same)
  define segs2 where "segs2 = butlast segs1 @ [(fst (last segs1), snd (last segs1) @ [r])]"
  note step = wal_append_last [OF inv1 room1 ne q, unfolded d, folded r_def, folded segs2_def]
  let ?p = "segment_path (fst (last segs1))"
  let ?dir = "put_file (lx_dir w1) ?p (segment_bytes crc (last segs1) @ encode_record crc r)"
  have st: "lx_state w1 = state_of crc segs1" using inv1 by (simp add: wal_inv_def)
  have dur2: "durable_of segs2 = durable_of segs + 1"
    by (simp add: durable_of_def step same)
  have "state_of crc segs2 = \<lparr>lw_bounds = \<lparr>pruned_through = base_of segs1, last_durable = durable_of segs + 1\<rparr>,
      lw_active = Some \<lparr>as_path = ?p, as_len_bytes = length (segment_bytes crc (last segs1))
        + length (encode_record crc r)\<rparr>\<rparr>"
    by (simp add: state_of_def step dur2 active_of_def) (simp add: segs2_def segment_bytes_def)
  moreover have "durable_of segs < u64_max"
    using room inv by (auto simp: wal_room_def wal_bounds_of_def wal_inv_def)
  moreover have rec: "record_from_request (Suc (durable_of segs)) q = Inr r"
    by (simp add: record_from_request_def r_def)
  ultimately have "wal_append crc io_ok w q = (w1\<lparr>lx_dir := ?dir, lx_state := state_of crc segs2\<rparr>, Inr r)"
    using ne by (simp add: wal_append_def e st d rec active_of_def step(4) Let_def state_of_def)
  moreover have "wal_inv crc (w1\<lparr>lx_dir := ?dir, lx_state := state_of crc segs2\<rparr>) segs2"
    using inv1 step by (simp add: wal_inv_def)
  ultimately show ?thesis using step(2,3) same by auto
qed

section \<open>Replay\<close>

lemma consecutive_ordered: "consecutive e rs \<Longrightarrow> p < e \<Longrightarrow> replay_ordered p (filter P rs)"
proof (induction rs arbitrary: e p)
  case (Cons r rs)
  then show ?case using Cons.IH [of "Suc e" p] Cons.IH [of "Suc e" e] by auto
qed simp

lemma load_records_ok: "wal_inv crc w segs \<Longrightarrow> load_records crc io_ok w = (w, Inr (log_of segs))"
  using scan_segments_ok [of crc "lx_dir w" segs "[]"]
  by (simp add: wal_inv_def load_records_def log_of_def comp_def scan_of_def)

lemma replay_range_refines:
  assumes "wal_inv crc w segs" "base_of segs \<le> after" "after \<le> through" "through \<le> durable_of segs"
  shows "replay_range crc io_ok w after through =
    (w, Inr (filter (\<lambda>r. after < wrec_seq r \<and> wrec_seq r \<le> through) (log_of segs)))"
proof -
  have "consecutive (base_of segs + 1) (log_of segs)"
    using assms(1) chain_log by (auto simp: wal_inv_def wf_segs_def)
  then have "replay_ordered 0 (filter P (log_of segs))" for P
    by (rule consecutive_ordered) simp
  moreover have "lx_state w = state_of crc segs" using assms(1) by (simp add: wal_inv_def)
  ultimately show ?thesis
    using assms by (simp add: replay_range_def validate_replay_range_def wal_bounds_of_def
        load_records_ok replay_from_records_def)
qed

section \<open>Prune\<close>

definition seg_end :: "segment \<Rightarrow> wal_seq" where
  "seg_end seg = fst seg + length (snd seg) - 1"

lemma max_seq_scan_of:
  assumes "consecutive (fst seg) (snd seg)" "0 < fst seg"
  shows "max_seq (scan_of crc seg) = Inr (seg_end seg)"
  using assms consecutive_last [of "fst seg" "snd seg"]
  by (auto simp: max_seq_def scan_of_def seg_end_def)

lemma prune_segments_ok:
  assumes "\<forall>s \<in> set ss. consecutive (fst s) (snd s) \<and> 0 < fst s \<and> segment_path (fst s) \<noteq> p"
  shows "prune_segments crc io_ok seq (Some p) (map (scan_of crc) ss) w n c =
    (w\<lparr>lx_dir := foldl drop_file (lx_dir w)
        (map (\<lambda>s. segment_path (fst s)) (filter (\<lambda>s. seg_end s \<le> seq) ss))\<rparr>,
     Inr (n + length (filter (\<lambda>s. seg_end s \<le> seq) ss), c \<or> filter (\<lambda>s. seg_end s \<le> seq) ss \<noteq> []))"
  using assms
proof (induction ss arbitrary: w n c)
  case (Cons s ss)
  have "max_seq (scan_of crc s) = Inr (seg_end s)" "ss_path (scan_of crc s) = segment_path (fst s)"
    "segment_path (fst s) \<noteq> p"
    using Cons.prems max_seq_scan_of [of s crc] by (auto simp: scan_of_def)
  then show ?case using Cons by simp
qed simp

lemma prune_segments_skip_last:
  "ss_path l = p \<Longrightarrow> prune_segments crc io_ok seq (Some p) (scans @ [l]) w n c =
    prune_segments crc io_ok seq (Some p) scans w n c"
proof (induction scans arbitrary: w n c)
  case (Cons s ss)
  then show ?case by (cases "max_seq s") auto
qed simp

lemma drop_files:
  "map_of (foldl drop_file dir ns) n = (if n \<in> set ns then None else map_of dir n)"
  "distinct (map fst dir) \<Longrightarrow> distinct (map fst (foldl drop_file dir ns))"
  by (induction ns arbitrary: dir) auto

lemma chain_ends:
  assumes "chain crc e segs" "0 < e" "s \<in> set segs"
  shows "e \<le> seg_end s + 1" "consecutive (fst s) (snd s)" "0 < fst s"
    "seg_end s + 1 \<le> e + length (log_of segs)"
  using assms by (induction segs arbitrary: e) (fastforce simp: seg_end_def)+

lemma chain_filter_drop:
  assumes "chain crc e ss" "0 < e"
  shows "\<exists>k. filter (\<lambda>s. seg_end s \<le> seq) ss = take k ss"
  using assms
proof (induction ss arbitrary: e)
  case (Cons s ss)
  show ?case
  proof (cases "seq < seg_end s")
    case True
    have "seq < seg_end t" if "t \<in> set ss" for t
    proof -
      have "chain crc (e + length (snd s)) ss" "e = fst s" "snd s \<noteq> []"
        using Cons.prems that by auto
      then have "e + length (snd s) \<le> seg_end t + 1"
        using chain_ends(1) [of crc "e + length (snd s)" ss t] that Cons.prems by auto
      with True \<open>e = fst s\<close> \<open>snd s \<noteq> []\<close> show ?thesis by (auto simp: seg_end_def)
    qed
    then have "filter (\<lambda>s. seg_end s \<le> seq) (s # ss) = take 0 (s # ss)"
      using True by (auto simp: filter_empty_conv not_le)
    then show ?thesis by blast
  next
    case False
    obtain k where "filter (\<lambda>s. seg_end s \<le> seq) ss = take k ss"
      using Cons.IH [of "e + length (snd s)"] Cons.prems by auto
    then show ?thesis using False by (intro exI [of _ "Suc k"]) auto
  qed
qed simp

lemma represents_drop_prefix:
  assumes "represents crc dir (xs @ ys) []" "chain crc e (xs @ ys)"
  shows "represents crc (foldl drop_file dir (map (\<lambda>s. segment_path (fst s)) xs)) ys []"
proof -
  have d: "distinct (map fst (xs @ ys))"
    using chain_sorted [OF assms(2)] strict_sorted_iff by blast
  have "map_of (map (segment_file crc) ys) n = None" if "n \<in> (\<lambda>s. segment_path (fst s)) ` set xs" for n
    using that d by (force simp: map_of_eq_None_iff)
  moreover have "map_of (map (segment_file crc) xs) n = None" if "n \<notin> (\<lambda>s. segment_path (fst s)) ` set xs" for n
    using that by (force simp: map_of_eq_None_iff)
  ultimately show ?thesis
    using assms(1) by (auto simp: represents_def segment_files_clean drop_files map_add_def)
qed

lemma wf_segs_suffix:
  assumes "wf_segs crc (xs @ ys)" "ys \<noteq> []"
  shows "wf_segs crc ys" "base_of ys = base_of (xs @ ys) + length (log_of xs)"
proof -
  let ?e = "base_of (xs @ ys) + 1 + length (log_of xs)"
  have "chain crc ?e ys" using assms(1) by (simp add: wf_segs_def chain_append)
  moreover obtain y zs where "ys = y # zs" using assms(2) by (cases ys) auto
  ultimately show "base_of ys = base_of (xs @ ys) + length (log_of xs)" "wf_segs crc ys"
    by (auto simp: wf_segs_def base_of_def)
qed

lemma chain_last_end:
  assumes "chain crc e (xs @ [x])" "0 < e"
  shows "seg_end x + 1 = e + length (log_of (xs @ [x]))"
  using assms by (auto simp: chain_append seg_end_def)

text \<open>The outcome of the removal loop: the chain without a prefix of segments.\<close>

lemma prune_loop_ok:
  assumes inv: "wal_inv crc w (ss @ [l])"
  obtains k where "prune_segments crc io_ok seq (Some (segment_path (fst l)))
      (map (scan_of crc) (ss @ [l])) w 0 False =
      (w\<lparr>lx_dir := foldl drop_file (lx_dir w) (map (\<lambda>s. segment_path (fst s)) (take k ss))\<rparr>,
       Inr (length (take k ss), take k ss \<noteq> []))"
    "represents crc (foldl drop_file (lx_dir w) (map (\<lambda>s. segment_path (fst s)) (take k ss)))
      (drop k ss @ [l]) []"
    "take k ss = filter (\<lambda>s. seg_end s \<le> seq) ss"
proof -
  from inv have ch: "chain crc (base_of (ss @ [l]) + 1) (ss @ [l])"
    and rep: "represents crc (lx_dir w) (ss @ [l]) []"
    by (auto simp: wal_inv_def wf_segs_def)
  obtain k where k: "filter (\<lambda>s. seg_end s \<le> seq) ss = take k ss"
    using chain_filter_drop [of crc "base_of (ss @ [l]) + 1" ss seq] ch by (auto simp: chain_append)
  have "\<forall>s \<in> set ss. consecutive (fst s) (snd s) \<and> 0 < fst s \<and> segment_path (fst s) \<noteq> segment_path (fst l)"
    using chain_ends [OF ch] chain_snoc_fresh [OF ch] by auto
  from prune_segments_ok [OF this, of crc seq w 0 False]
  have "prune_segments crc io_ok seq (Some (segment_path (fst l))) (map (scan_of crc) (ss @ [l])) w 0 False =
      (w\<lparr>lx_dir := foldl drop_file (lx_dir w) (map (\<lambda>s. segment_path (fst s)) (take k ss))\<rparr>,
       Inr (length (take k ss), take k ss \<noteq> []))"
    by (simp add: k prune_segments_skip_last scan_of_def)
  moreover have eq: "take k ss @ (drop k ss @ [l]) = ss @ [l]"
    by (metis append.assoc append_take_drop_id)
  have "represents crc (foldl drop_file (lx_dir w) (map (\<lambda>s. segment_path (fst s)) (take k ss)))
      (drop k ss @ [l]) []"
    using represents_drop_prefix [of crc "lx_dir w" "take k ss" "drop k ss @ [l]", unfolded eq, OF rep ch] .
  ultimately show thesis using k by (intro that) auto
qed

lemma rotate_active_ok:
  assumes inv: "wal_inv crc w segs" and "segs = ss @ [l]" "snd l \<noteq> []" "seg_end l \<le> seq"
    and room: "durable_of segs + 1 \<le> u64_max"
    and dir: "represents crc (lx_dir w1) [l] []" and st: "lx_state w1 = lx_state w"
    and t: "lx_segment_target_bytes w1 = lx_segment_target_bytes w"
  defines "new \<equiv> (durable_of segs + 1, []) :: segment"
  shows "\<exists>w2. rotate_active crc io_ok seq (scan_of crc l) w1 n c = (w2, Inr (n + 1, True)) \<and>
    represents crc (lx_dir w2) [new] [] \<and> wf_segs crc [new] \<and> base_of [new] = durable_of segs \<and>
    lx_segment_target_bytes w2 = lx_segment_target_bytes w"
proof -
  from inv have wf: "wf_segs crc segs" and ch: "chain crc (base_of segs + 1) (ss @ [l])"
    by (auto simp: wal_inv_def wf_segs_def assms(2))
  let ?s = "durable_of segs + 1"
  have "wf_segs crc [l]" and base: "base_of [l] = base_of segs + length (log_of ss)"
    using wf_segs_suffix [of crc ss "[l]"] wf by (auto simp: assms(2))
  have dl: "durable_of [l] = durable_of segs"
    by (simp add: durable_of_def base assms(2))
  have "wf_segs crc ([l] @ [new])"
    using chain_new_segment [OF \<open>wf_segs crc [l]\<close>] room assms(3) by (simp add: new_def dl)
  then have ch2: "chain crc (base_of ([l] @ [new]) + 1) ([l] @ [new])" and wfn: "wf_segs crc [new]"
    using wf_segs_suffix [of crc "[l]" "[new]"] by (auto simp: wf_segs_def)
  have fresh: "file_bytes (lx_dir w1) (segment_path ?s) = None"
    using dir chain_snoc_fresh [OF ch2] by (auto simp: represents_def file_bytes_def segment_files_clean new_def)
  let ?d2 = "put_file (lx_dir w1) (segment_path ?s) (encode_segment_header crc ?s)"
  have "represents crc ?d2 ([l] @ [new]) []"
    using represents_add [OF dir ch2] by (simp add: new_def segment_bytes_def)
  then have rep: "represents crc (drop_file ?d2 (segment_path (fst l))) [new] []"
    using represents_drop_prefix [OF _ ch2] by simp
  have m: "max_seq (scan_of crc l) = Inr (seg_end l)"
    using chain_ends [OF ch] by (intro max_seq_scan_of) auto
  have "last_durable (wal_bounds_of w1) = durable_of segs"
    using inv st by (simp add: wal_inv_def wal_bounds_of_def)
  with assms(3,4) m fresh room
  have "rotate_active crc io_ok seq (scan_of crc l) w1 n c =
    (w1\<lparr>lx_dir := drop_file ?d2 (segment_path (fst l)), lx_state := (lx_state w1)\<lparr>lw_active :=
      Some \<lparr>as_path = segment_path ?s, as_len_bytes = SEGMENT_HEADER_LEN\<rparr>\<rparr>\<rparr>, Inr (n + 1, True))"
    by (simp add: rotate_active_def write_new_segment_def Let_def) (simp add: scan_of_def)
  then show ?thesis using rep wfn t by (auto simp: base_of_def new_def)
qed

lemma sync_and_reload_ok:
  assumes "represents crc (lx_dir w) segs []" "wf_segs crc segs"
    and "SEGMENT_HEADER_LEN < lx_segment_target_bytes w"
  shows "\<exists>w'. sync_and_reload_wal_state crc io_ok w = (w', Inr ()) \<and> wal_inv crc w' segs"
  using scan_wal_dir_ok [OF assms(1,2)] assms
  by (auto simp: sync_and_reload_wal_state_def wal_inv_def)

definition pruned_to :: "segment list \<Rightarrow> segment list \<Rightarrow> wal_seq \<Rightarrow> bool" where
  "pruned_to segs segs' seq \<longleftrightarrow> (\<exists>k. log_of segs' = drop k (log_of segs) \<and> k \<le> length (log_of segs) \<and>
    base_of segs' = base_of segs + k \<and> base_of segs' \<le> max (base_of segs) seq)"

lemma find_append_last: "\<forall>x \<in> set xs. \<not> P x \<Longrightarrow> P y \<Longrightarrow> find P (xs @ [y]) = Some y"
  by (induction xs) auto

lemma pruned_to_suffix:
  assumes "wf_segs crc (xs @ ys)" "ys \<noteq> []" "\<forall>s \<in> set xs. seg_end s \<le> seq"
  shows "pruned_to (xs @ ys) ys seq"
proof -
  have "base_of ys \<le> max (base_of (xs @ ys)) seq"
  proof (cases xs rule: rev_cases)
    case (snoc zs z)
    then have "seg_end z + 1 = base_of (xs @ ys) + 1 + length (log_of xs)"
      using chain_last_end [of crc "base_of (xs @ ys) + 1" zs z] assms(1)
      by (simp add: wf_segs_def chain_append)
    then show ?thesis using assms(3) wf_segs_suffix(2) [OF assms(1,2)] by (simp add: snoc)
  qed simp
  then show ?thesis
    using wf_segs_suffix(2) [OF assms(1,2)]
    by (auto simp: pruned_to_def intro!: exI [of _ "length (log_of xs)"])
qed

lemma prune_through_refines:
  assumes inv: "wal_inv crc w segs" and seq: "seq \<le> durable_of segs"
    and room: "durable_of segs + 1 \<le> u64_max"
  shows "\<exists>w' segs' n. prune_through crc io_ok w seq =
      (w', Inr \<lparr>pr_requested_through = seq, pr_pruned_through = base_of segs', pr_removed_segments = n\<rparr>) \<and>
    wal_inv crc w' segs' \<and> pruned_to segs segs' seq"
proof (cases segs rule: rev_cases)
  case Nil
  then show ?thesis using inv seq scan_segments_ok [of crc "lx_dir w" segs "[]"]
    by (auto simp: wal_inv_def prune_through_def wal_bounds_of_def active_of_def pruned_to_def)
next
  case (snoc ss l)
  from inv have wf: "wf_segs crc segs" and rep: "represents crc (lx_dir w) segs []"
    and st: "lx_state w = state_of crc segs" and tgt: "SEGMENT_HEADER_LEN < lx_segment_target_bytes w"
    and ch: "chain crc (base_of segs + 1) (ss @ [l])"
    by (auto simp: wal_inv_def wf_segs_def snoc)
  obtain k where k: "prune_segments crc io_ok seq (Some (segment_path (fst l))) (map (scan_of crc) segs) w 0 False =
      (w\<lparr>lx_dir := foldl drop_file (lx_dir w) (map (\<lambda>s. segment_path (fst s)) (take k ss))\<rparr>,
       Inr (length (take k ss), take k ss \<noteq> []))" (is "_ = (?w1, _)")
    and rep1: "represents crc (foldl drop_file (lx_dir w) (map (\<lambda>s. segment_path (fst s)) (take k ss)))
      (drop k ss @ [l]) []" and flt: "take k ss = filter (\<lambda>s. seg_end s \<le> seq) ss"
    using prune_loop_ok [of crc w ss l seq] inv by (auto simp: snoc)
  let ?c = "take k ss \<noteq> []" and ?s1 = "drop k ss @ [l]"
  have split: "segs = take k ss @ ?s1" by (metis append.assoc append_take_drop_id snoc)
  have find: "find (\<lambda>scan. Some (ss_path scan) = Some (segment_path (fst l))) (map (scan_of crc) segs) =
      Some (scan_of crc l)"
    using chain_snoc_fresh [OF ch] by (auto simp: snoc scan_of_def intro!: find_append_last)
  have eq: "prune_through crc io_ok w seq =
      then_st (rotate_active crc io_ok seq (scan_of crc l) ?w1 (length (take k ss)) ?c) (\<lambda>w (removed, changed).
        then_st (if changed then sync_and_reload_wal_state crc io_ok w else (w, Inr ()))
          (\<lambda>w _. (w, Inr \<lparr>pr_requested_through = seq,
             pr_pruned_through = pruned_through (wal_bounds_of w), pr_removed_segments = removed\<rparr>)))"
    using scan_segments_ok [OF rep wf] k find seq st
    by (simp add: prune_through_def wal_bounds_of_def active_of_def snoc)
  show ?thesis
  proof (cases "snd l \<noteq> [] \<and> seg_end l \<le> seq")
    case True
    then have all: "take k ss = ss"
      using chain_ends(4) [OF ch] chain_last_end [OF ch] by (force simp: flt filter_id_conv chain_append)
    then obtain w2 where w2: "rotate_active crc io_ok seq (scan_of crc l) ?w1 (length (take k ss)) ?c =
        (w2, Inr (length (take k ss) + 1, True))" "represents crc (lx_dir w2) [(durable_of segs + 1, [])] []"
      "wf_segs crc [(durable_of segs + 1, [])]" "base_of [(durable_of segs + 1, [] :: wal_record list)] = durable_of segs"
      "lx_segment_target_bytes w2 = lx_segment_target_bytes w"
      using rotate_active_ok [OF inv snoc, of seq ?w1 "length (take k ss)" ?c] True room rep1 by auto
    then obtain w3 where w3: "sync_and_reload_wal_state crc io_ok w2 = (w3, Inr ())"
      "wal_inv crc w3 [(durable_of segs + 1, [])]"
      using sync_and_reload_ok [OF w2(2,3)] tgt by auto
    moreover have "pruned_to segs [(durable_of segs + 1, [])] seq"
      using w2(4) True chain_last_end [OF ch] seq
      by (auto simp: pruned_to_def durable_of_def intro!: exI [of _ "length (log_of segs)"])
        (simp add: snoc)
    ultimately show ?thesis using w2(1,4)
      by (intro exI [of _ w3] exI [of _ "[(durable_of segs + 1, [])]"])
        (simp add: eq, simp add: wal_inv_def wal_bounds_of_def)
  next
    case False
    have "consecutive (fst l) (snd l)" "0 < fst l" using chain_ends [OF ch] by auto
    with False have "rotate_active crc io_ok seq (scan_of crc l) ?w1 n c = (?w1, Inr (n, c))" for n c
      using max_seq_scan_of [of l crc] by (auto simp: rotate_active_def scan_of_def)
    moreover have wf1: "wf_segs crc (take k ss @ ?s1)" using wf by (simp only: split [symmetric])
    have "wf_segs crc ?s1" "pruned_to segs ?s1 seq"
      using wf_segs_suffix(1) [OF wf1] pruned_to_suffix [OF wf1, of seq, folded split] flt by auto
    moreover have "\<exists>w'. (if ?c then sync_and_reload_wal_state crc io_ok ?w1 else (?w1, Inr ())) = (w', Inr ()) \<and>
        wal_inv crc w' ?s1"
      using sync_and_reload_ok [of crc ?w1 ?s1] rep1 \<open>wf_segs crc ?s1\<close> tgt inv split by auto
    ultimately show ?thesis
      by (auto simp: eq wal_inv_def wal_bounds_of_def)
  qed
qed

section \<open>The contract of an export's log\<close>

text \<open>
  What the engines rely on, with the log abstracted to its list of records: the laws of
  \<open>append\<close>, \<open>replay_after\<close> and \<open>prune_through\<close> of the trait \<open>ExportWal\<close>.
\<close>

fun append_all :: "('w \<Rightarrow> wal_request \<Rightarrow> 'w \<times> (server_error, wal_record) result) \<Rightarrow> 'w \<Rightarrow> wal_request list
    \<Rightarrow> 'w \<times> (server_error, wal_record list) result" where
  "append_all app w [] = (w, Inr [])"
| "append_all app w (q # qs) =
    then_st (app w q) (\<lambda>w r. then_st (append_all app w qs) (\<lambda>w rs. (w, Inr (r # rs))))"

fun rooms :: "('w \<Rightarrow> wal_request \<Rightarrow> 'w \<times> (server_error, wal_record) result) \<Rightarrow> ('w \<Rightarrow> bool) \<Rightarrow> 'w
    \<Rightarrow> wal_request list \<Rightarrow> bool" where
  "rooms app room w [] \<longleftrightarrow> True"
| "rooms app room w (q # qs) \<longleftrightarrow> room w \<and> wf_request q \<and> rooms app room (fst (app w q)) qs"

lemma consecutive_le: "consecutive e l \<Longrightarrow> r \<in> set l \<Longrightarrow> e \<le> wrec_seq r \<and> wrec_seq r < e + length l"
  by (induction l arbitrary: e) fastforce+

lemma filter_after_log:
  assumes "consecutive (Suc p) l" "consecutive (Suc (p + length l)) rs"
  shows "filter (\<lambda>r. p + length l < wrec_seq r) (l @ rs) = rs"
proof -
  have "filter (\<lambda>r. p + length l < wrec_seq r) l = []"
    using consecutive_le [OF assms(1)] by (fastforce simp: filter_empty_conv)
  moreover have "filter (\<lambda>r. p + length l < wrec_seq r) rs = rs"
    using consecutive_le [OF assms(2)] by (fastforce simp: filter_id_conv)
  ultimately show ?thesis by simp
qed

locale export_wal =
  fixes append :: "'w \<Rightarrow> wal_request \<Rightarrow> 'w \<times> (server_error, wal_record) result"
    and bounds :: "'w \<Rightarrow> wal_bounds"
    and replay :: "'w \<Rightarrow> wal_seq \<Rightarrow> 'w \<times> (server_error, wal_record list) result"
    and prune :: "'w \<Rightarrow> wal_seq \<Rightarrow> 'w \<times> (server_error, wal_prune_result) result"
    and log :: "'w \<Rightarrow> wal_record list"
    and ok :: "'w \<Rightarrow> bool"
    and room :: "'w \<Rightarrow> bool"
  assumes append_law: "ok w \<Longrightarrow> room w \<Longrightarrow> wf_request q \<Longrightarrow> \<exists>w' r. append w q = (w', Inr r) \<and> ok w' \<and>
      log w' = log w @ [r] \<and> wrec_range r = wq_range q \<and> wrec_data r = wq_data q \<and>
      pruned_through (bounds w') = pruned_through (bounds w)"
    and bounds_law: "ok w \<Longrightarrow> consecutive (pruned_through (bounds w) + 1) (log w) \<and>
      last_durable (bounds w) = pruned_through (bounds w) + length (log w)"
    and replay_law: "ok w \<Longrightarrow> pruned_through (bounds w) \<le> a \<Longrightarrow> a \<le> last_durable (bounds w) \<Longrightarrow>
      replay w a = (w, Inr (filter (\<lambda>r. a < wrec_seq r) (log w)))"
    and prune_law: "ok w \<Longrightarrow> room w \<Longrightarrow> a \<le> last_durable (bounds w) \<Longrightarrow> \<exists>w' p k. prune w a = (w', Inr p) \<and> ok w' \<and>
      log w' = drop k (log w) \<and> pruned_through (bounds w') = pruned_through (bounds w) + k \<and>
      pruned_through (bounds w') \<le> max (pruned_through (bounds w)) a \<and>
      last_durable (bounds w') = last_durable (bounds w)"
begin

lemma append_all_log:
  "ok w \<Longrightarrow> rooms append room w qs \<Longrightarrow> \<exists>w' rs. append_all append w qs = (w', Inr rs) \<and> ok w' \<and>
    log w' = log w @ rs \<and> map (\<lambda>r. (wrec_range r, wrec_data r)) rs = map (\<lambda>q. (wq_range q, wq_data q)) qs \<and>
    pruned_through (bounds w') = pruned_through (bounds w)"
proof (induction qs arbitrary: w)
  case (Cons q qs)
  then obtain w1 r where "append w q = (w1, Inr r)" "ok w1" "log w1 = log w @ [r]"
    "wrec_range r = wq_range q" "wrec_data r = wq_data q"
    "pruned_through (bounds w1) = pruned_through (bounds w)"
    using append_law [of w q] by auto
  with Cons.IH [of w1] Cons.prems show ?case by auto
qed simp

lemma append_all_replayed:
  assumes "ok w" "rooms append room w qs"
  shows "\<exists>w' rs. append_all append w qs = (w', Inr rs) \<and> replay w' (last_durable (bounds w)) = (w', Inr rs) \<and>
    map (\<lambda>r. (wrec_range r, wrec_data r)) rs = map (\<lambda>q. (wq_range q, wq_data q)) qs"
proof -
  obtain w' rs where w': "append_all append w qs = (w', Inr rs)" "ok w'" "log w' = log w @ rs"
    "map (\<lambda>r. (wrec_range r, wrec_data r)) rs = map (\<lambda>q. (wq_range q, wq_data q)) qs"
    "pruned_through (bounds w') = pruned_through (bounds w)"
    using append_all_log [OF assms] by auto
  then have "replay w' (last_durable (bounds w)) = (w', Inr rs)"
    using bounds_law [OF assms(1)] bounds_law [OF w'(2)] filter_after_log [of "pruned_through (bounds w)" "log w" rs]
      replay_law [OF w'(2), of "last_durable (bounds w)"] by auto
  with w' show ?thesis by blast
qed

lemma prune_keeps_replay:
  assumes "ok w" "room w" "a \<le> last_durable (bounds w)"
    and "pruned_through (bounds w) \<le> b" "a \<le> b" "b \<le> last_durable (bounds w)"
  shows "\<exists>w' p. prune w a = (w', Inr p) \<and> ok w' \<and> snd (replay w' b) = snd (replay w b)"
proof -
  obtain w' p k where w': "prune w a = (w', Inr p)" "ok w'" "log w' = drop k (log w)"
    "pruned_through (bounds w') = pruned_through (bounds w) + k"
    "pruned_through (bounds w') \<le> max (pruned_through (bounds w)) a"
    "last_durable (bounds w') = last_durable (bounds w)"
    using prune_law [OF assms(1-3)] by blast
  have c: "consecutive (Suc (pruned_through (bounds w))) (take k (log w))"
    using bounds_law [OF assms(1)] consecutive_append [of _ "take k (log w)" "drop k (log w)"] by simp
  have "wrec_seq r \<le> b" if "r \<in> set (take k (log w))" for r
    using consecutive_le [OF c that] w'(4,5) assms(4,5) by auto
  then have "filter (\<lambda>r. b < wrec_seq r) (take k (log w)) = []"
    by (fastforce simp: filter_empty_conv)
  then have "filter (\<lambda>r. b < wrec_seq r) (log w) = filter (\<lambda>r. b < wrec_seq r) (drop k (log w))"
    by (metis append_Nil append_take_drop_id filter_append)
  moreover have "pruned_through (bounds w') \<le> b" using w'(5) assms(4,5) by auto
  ultimately show ?thesis
    using w' assms replay_law [OF assms(1), of b] replay_law [OF w'(2), of b] by auto
qed

end

definition wal_log :: "(bytes \<Rightarrow> u32) \<Rightarrow> local_export_wal \<Rightarrow> wal_record list" where
  "wal_log crc w = (case snd (load_records crc io_ok w) of Inr rs \<Rightarrow> rs | Inl _ \<Rightarrow> [])"

definition wal_ok :: "(bytes \<Rightarrow> u32) \<Rightarrow> local_export_wal \<Rightarrow> bool" where
  "wal_ok crc w \<longleftrightarrow> (\<exists>segs. wal_inv crc w segs)"

lemma wal_log_inv: "wal_inv crc w segs \<Longrightarrow> wal_log crc w = log_of segs"
  by (simp add: wal_log_def load_records_ok)

lemma wal_bounds_inv: "wal_inv crc w segs \<Longrightarrow>
    wal_bounds_of w = \<lparr>pruned_through = base_of segs, last_durable = durable_of segs\<rparr>"
  by (simp add: wal_bounds_of_def wal_inv_def state_of_def)

lemma wal_inv_consecutive: "wal_inv crc w segs \<Longrightarrow> consecutive (base_of segs + 1) (log_of segs)"
  using chain_log by (auto simp: wal_inv_def wf_segs_def)

interpretation local_wal: export_wal "wal_append crc io_ok" wal_bounds_of "replay_after crc io_ok"
  "prune_through crc io_ok" "wal_log crc" "wal_ok crc" wal_room
proof (standard, goal_cases)
  case (1 w q)
  then obtain segs where inv: "wal_inv crc w segs" by (auto simp: wal_ok_def)
  from wal_append_refines [OF inv 1(2,3)] inv show ?case
    by (auto simp: wal_ok_def wal_log_inv wal_bounds_inv)
next
  case (2 w)
  then obtain segs where "wal_inv crc w segs" by (auto simp: wal_ok_def)
  then show ?case using wal_inv_consecutive by (simp add: wal_log_inv wal_bounds_inv durable_of_def)
next
  case (3 w a)
  then obtain segs where inv: "wal_inv crc w segs" by (auto simp: wal_ok_def)
  then have "\<forall>r \<in> set (log_of segs). wrec_seq r \<le> durable_of segs"
    using consecutive_le [OF wal_inv_consecutive [OF inv]] by (fastforce simp: durable_of_def)
  then show ?case using 3 inv replay_range_refines [OF inv, of a "durable_of segs"]
    by (auto simp: replay_after_def wal_bounds_inv wal_log_inv intro!: filter_cong)
next
  case (4 w a)
  then obtain segs where inv: "wal_inv crc w segs" by (auto simp: wal_ok_def)
  then have "a \<le> durable_of segs" "durable_of segs + 1 \<le> u64_max"
    using 4 by (auto simp: wal_bounds_inv wal_room_def)
  from prune_through_refines [OF inv this] inv show ?case
    by (fastforce simp: wal_ok_def wal_log_inv wal_bounds_inv pruned_to_def durable_of_def)
qed

section \<open>An append after a failed sync\<close>

definition sync_fails :: io_env where
  "sync_fails = \<lparr>io_fails = (\<lambda>ctx _. ctx = ''sync WAL segment''), io_written = 0\<rparr>"

lemma scan_after_duplicate:
  assumes "chain crc (fst seg) [seg]" "wf_record r" "wf_record r'"
    and "wrec_seq r = fst seg + length (snd seg)" "wrec_seq r' = wrec_seq r" "wrec_seq r < u64_max"
    and "length (segment_bytes crc seg) + 2 * (RECORD_HEADER_LEN + u32_max) \<le> u64_max"
  shows "scan_records crc (segment_bytes crc seg @ encode_record crc r @ encode_record crc r') newest
      SEGMENT_HEADER_LEN (fst seg) [] = Inl (Wal ''scan WAL segment'')"
proof -
  let ?h = "encode_segment_header crc (fst seg)" and ?rs = "snd seg @ [r]"
  define data where "data = ?h @ frames crc ?rs @ encode_record crc r'"
  define off where "off = length (?h @ frames crc ?rs)"
  have len: "length data \<le> u64_max"
    using assms(2,3,7) by (auto simp: data_def segment_bytes_def wf_record_def)
  have "scan_records crc data newest SEGMENT_HEADER_LEN (fst seg) [] =
      scan_records crc data newest off (fst seg + length ?rs) ?rs"
    using scan_records_frames [of ?rs "fst seg" ?h crc "encode_record crc r'" newest "[]"] assms len
    by (simp add: data_def off_def add.assoc)
  also have "decode_record_at crc data off = Inr (r', off + length (encode_record crc r'))"
    using decode_encode_record [of r' "?h @ frames crc ?rs" crc "[]"] assms(3) len
    by (simp add: data_def off_def)
  moreover have "off < length data" by (simp add: data_def off_def RECORD_HEADER_LEN_def)
  ultimately have "scan_records crc data newest SEGMENT_HEADER_LEN (fst seg) [] =
      Inl (Wal ''scan WAL segment'')"
    using assms(4,5) by (simp add: scan_records.simps [of crc data newest off])
  then show ?thesis by (simp add: data_def segment_bytes_def)
qed

lemma append_active_step:
  fixes q :: wal_request
  assumes st: "lx_state w = state_of crc segs" and "segs \<noteq> []" and room: "wal_room w"
    and few: "length (segment_bytes crc (last segs)) < lx_segment_target_bytes w"
    and bs: "file_bytes (lx_dir w) (segment_path (fst (last segs))) = Some bs"
  defines "r \<equiv> \<lparr>wrec_seq = Suc (durable_of segs), wrec_range = wq_range q, wrec_data = wq_data q\<rparr>"
  defines "dir' \<equiv> put_file (lx_dir w) (segment_path (fst (last segs))) (bs @ encode_record crc r)"
  shows "wal_append crc sync_fails w q = (w\<lparr>lx_dir := dir'\<rparr>, Inl (Io ''sync WAL segment''))"
    "\<exists>w'. wal_append crc io_ok w q = (w', Inr r) \<and> lx_dir w' = dir'"
proof -
  have d: "durable_of segs < u64_max" using room st by (simp add: wal_room_def wal_bounds_of_def)
  have act: "active_of crc segs = Some \<lparr>as_path = segment_path (fst (last segs)),
      as_len_bytes = length (segment_bytes crc (last segs))\<rparr>"
    using assms(2) by (simp add: active_of_def)
  have rec: "record_from_request (Suc (durable_of segs)) q = Inr r"
    by (simp add: record_from_request_def r_def)
  have e: "ensure_active_segment crc io w = (w, Inr ())" for io
    using d few by (simp add: ensure_active_segment_def st act)
  show "wal_append crc sync_fails w q = (w\<lparr>lx_dir := dir'\<rparr>, Inl (Io ''sync WAL segment''))"
    using d bs by (simp add: wal_append_def e st act rec sync_fails_def io_step_def dir'_def Let_def)
  show "\<exists>w'. wal_append crc io_ok w q = (w', Inr r) \<and> lx_dir w' = dir'"
    using d bs by (simp add: wal_append_def e st act rec dir'_def Let_def)
qed

lemma open_duplicate_fails:
  assumes "wf_segs crc [seg]" "represents crc dir [seg] (encode_record crc r @ encode_record crc r')"
    and "wf_record r" "wf_record r'" "wrec_seq r = fst seg + length (snd seg)" "wrec_seq r' = wrec_seq r"
    and "wrec_seq r < u64_max"
    and "length (segment_bytes crc seg) + 2 * (RECORD_HEADER_LEN + u32_max) \<le> u64_max"
  shows "snd (open_local_wal crc io_ok dir target) = Inl (Wal ''scan WAL segment'')"
proof -
  have ch: "chain crc (fst seg) [seg]" "0 < fst seg" using assms(1) by (auto simp: wf_segs_def)
  obtain es where es: "segment_entries io_ok dir = Inr es" "sort_key fst es = [(fst seg, segment_path (fst seg))]"
    using sorted_segment_entries [OF assms(2) ch] by auto
  have fb: "file_bytes dir (segment_path (fst seg)) =
      Some (segment_bytes crc seg @ encode_record crc r @ encode_record crc r')"
    using represents_files [OF assms(2) ch(1)] by simp
  have "decode_segment_header crc (segment_bytes crc seg @ t) = Inr (fst seg)" for t
    using ch by (simp add: segment_bytes_def decode_encode_segment_header)
  then have "scan_segment crc io_ok dir (segment_path (fst seg)) (fst seg) True =
      (dir, Inl (Wal ''scan WAL segment''))"
    using scan_after_duplicate [OF ch(1) assms(3-8)] by (simp add: scan_segment_def fb)
  then show ?thesis
    using es by (simp add: open_local_wal_def scan_wal_dir_def scan_segments_def)
qed

section \<open>Properties\<close>

text \<open>
  C11. Opening the log directory after a crash recovers every complete record: when the
  directory holds a chain of segments whose newest file ends in a torn write (a proper
  prefix of a record frame), the open succeeds, keeps exactly the records written before
  the torn one, and restores the bounds that go with them.
\<close>

theorem wal_open_recovers:
  assumes "represents crc dir segs torn" "wf_segs crc segs" "torn_tail crc torn"
    and "SEGMENT_HEADER_LEN < target"
  shows "\<exists>dir' w. open_local_wal crc io_ok dir target = (dir', Inr w) \<and> wal_ok crc w \<and>
    wal_log crc w = log_of segs \<and>
    wal_bounds_of w = \<lparr>pruned_through = base_of segs, last_durable = durable_of segs\<rparr>"
  using open_recovers [OF assms] by (auto simp: wal_ok_def wal_log_inv wal_bounds_inv)

definition sample_record :: wal_record where
  "sample_record = \<lparr>wrec_seq = 1, wrec_range = new_range 0 1, wrec_data = [7]\<rparr>"

theorem wal_open_recovers_witness:
  "\<exists>dir' w. open_local_wal (\<lambda>_. 0) io_ok
      (segment_files (\<lambda>_. 0) [(1, [sample_record])] (take 5 (encode_record (\<lambda>_. 0) sample_record))) 100 =
      (dir', Inr w) \<and> wal_log (\<lambda>_. 0) w = [sample_record]"
proof -
  have "wf_record sample_record" by (simp add: sample_record_def wf_record_def u64_max_def u32_max_def)
  then have "torn_tail (\<lambda>_. 0) (take 5 (encode_record (\<lambda>_. 0) sample_record))"
    by (auto simp: torn_tail_def RECORD_HEADER_LEN_def intro!: exI [of _ sample_record] exI [of _ 5])
  moreover have "wf_segs (\<lambda>_. 0) [(1, [sample_record])]"
    using \<open>wf_record sample_record\<close>
    by (simp add: wf_segs_def base_of_def sample_record_def segment_bytes_def SEGMENT_HEADER_LEN_def
        RECORD_HEADER_LEN_def u64_max_def u32_max_def)
  ultimately show ?thesis
    using wal_open_recovers [of "\<lambda>_. 0" _ "[(1, [sample_record])]" _ 100]
    by (force simp: represents_def SEGMENT_HEADER_LEN_def)
qed

text \<open>
  C12. Appended writes are durable and replayed in order: appending a list of requests to
  an open log succeeds, and replaying after the sequence number that was durable before
  returns exactly those writes, in the order they were appended.
\<close>

theorem wal_appends_are_replayed:
  assumes "wal_ok crc w" "rooms (wal_append crc io_ok) wal_room w qs"
  shows "\<exists>w' rs. append_all (wal_append crc io_ok) w qs = (w', Inr rs) \<and>
    replay_after crc io_ok w' (last_durable (wal_bounds_of w)) = (w', Inr rs) \<and>
    map (\<lambda>r. (wrec_range r, wrec_data r)) rs = map (\<lambda>q. (wq_range q, wq_data q)) qs"
  by (rule local_wal.append_all_replayed [OF assms])

definition fresh_wal :: local_export_wal where
  "fresh_wal = \<lparr>lx_dir = [], lx_segment_target_bytes = 100,
    lx_state = \<lparr>lw_bounds = empty_wal_bounds, lw_active = None\<rparr>\<rparr>"

lemma fresh_wal_inv: "wal_inv crc fresh_wal []"
  by (simp add: wal_inv_def fresh_wal_def represents_def wf_segs_def state_of_def active_of_def
      base_of_def durable_of_def empty_wal_bounds_def SEGMENT_HEADER_LEN_def)

lemma fresh_wal_room: "wal_room fresh_wal"
  by (simp add: wal_room_def fresh_wal_def wal_bounds_of_def empty_wal_bounds_def u64_max_def)

definition sample_request :: wal_request where
  "sample_request = \<lparr>wq_range = new_range 0 1, wq_data = [7]\<rparr>"

lemma sample_request_wf: "wf_request sample_request"
  by (simp add: sample_request_def wf_request_def u64_max_def u32_max_def)

theorem wal_appends_are_replayed_witness:
  "\<exists>w' rs. append_all (wal_append (\<lambda>_. 0) io_ok) fresh_wal [sample_request] = (w', Inr rs) \<and>
    replay_after (\<lambda>_. 0) io_ok w' 0 = (w', Inr rs) \<and> map wrec_data rs = [[7]]"
proof -
  have "wal_ok (\<lambda>_. 0) fresh_wal" using fresh_wal_inv by (auto simp: wal_ok_def)
  moreover have "rooms (wal_append (\<lambda>_. 0) io_ok) wal_room fresh_wal [sample_request]"
    using fresh_wal_room sample_request_wf by simp
  ultimately obtain w' rs where *: "append_all (wal_append (\<lambda>_. 0) io_ok) fresh_wal [sample_request] = (w', Inr rs)"
    "replay_after (\<lambda>_. 0) io_ok w' (last_durable (wal_bounds_of fresh_wal)) = (w', Inr rs)"
    "map (\<lambda>r. (wrec_range r, wrec_data r)) rs = map (\<lambda>q. (wq_range q, wq_data q)) [sample_request]"
    using wal_appends_are_replayed by blast
  have "last_durable (wal_bounds_of fresh_wal) = 0"
    by (simp add: fresh_wal_def wal_bounds_of_def empty_wal_bounds_def)
  with * show ?thesis by (auto simp: sample_request_def)
qed




definition one_segment_wal :: "(bytes \<Rightarrow> u32) \<Rightarrow> local_export_wal" where
  "one_segment_wal crc = \<lparr>lx_dir = segment_files crc [(1, [])] [], lx_segment_target_bytes = 100,
    lx_state = state_of crc [(1, [])]\<rparr>"


end
