(* ===== verification/Tree_Geometry.thy ===== *)
theory Tree_Geometry
  imports Byte_Range Server_Error
begin

text \<open>
  The bounded tree of an export, from \<open>nbd-server/src/engines/tree/geometry.rs\<close> and the
  record factory of \<open>edit.rs\<close>: its levels, the spans of its nodes, the path of slots that
  leads to a chunk and the chunks a byte range touches. The lemmas show that the depth is
  enough for the size, that the path of a chunk leads from the root span to the chunk's
  own span without any overflow, that paths are the base-32 digits of the chunk index, and
  that the chunk ranges of a byte range cover it exactly and in order.
\<close>

section \<open>Definitions\<close>

record tree_geometry =
  tg_format :: tree_format
  tg_fanout :: nat
  tg_chunk_bytes :: nat
  tg_size_bytes :: nat
  tg_root_level :: nat

record tree_path =
  tp_chunk_index :: chunk_index
  tp_slots :: "nat list"

record tree_node_span =
  ns_level :: nat
  ns_start_bytes :: nat
  ns_len_bytes :: nat

record tree_chunk_range =
  tc_chunk_index :: chunk_index
  tc_chunk_offset :: nat
  tc_range :: byte_range

definition invalid_tree :: server_error where "invalid_tree = Catalog None"

fun format_parameters :: "tree_format \<Rightarrow> nat \<times> nat" where
  "format_parameters Bounded32V1 = (32, TREE_CHUNK_BYTES)"

definition u16_max :: nat where "u16_max = 2 ^ 16 - 1"

text \<open>
  The loop that finds the root level. The capacity is multiplied by the fanout until it
  reaches the chunk count; the bound of the recursion is the 64-bit range of the capacity,
  which the checked multiplication enforces for a fanout of at least two.
\<close>

function root_level_loop :: "nat \<Rightarrow> nat \<Rightarrow> nat \<Rightarrow> nat \<Rightarrow> (server_error, nat) result" where
  "root_level_loop fanout chunk_count capacity level =
    (if capacity < chunk_count \<and> 2 \<le> fanout \<and> 0 < capacity then
       and_then (ok_or invalid_tree (checked_mul capacity fanout)) (\<lambda>capacity'.
         if level + 1 > u16_max then Inl invalid_tree
         else root_level_loop fanout chunk_count capacity' (level + 1))
     else Inr level)"
  by pat_completeness auto
termination
proof (relation "measure (\<lambda>(f, n, c, l). n - c)")
  fix f n c l c'
  assume *: "c < n \<and> 2 \<le> f \<and> 0 < c" "ok_or invalid_tree (checked_mul c f) = Inr c'"
  then have "c' = c * f" by (simp add: checked_arith)
  moreover have "c * 2 \<le> c * f" using * by simp
  ultimately have "c < c'" using * by linarith
  then show "((f, n, c', l + 1), (f, n, c, l)) \<in> measure (\<lambda>(f, n, c, l). n - c)"
    using * by (simp add: diff_less_mono2)
qed simp

declare root_level_loop.simps [simp del]

definition new_geometry :: "tree_format \<Rightarrow> nat \<Rightarrow> (server_error, tree_geometry) result" where
  "new_geometry format size_bytes =
    (if size_bytes = 0 then Inl invalid_tree
     else
       let (fanout, chunk_bytes) = format_parameters format in
       and_then (ok_or invalid_tree (checked_add size_bytes (chunk_bytes - 1))) (\<lambda>n.
         let chunk_count = n div chunk_bytes in
         and_then (root_level_loop fanout chunk_count fanout 1) (\<lambda>root_level.
           Inr \<lparr>tg_format = format, tg_fanout = fanout, tg_chunk_bytes = chunk_bytes,
                tg_size_bytes = size_bytes, tg_root_level = root_level\<rparr>)))"

definition root_span :: "tree_geometry \<Rightarrow> tree_node_span" where
  "root_span g = \<lparr>ns_level = tg_root_level g, ns_start_bytes = 0, ns_len_bytes = tg_size_bytes g\<rparr>"

fun chunks_per_node_loop :: "nat \<Rightarrow> nat \<Rightarrow> nat \<Rightarrow> (server_error, nat) result" where
  "chunks_per_node_loop fanout 0 chunks = Inr chunks"
| "chunks_per_node_loop fanout (Suc level) chunks =
    and_then (ok_or invalid_tree (checked_mul chunks fanout)) (chunks_per_node_loop fanout level)"

definition chunks_per_node :: "tree_geometry \<Rightarrow> nat \<Rightarrow> (server_error, nat) result" where
  "chunks_per_node g level = chunks_per_node_loop (tg_fanout g) level 1"

definition full_span_len :: "tree_geometry \<Rightarrow> nat \<Rightarrow> (server_error, nat) result" where
  "full_span_len g level =
    and_then (chunks_per_node g level) (\<lambda>n. ok_or invalid_tree (checked_mul (tg_chunk_bytes g) n))"

definition node_span :: "tree_geometry \<Rightarrow> nat \<Rightarrow> nat \<Rightarrow> (server_error, tree_node_span) result" where
  "node_span g level start_bytes =
    (if level > tg_root_level g then Inl invalid_tree
     else if start_bytes \<ge> tg_size_bytes g then Inl invalid_tree
     else and_then (full_span_len g level) (\<lambda>full_len.
       let rest = tg_size_bytes g - start_bytes in
       Inr \<lparr>ns_level = level, ns_start_bytes = start_bytes, ns_len_bytes = min full_len rest\<rparr>))"

definition child_span :: "tree_geometry \<Rightarrow> tree_node_span \<Rightarrow> nat \<Rightarrow> (server_error, tree_node_span) result" where
  "child_span g parent slot =
    (if ns_level parent = 0 then Inl invalid_tree
     else if slot \<ge> tg_fanout g then Inl invalid_tree
     else
       let child_level = ns_level parent - 1 in
       and_then (full_span_len g child_level) (\<lambda>child_full_len.
         and_then (ok_or invalid_tree (checked_mul slot child_full_len)) (\<lambda>off.
           and_then (ok_or invalid_tree (checked_add (ns_start_bytes parent) off)) (\<lambda>child_start.
             node_span g child_level child_start))))"

definition validate_chunk_index :: "tree_geometry \<Rightarrow> chunk_index \<Rightarrow> (server_error, unit) result" where
  "validate_chunk_index g c =
    and_then (ok_or invalid_tree (checked_mul c (tg_chunk_bytes g))) (\<lambda>start.
      if start \<ge> tg_size_bytes g then Inl invalid_tree else Inr ())"

definition path_for_chunk :: "tree_geometry \<Rightarrow> chunk_index \<Rightarrow> (server_error, tree_path) result" where
  "path_for_chunk g c =
    and_then (validate_chunk_index g c) (\<lambda>_.
      and_then (try_map (\<lambda>child_level.
          and_then (chunks_per_node g child_level) (\<lambda>divisor.
            let slot = (c div divisor) mod tg_fanout g in
            if slot > u16_max then Inl invalid_tree else Inr slot)) (rev [0..<tg_root_level g])) (\<lambda>slots.
        Inr \<lparr>tp_chunk_index = c, tp_slots = slots\<rparr>))"

text \<open>
  The loop over the chunks of a range. A chunk size of zero, which no geometry has, would
  panic in the division; the guard makes the recursion well founded.
\<close>

function chunk_range_loop ::
  "tree_geometry \<Rightarrow> byte_range \<Rightarrow> nat \<Rightarrow> (server_error, tree_chunk_range list) result" where
  "chunk_range_loop g rng copied =
    (if copied < br_len rng \<and> 0 < tg_chunk_bytes g then
       let current_offset = br_start rng + copied;
           chunk_index = current_offset div tg_chunk_bytes g;
           chunk_offset = current_offset mod tg_chunk_bytes g;
           chunk_available = tg_chunk_bytes g - chunk_offset;
           copy_len = min chunk_available (br_len rng - copied)
       in if copy_len > u32_max then Inl invalid_tree
          else and_then (chunk_range_loop g rng (copied + copy_len)) (\<lambda>cs.
            Inr (\<lparr>tc_chunk_index = chunk_index, tc_chunk_offset = chunk_offset,
                  tc_range = new_range current_offset copy_len\<rparr> # cs))
     else Inr [])"
  by pat_completeness auto
termination
  by (relation "measure (\<lambda>(g, rng, copied). br_len rng - copied)") (auto intro!: diff_less_mono2)

declare chunk_range_loop.simps [simp del]

definition chunks_for_range :: "tree_geometry \<Rightarrow> byte_range \<Rightarrow> (server_error, tree_chunk_range list) result" where
  "chunks_for_range g rng =
    and_then (ok_or invalid_tree (checked_end rng)) (\<lambda>stop.
      if stop > tg_size_bytes g
      then Inl (OutOfBounds ''tree range'' (br_start rng) (br_len rng) (tg_size_bytes g))
      else if range_is_empty rng then Inr []
      else chunk_range_loop g rng 0)"

subsection \<open>Records of the tree\<close>

record tree_record_factory =
  rf_geometry :: tree_geometry
  rf_layout_kind :: export_layout_kind
  rf_owner_export_id :: "export_id option"

definition internal_node :: "tree_record_factory \<Rightarrow> node_id \<Rightarrow> tree_node_span \<Rightarrow> tree_node_record" where
  "internal_node f nid span = \<lparr>tn_id = nid, tn_layout_kind = rf_layout_kind f,
    tn_owner_export_id = rf_owner_export_id f, tn_kind = Internal, tn_level = ns_level span,
    tn_span_start_bytes = ns_start_bytes span, tn_span_len_bytes = ns_len_bytes span\<rparr>"

definition root_node :: "tree_record_factory \<Rightarrow> node_id \<Rightarrow> tree_node_record" where
  "root_node f nid = internal_node f nid (root_span (rf_geometry f))"

definition leaf_node :: "tree_record_factory \<Rightarrow> node_id \<Rightarrow> tree_node_span \<Rightarrow> tree_node_record" where
  "leaf_node f nid span = \<lparr>tn_id = nid, tn_layout_kind = rf_layout_kind f,
    tn_owner_export_id = rf_owner_export_id f, tn_kind = LeafNode, tn_level = ns_level span,
    tn_span_start_bytes = ns_start_bytes span, tn_span_len_bytes = ns_len_bytes span\<rparr>"

definition child_edge :: "node_id \<Rightarrow> nat \<Rightarrow> node_id \<Rightarrow> tree_edge_record" where
  "child_edge parent slot child = \<lparr>te_parent_node_id = parent, te_slot = slot, te_child_node_id = child\<rparr>"

definition factory_leaf_ref ::
  "tree_record_factory \<Rightarrow> node_id \<Rightarrow> tree_storage_kind \<Rightarrow> blob_key \<Rightarrow> tree_leaf_ref_record" where
  "factory_leaf_ref f nid kind key = \<lparr>tl_node_id = nid, tl_storage_kind = kind, tl_storage_key = key,
    tl_len_bytes = tg_chunk_bytes (rf_geometry f)\<rparr>"

section \<open>Depth and spans\<close>

text \<open>
  What every constructed geometry satisfies: 32-fold branching over chunks of 32 MiB, a
  depth whose capacity holds every chunk, and at most eight levels.
\<close>

definition geometry_ok :: "tree_geometry \<Rightarrow> bool" where
  "geometry_ok g \<longleftrightarrow> tg_fanout g = 32 \<and> tg_chunk_bytes g = 2 ^ 25 \<and> 0 < tg_size_bytes g \<and>
    tg_size_bytes g + (2 ^ 25 - 1) \<le> u64_max \<and> 1 \<le> tg_root_level g \<and> tg_root_level g \<le> 8 \<and>
    tg_size_bytes g \<le> 2 ^ 25 * 32 ^ tg_root_level g"

lemma root_level_loop_ok:
  assumes "n \<le> 2 ^ 39" "1 \<le> l" "l \<le> 8" "l = 1 \<or> 32 ^ (l - 1) < n"
  shows "\<exists>l'. root_level_loop 32 n (32 ^ l) l = Inr l' \<and> l \<le> l' \<and> l' \<le> 8 \<and> n \<le> 32 ^ l' \<and>
    (l' = 1 \<or> 32 ^ (l' - 1) < n)"
  using assms
proof (induction "8 - l" arbitrary: l)
  case 0
  then have "l = 8" by simp
  moreover have "n \<le> 32 ^ 8" using 0(2) by simp
  ultimately show ?case using 0 by (simp add: root_level_loop.simps)
next
  case (Suc k)
  show ?case
  proof (cases "32 ^ l < n")
    case True
    have l: "l < 8" using Suc(2) by simp
    have "(32 :: nat) ^ Suc l \<le> 32 ^ 8" using l by (intro power_increasing) auto
    then have "checked_mul (32 ^ l) 32 = Some (32 ^ Suc l)"
      by (simp add: checked_arith u64_max_def)
    moreover have "\<not> l + 1 > u16_max" using l by (simp add: u16_max_def)
    ultimately have "root_level_loop 32 n (32 ^ l) l = root_level_loop 32 n (32 ^ Suc l) (Suc l)"
      using True by (subst root_level_loop.simps) simp
    then show ?thesis using Suc.hyps(1) [of "Suc l"] Suc.hyps(2) Suc.prems True l by force
  next
    case False
    then show ?thesis using Suc.prems by (subst root_level_loop.simps) auto
  qed
qed

lemma le_chunks: "0 < c \<Longrightarrow> n \<le> c * ((n + (c - 1)) div c)" for n c :: nat
  using mult_div_mod_eq [of c "n + (c - 1)"] mod_less_divisor [of c "n + (c - 1)"] by linarith

lemma new_geometry_ok:
  assumes "0 < n" "n + (2 ^ 25 - 1) \<le> u64_max"
  obtains g where "new_geometry f n = Inr g" "geometry_ok g" "tg_size_bytes g = n" "tg_format g = f"
proof -
  let ?count = "(n + (2 ^ 25 - 1)) div 2 ^ 25"
  have "?count \<le> u64_max div 2 ^ 25" using assms(2) by (rule div_le_mono)
  then have "?count \<le> 2 ^ 39" by (simp add: u64_max_def)
  from root_level_loop_ok [OF this, of 1] obtain l where
    l: "root_level_loop 32 ?count 32 1 = Inr l" "1 \<le> l" "l \<le> 8" "?count \<le> 32 ^ l" by auto
  have "n \<le> 2 ^ 25 * ?count" by (rule le_chunks) simp
  also have "\<dots> \<le> 2 ^ 25 * 32 ^ l" using l(4) by simp
  finally have "n \<le> 2 ^ 25 * 32 ^ l" .
  moreover have "checked_add n (2 ^ 25 - 1) = Some (n + (2 ^ 25 - 1))"
    using assms(2) by (simp add: checked_add_def)
  ultimately show thesis
    using l assms that [of "\<lparr>tg_format = f, tg_fanout = 32, tg_chunk_bytes = 2 ^ 25, tg_size_bytes = n, tg_root_level = l\<rparr>"]
    by (cases f) (simp add: new_geometry_def TREE_CHUNK_BYTES_def geometry_ok_def)
qed

lemma chunks_per_node_loop_ok:
  "c * 32 ^ k \<le> u64_max \<Longrightarrow> chunks_per_node_loop 32 k c = Inr (c * 32 ^ k)"
proof (induction k arbitrary: c)
  case (Suc k)
  have "c * 32 * 1 \<le> c * 32 * 32 ^ k" by (intro mult_le_mono2) simp
  then have "c * 32 \<le> u64_max" using Suc.prems unfolding power_Suc mult.assoc by linarith
  then show ?case using Suc by (simp add: checked_mul_def mult.assoc)
qed simp

lemma spans_ok:
  assumes "geometry_ok g" "k \<le> 7"
  shows "chunks_per_node g k = Inr (32 ^ k)" "full_span_len g k = Inr (2 ^ 25 * 32 ^ k)"
proof -
  have "(32 :: nat) ^ k \<le> 32 ^ 7" using assms(2) by (intro power_increasing) auto
  then have "32 ^ k \<le> u64_max" "2 ^ 25 * 32 ^ k \<le> u64_max" by (simp_all add: u64_max_def)
  then show "chunks_per_node g k = Inr (32 ^ k)" "full_span_len g k = Inr (2 ^ 25 * 32 ^ k)"
    using assms(1) chunks_per_node_loop_ok [of 1 k]
    by (simp_all add: chunks_per_node_def full_span_len_def geometry_ok_def checked_mul_def)
qed

lemma node_span_ok:
  assumes "geometry_ok g" "k < tg_root_level g" "start < tg_size_bytes g"
  shows "node_span g k start = Inr \<lparr>ns_level = k, ns_start_bytes = start,
    ns_len_bytes = min (2 ^ 25 * 32 ^ k) (tg_size_bytes g - start)\<rparr>"
proof -
  have "k \<le> 7" using assms by (simp add: geometry_ok_def)
  then show ?thesis using assms by (simp add: node_span_def spans_ok(2))
qed

text \<open>One step down: the child at a slot, for a node of level \<open>Suc k\<close>.\<close>

lemma child_span_ok:
  assumes "geometry_ok g" "ns_level span = Suc k" "Suc k \<le> tg_root_level g" "slot < 32"
    and "ns_start_bytes span + slot * (2 ^ 25 * 32 ^ k) < tg_size_bytes g"
  shows "child_span g span slot = Inr \<lparr>ns_level = k, ns_start_bytes = ns_start_bytes span + slot * (2 ^ 25 * 32 ^ k),
    ns_len_bytes = min (2 ^ 25 * 32 ^ k) (tg_size_bytes g - (ns_start_bytes span + slot * (2 ^ 25 * 32 ^ k)))\<rparr>"
proof -
  have k: "k \<le> 7" "k < tg_root_level g" using assms by (simp_all add: geometry_ok_def)
  have size: "tg_size_bytes g \<le> u64_max" using assms(1) by (simp add: geometry_ok_def)
  let ?off = "slot * (2 ^ 25 * 32 ^ k)"
  have "checked_mul slot (2 ^ 25 * 32 ^ k) = Some ?off" "checked_add (ns_start_bytes span) ?off = Some (ns_start_bytes span + ?off)"
    using assms(5) size by (simp_all add: checked_mul_def checked_add_def)
  then show ?thesis
    using assms(1,2,4) node_span_ok [OF assms(1) k(2) assms(5)]
    by (simp add: child_span_def spans_ok(2) [OF assms(1) k(1)] Let_def geometry_ok_def)
qed

section \<open>Paths\<close>

definition digit :: "nat \<Rightarrow> nat \<Rightarrow> nat" where
  "digit c k = (c div 32 ^ k) mod 32"

lemma digit_less: "digit c k < 32"
  by (simp add: digit_def)

lemma digit_step: "c div 32 ^ k * 32 ^ k = c div 32 ^ Suc k * 32 ^ Suc k + digit c k * 32 ^ k"
proof -
  have "c div 32 ^ Suc k = c div 32 ^ k div 32" by (simp only: power_Suc2 div_mult2_eq)
  moreover have "c div 32 ^ k = c div 32 ^ k div 32 * 32 + digit c k"
    unfolding digit_def by (simp add: div_mult_mod_eq)
  ultimately show ?thesis by (metis add_mult_distrib mult.assoc mult.commute power_Suc)
qed

lemma validate_chunk_index_iff:
  assumes "geometry_ok g"
  shows "validate_chunk_index g c = Inr () \<longleftrightarrow> c * 2 ^ 25 < tg_size_bytes g"
proof -
  have "tg_size_bytes g \<le> u64_max" using assms by (simp add: geometry_ok_def)
  then show ?thesis
    using assms by (auto simp: validate_chunk_index_def geometry_ok_def checked_mul_def)
qed

lemma path_for_chunk_ok:
  assumes "geometry_ok g" "c * 2 ^ 25 < tg_size_bytes g"
  shows "path_for_chunk g c = Inr \<lparr>tp_chunk_index = c, tp_slots = map (digit c) (rev [0..<tg_root_level g])\<rparr>"
proof -
  let ?f = "\<lambda>child_level. and_then (chunks_per_node g child_level) (\<lambda>divisor.
            let slot = (c div divisor) mod tg_fanout g in
            if slot > u16_max then Inl invalid_tree else Inr slot)"
  have "?f k = Inr (digit c k)" if "k \<in> set (rev [0..<tg_root_level g])" for k
  proof -
    have "k \<le> 7" using that assms(1) by (auto simp: geometry_ok_def)
    moreover have "\<not> digit c k > u16_max" using digit_less [of c k] by (simp add: u16_max_def)
    ultimately show ?thesis
      using assms(1) by (simp add: spans_ok(1) Let_def digit_def geometry_ok_def)
  qed
  then have "try_map ?f (rev [0..<tg_root_level g]) = Inr (map (digit c) (rev [0..<tg_root_level g]))"
    by (rule try_map_map)
  moreover have "validate_chunk_index g c = Inr ()" using assms validate_chunk_index_iff by blast
  ultimately show ?thesis unfolding path_for_chunk_def by simp
qed

text \<open>The path value read as a number in base 32 is the chunk index.\<close>

lemma digits_value:
  "foldl (\<lambda>acc s. acc * 32 + s) (c div 32 ^ k) (map (digit c) (rev [0..<k])) = c"
proof (induction k)
  case (Suc k)
  have "c div 32 ^ Suc k * 32 + digit c k = c div 32 ^ k"
    unfolding power_Suc2 div_mult2_eq digit_def by (rule div_mult_mod_eq)
  then show ?case using Suc by simp
qed simp

lemma chunk_below_capacity:
  assumes "geometry_ok g" "c * 2 ^ 25 < tg_size_bytes g"
  shows "c < 32 ^ tg_root_level g"
proof -
  have "c * 2 ^ 25 < 2 ^ 25 * 32 ^ tg_root_level g" using assms by (simp add: geometry_ok_def)
  then show ?thesis by simp
qed

lemma walk_to_chunk:
  assumes "geometry_ok g" "c * 2 ^ 25 < tg_size_bytes g" "Suc k \<le> tg_root_level g"
    and "ns_level span = Suc k" "ns_start_bytes span = c div 32 ^ Suc k * 32 ^ Suc k * 2 ^ 25"
  shows "try_fold (child_span g) span (map (digit c) (rev [0..<Suc k])) =
    Inr \<lparr>ns_level = 0, ns_start_bytes = c * 2 ^ 25, ns_len_bytes = min (2 ^ 25) (tg_size_bytes g - c * 2 ^ 25)\<rparr>"
  using assms(3-5)
proof (induction k arbitrary: span)
  have step: "ns_start_bytes span + digit c k * (2 ^ 25 * 32 ^ k) = c div 32 ^ k * 32 ^ k * 2 ^ 25"
    if "ns_start_bytes span = c div 32 ^ Suc k * 32 ^ Suc k * 2 ^ 25" for span :: tree_node_span and k
    using that digit_step [of c k] by (simp add: add_mult_distrib mult.assoc mult.commute)
  have below: "c div 32 ^ k * 32 ^ k * 2 ^ 25 < tg_size_bytes g" for k
  proof -
    have "c div 32 ^ k * 32 ^ k * 2 ^ 25 \<le> c * 2 ^ 25" by (intro mult_le_mono1) simp
    with assms(2) show ?thesis by linarith
  qed
  {
    case 0
    then show ?case
      using child_span_ok [OF assms(1) 0(2) 0(1) digit_less] step [OF 0(3)] below [of 0] by simp
  next
    case (Suc k)
    have "child_span g span (digit c (Suc k)) = Inr \<lparr>ns_level = Suc k,
        ns_start_bytes = c div 32 ^ Suc k * 32 ^ Suc k * 2 ^ 25,
        ns_len_bytes = min (2 ^ 25 * 32 ^ Suc k) (tg_size_bytes g - c div 32 ^ Suc k * 32 ^ Suc k * 2 ^ 25)\<rparr>"
      using child_span_ok [OF assms(1) Suc.prems(2,1) digit_less] step [OF Suc.prems(3)] below [of "Suc k"] by simp
    then show ?case
      using Suc.IH Suc.prems(1) by simp
  }
qed

lemma new_geometry_Inr:
  assumes "new_geometry f n = Inr g"
  shows "geometry_ok g" "tg_size_bytes g = n"
proof -
  have "0 < n" "n + (2 ^ 25 - 1) \<le> u64_max"
    using assms by (cases f; auto simp: new_geometry_def and_then_Inr_iff checked_arith TREE_CHUNK_BYTES_def
        split: if_splits)+
  from new_geometry_ok [OF this, of f] show "geometry_ok g" "tg_size_bytes g = n"
    using assms by auto
qed

section \<open>Chunk ranges\<close>

text \<open>
  \<open>tiles a cs b\<close>: the chunk ranges follow each other without gap or overlap from byte \<open>a\<close>
  to byte \<open>b\<close>, each lies within its own chunk, and all but the last end at a chunk border.
\<close>

fun tiles :: "nat \<Rightarrow> tree_chunk_range list \<Rightarrow> nat \<Rightarrow> bool" where
  "tiles a [] b \<longleftrightarrow> a = b"
| "tiles a (c # cs) b \<longleftrightarrow> br_start (tc_range c) = a \<and> 0 < br_len (tc_range c) \<and>
    tc_chunk_index c * 2 ^ 25 + tc_chunk_offset c = a \<and> tc_chunk_offset c + br_len (tc_range c) \<le> 2 ^ 25 \<and>
    (cs = [] \<or> tc_chunk_offset c + br_len (tc_range c) = 2 ^ 25) \<and>
    tiles (a + br_len (tc_range c)) cs b"

lemma chunk_range_loop_tiles:
  assumes "tg_chunk_bytes g = 2 ^ 25" "br_len rng \<le> u32_max" "copied \<le> br_len rng"
  shows "\<exists>cs. chunk_range_loop g rng copied = Inr cs \<and> tiles (br_start rng + copied) cs (br_start rng + br_len rng)"
  using assms
proof (induction g rng copied rule: chunk_range_loop.induct)
  case (1 g rng copied)
  show ?case
  proof (cases "copied < br_len rng")
    case True
    let ?o = "br_start rng + copied" and ?C = "tg_chunk_bytes g"
    let ?n = "min (?C - ?o mod ?C) (br_len rng - copied)"
    have C: "?C = 2 ^ 25" "0 < ?C" using 1(2) by simp_all
    have n: "0 < ?n" "\<not> ?n > u32_max" "copied + ?n \<le> br_len rng" "?o mod ?C + ?n \<le> ?C"
      using True 1(3) C by (auto simp: min_def)
    have last: "copied + ?n = br_len rng \<or> ?o mod ?C + ?n = ?C" using True C by (auto simp: min_def)
    from 1(1) [OF conjI [OF True C(2)] refl refl refl refl refl n(2) 1(2,3) n(3)] obtain cs where
      cs: "chunk_range_loop g rng (copied + ?n) = Inr cs"
        "tiles (br_start rng + (copied + ?n)) cs (br_start rng + br_len rng)" by blast
    have "cs = []" if "copied + ?n = br_len rng"
      using cs(1) that by (subst (asm) chunk_range_loop.simps) simp
    with last have "cs = [] \<or> ?o mod ?C + ?n = ?C" by blast
    moreover have "chunk_range_loop g rng copied = Inr (\<lparr>tc_chunk_index = ?o div ?C, tc_chunk_offset = ?o mod ?C,
        tc_range = new_range ?o ?n\<rparr> # cs)"
      using True C n cs(1) by (subst chunk_range_loop.simps) (simp add: Let_def)
    ultimately show ?thesis
      using n cs(2) C(1) div_mult_mod_eq [of ?o ?C] by (simp add: add.assoc)
  next
    case False
    then show ?thesis using 1(4) by (subst chunk_range_loop.simps) simp
  qed
qed

lemma chunks_for_range_tiles:
  assumes "geometry_ok g" "br_len rng \<le> u32_max" "checked_end rng = Some e" "e \<le> tg_size_bytes g"
  obtains cs where "chunks_for_range g rng = Inr cs" "tiles (br_start rng) cs e"
proof -
  have e: "e = br_start rng + br_len rng" using assms(3) by (simp add: checked_arith)
  have "tg_chunk_bytes g = 2 ^ 25" using assms(1) by (simp add: geometry_ok_def)
  from chunk_range_loop_tiles [OF this assms(2), of 0] obtain cs where
    "chunk_range_loop g rng 0 = Inr cs" "tiles (br_start rng) cs e" by (auto simp: e)
  then show thesis
    using that [of "if br_len rng = 0 then [] else cs"] assms(3,4) e
    by (simp add: chunks_for_range_def range_is_empty_def)
qed

section \<open>Properties\<close>

text \<open>
  C26. The path of a chunk leads to it: for every chunk that starts inside the export, the
  path exists, walking the child spans from the root along its slots meets no overflow and
  ends in the level-0 span of exactly that chunk, and the slots read as base-32 digits are
  the chunk index, so different chunks have different paths.
\<close>

theorem path_leads_to_chunk:
  assumes "new_geometry f n = Inr g" "c * TREE_CHUNK_BYTES < n"
  shows "\<exists>p. path_for_chunk g c = Inr p \<and> foldl (\<lambda>acc s. acc * 32 + s) 0 (tp_slots p) = c \<and>
    try_fold (child_span g) (root_span g) (tp_slots p) =
      Inr \<lparr>ns_level = 0, ns_start_bytes = c * TREE_CHUNK_BYTES,
           ns_len_bytes = min TREE_CHUNK_BYTES (n - c * TREE_CHUNK_BYTES)\<rparr>"
proof -
  note g = new_geometry_Inr [OF assms(1)]
  have c: "c * 2 ^ 25 < tg_size_bytes g" using assms(2) g(2) by (simp add: TREE_CHUNK_BYTES_def)
  obtain k where k: "tg_root_level g = Suc k" using g(1) by (cases "tg_root_level g") (auto simp: geometry_ok_def)
  have zero: "c div 32 ^ tg_root_level g = 0" using chunk_below_capacity [OF g(1) c] by simp
  have "try_fold (child_span g) (root_span g) (map (digit c) (rev [0..<Suc k])) =
    Inr \<lparr>ns_level = 0, ns_start_bytes = c * 2 ^ 25, ns_len_bytes = min (2 ^ 25) (tg_size_bytes g - c * 2 ^ 25)\<rparr>"
    using k zero by (intro walk_to_chunk [OF g(1) c]) (simp_all add: root_span_def)
  moreover have "foldl (\<lambda>acc s. acc * 32 + s) 0 (map (digit c) (rev [0..<tg_root_level g])) = c"
    using digits_value [of c "tg_root_level g"] zero by simp
  ultimately show ?thesis
    using path_for_chunk_ok [OF g(1) c] k by (simp add: TREE_CHUNK_BYTES_def g(2))
qed

theorem path_leads_to_chunk_witness:
  "\<exists>g p. new_geometry Bounded32V1 (100 * TREE_CHUNK_BYTES) = Inr g \<and> path_for_chunk g 77 = Inr p \<and>
    foldl (\<lambda>acc s. acc * 32 + s) 0 (tp_slots p) = 77"
proof -
  obtain g where "new_geometry Bounded32V1 (100 * TREE_CHUNK_BYTES) = Inr g"
    using new_geometry_ok [of "100 * TREE_CHUNK_BYTES" Bounded32V1]
    by (auto simp: TREE_CHUNK_BYTES_def u64_max_def)
  with path_leads_to_chunk [OF this, of 77] show ?thesis by (auto simp: TREE_CHUNK_BYTES_def)
qed

text \<open>
  C27. A byte range is cut into chunk ranges exactly: for a range inside the export the cut
  succeeds, the pieces follow each other from the first to the last byte without gap or
  overlap, each lies within the chunk it names at the offset it names, and only the last
  one may end before its chunk does.
\<close>

theorem chunk_ranges_tile:
  assumes "new_geometry f n = Inr g" "br_len rng \<le> u32_max" "checked_end rng = Some e" "e \<le> n"
  shows "\<exists>cs. chunks_for_range g rng = Inr cs \<and> tiles (br_start rng) cs e"
  using chunks_for_range_tiles [of g rng e] new_geometry_Inr [OF assms(1)] assms(2-4) by blast

theorem chunk_ranges_tile_witness:
  "\<exists>g cs. new_geometry Bounded32V1 (4 * TREE_CHUNK_BYTES) = Inr g \<and>
    chunks_for_range g (new_range (TREE_CHUNK_BYTES - 4) 12) = Inr cs \<and>
    tiles (TREE_CHUNK_BYTES - 4) cs (TREE_CHUNK_BYTES + 8)"
proof -
  obtain g where "new_geometry Bounded32V1 (4 * TREE_CHUNK_BYTES) = Inr g"
    using new_geometry_ok [of "4 * TREE_CHUNK_BYTES" Bounded32V1]
    by (auto simp: TREE_CHUNK_BYTES_def u64_max_def)
  with chunk_ranges_tile [OF this, of "new_range (TREE_CHUNK_BYTES - 4) 12" "TREE_CHUNK_BYTES + 8"]
  show ?thesis by (auto simp: TREE_CHUNK_BYTES_def u32_max_def u64_max_def checked_arith)
qed

end
