(* ===== verification/Sqlite_Catalog.thy ===== *)
theory Sqlite_Catalog
  imports Catalog_Types "HOL-Library.List_Lexorder"
begin

text \<open>
  The SQLite catalog, from \<open>nbd-control-plane-sqlite/src/adapter.rs\<close>, \<open>transaction.rs\<close> and
  \<open>tree_rows.rs\<close>, over the tables of the migrations under \<open>prisma/\<close>. A table is the list of
  its rows with the columns as SQLite holds them (texts and integers); a statement is its
  relational meaning with the primary keys, unique indexes, checks and foreign keys of the
  schema. A transaction that is not committed is rolled back. The failures of the database
  itself are an environment that refuses a statement or a commit; generated identifiers
  and the clock are parameters.
\<close>

section \<open>Tables\<close>

record export_row =
  xr_id :: string
  xr_name :: string
  xr_engine_kind :: string
  xr_block_size :: int
  xr_state :: string
  xr_created_at :: string
  xr_updated_at :: string
  xr_deleted_at :: "string option"

record head_row =
  hr_export_id :: string
  hr_layout_kind :: string
  hr_root_node_id :: "string option"
  hr_tree_format :: "string option"
  hr_size_bytes :: int
  hr_base_wal_seq :: int
  hr_updated_at :: string

record node_row =
  nr_id :: string
  nr_layout_kind :: string
  nr_owner_export_id :: "string option"
  nr_kind :: string
  nr_level :: int
  nr_span_start_bytes :: int
  nr_span_len_bytes :: int

record edge_row =
  gr_parent_node_id :: string
  gr_slot :: int
  gr_child_node_id :: string

record leaf_row =
  lr_node_id :: string
  lr_storage_kind :: string
  lr_storage_key :: string
  lr_len_bytes :: int

record catalog_db =
  db_exports :: "export_row list"
  db_heads :: "head_row list"
  db_nodes :: "node_row list"
  db_edges :: "edge_row list"
  db_leaf_refs :: "leaf_row list"

datatype sql_error = UniqueViolation | OtherSqlError

text \<open>The failures of the database: a statement or a commit, by the label of its place.\<close>

type_synonym db_env = "string \<Rightarrow> bool"

definition db_ok :: db_env where "db_ok = (\<lambda>_. False)"

definition statement :: "db_env \<Rightarrow> string \<Rightarrow> (catalog_error, unit) result" where
  "statement env label = (if env label then Inl Database else Inr ())"

section \<open>Integer and text columns\<close>

definition u64_to_i64 :: "string \<Rightarrow> nat \<Rightarrow> (catalog_error, int) result" where
  "u64_to_i64 field v = (if v < 2 ^ 63 then Inr (int v) else Inl (InvalidField field))"

definition i64_to_u64 :: "string \<Rightarrow> int \<Rightarrow> (catalog_error, nat) result" where
  "i64_to_u64 field v = (if v < 0 then Inl (InvalidField field) else Inr (nat v))"

definition u16_to_i64 :: "nat \<Rightarrow> int" where "u16_to_i64 v = int v"

definition i64_to_u16 :: "string \<Rightarrow> int \<Rightarrow> (catalog_error, nat) result" where
  "i64_to_u16 field v = (if v < 0 \<or> v \<ge> 2 ^ 16 then Inl (InvalidField field) else Inr (nat v))"

definition transpose_opt :: "('a \<Rightarrow> ('e, 'b) result) \<Rightarrow> 'a option \<Rightarrow> ('e, 'b option) result" where
  "transpose_opt f m = (case m of None \<Rightarrow> Inr None | Some x \<Rightarrow> and_then (f x) (\<lambda>y. Inr (Some y)))"

definition row_to_export_descriptor :: "export_row \<Rightarrow> (catalog_error, export_descriptor) result" where
  "row_to_export_descriptor row =
    and_then (new_export_id (xr_id row)) (\<lambda>eid.
    and_then (new_export_name (xr_name row)) (\<lambda>name.
    and_then (i64_to_u64 ''block_size'' (xr_block_size row)) (\<lambda>block_size.
    and_then (parse_engine_kind (xr_engine_kind row)) (\<lambda>kind.
    and_then (parse_export_state (xr_state row)) (\<lambda>state.
    and_then (new_timestamp (xr_created_at row)) (\<lambda>created.
    and_then (new_timestamp (xr_updated_at row)) (\<lambda>updated.
    and_then (transpose_opt new_timestamp (xr_deleted_at row)) (\<lambda>deleted.
      new_export_descriptor eid name block_size kind state created updated deleted))))))))"

definition row_to_export_head :: "head_row \<Rightarrow> (catalog_error, export_head) result" where
  "row_to_export_head row =
    and_then (parse_layout_kind (hr_layout_kind row)) (\<lambda>kind.
    and_then (case kind of
        MemoryEmpty \<Rightarrow> Inr None
      | _ \<Rightarrow> and_then (ok_or (InvalidField ''tree_format'') (hr_tree_format row)) (\<lambda>text.
          and_then (parse_tree_format text) (\<lambda>fmt. Inr (Some fmt)))) (\<lambda>fmt.
    and_then (transpose_opt new_node_id (hr_root_node_id row)) (\<lambda>root.
    and_then (i64_to_u64 ''size_bytes'' (hr_size_bytes row)) (\<lambda>size_bytes.
    and_then (i64_to_u64 ''base_wal_seq'' (hr_base_wal_seq row)) (\<lambda>base.
      new_head_with_tree_format kind root size_bytes base fmt)))))"

definition row_to_export_record :: "export_row \<times> head_row \<Rightarrow> (catalog_error, export_record) result" where
  "row_to_export_record row =
    and_then (row_to_export_descriptor (fst row)) (\<lambda>descriptor.
      and_then (row_to_export_head (snd row)) (\<lambda>head. into_record descriptor head))"

definition row_to_node :: "node_row \<Rightarrow> (catalog_error, tree_node_record) result" where
  "row_to_node row =
    and_then (new_node_id (nr_id row)) (\<lambda>nid.
    and_then (parse_layout_kind (nr_layout_kind row)) (\<lambda>layout.
    and_then (transpose_opt new_export_id (nr_owner_export_id row)) (\<lambda>owner.
    and_then (parse_node_kind (nr_kind row)) (\<lambda>kind.
    and_then (i64_to_u16 ''level'' (nr_level row)) (\<lambda>level.
    and_then (i64_to_u64 ''span_start_bytes'' (nr_span_start_bytes row)) (\<lambda>start.
    and_then (i64_to_u64 ''span_len_bytes'' (nr_span_len_bytes row)) (\<lambda>len.
      Inr \<lparr>tn_id = nid, tn_layout_kind = layout, tn_owner_export_id = owner, tn_kind = kind,
           tn_level = level, tn_span_start_bytes = start, tn_span_len_bytes = len\<rparr>)))))))"

definition row_to_edge :: "edge_row \<Rightarrow> (catalog_error, tree_edge_record) result" where
  "row_to_edge row =
    and_then (new_node_id (gr_parent_node_id row)) (\<lambda>parent.
    and_then (i64_to_u16 ''slot'' (gr_slot row)) (\<lambda>slot.
    and_then (new_node_id (gr_child_node_id row)) (\<lambda>child.
      Inr \<lparr>te_parent_node_id = parent, te_slot = slot, te_child_node_id = child\<rparr>)))"

definition row_to_leaf_ref :: "leaf_row \<Rightarrow> (catalog_error, tree_leaf_ref_record) result" where
  "row_to_leaf_ref row =
    and_then (new_node_id (lr_node_id row)) (\<lambda>nid.
    and_then (parse_storage_kind (lr_storage_kind row)) (\<lambda>kind.
    and_then (new_blob_key (lr_storage_key row)) (\<lambda>key.
    and_then (i64_to_u64 ''len_bytes'' (lr_len_bytes row)) (\<lambda>len.
      Inr \<lparr>tl_node_id = nid, tl_storage_kind = kind, tl_storage_key = key, tl_len_bytes = len\<rparr>))))"

section \<open>Statements with the constraints of the schema\<close>

definition insert_export_row :: "export_row \<Rightarrow> catalog_db \<Rightarrow> (sql_error, catalog_db) result" where
  "insert_export_row row db =
    (if \<not> (xr_engine_kind row \<in> {''memory'', ''simple_durable'', ''wal_durable''} \<and>
           xr_state row \<in> {''active'', ''deleted''} \<and> 0 < xr_block_size row) then Inl OtherSqlError
     else if list_ex (\<lambda>r. xr_id r = xr_id row \<or> xr_name r = xr_name row) (db_exports db) then Inl UniqueViolation
     else Inr (db\<lparr>db_exports := db_exports db @ [row]\<rparr>))"

definition node_exists :: "catalog_db \<Rightarrow> string \<Rightarrow> bool" where
  "node_exists db nid = list_ex (\<lambda>r. nr_id r = nid) (db_nodes db)"

definition export_exists :: "catalog_db \<Rightarrow> string \<Rightarrow> bool" where
  "export_exists db eid = list_ex (\<lambda>r. xr_id r = eid) (db_exports db)"

definition head_checks :: "head_row \<Rightarrow> bool" where
  "head_checks row \<longleftrightarrow>
    (hr_layout_kind row = ''memory_empty'' \<and> hr_tree_format row = None \<or>
     hr_layout_kind row \<in> {''simple_mutable_tree'', ''cow_immutable_tree''} \<and>
       hr_tree_format row = Some ''bounded_32_v1'') \<and>
    0 < hr_size_bytes row \<and> 0 \<le> hr_base_wal_seq row"

definition head_references :: "catalog_db \<Rightarrow> head_row \<Rightarrow> bool" where
  "head_references db row \<longleftrightarrow> export_exists db (hr_export_id row) \<and>
    (case hr_root_node_id row of None \<Rightarrow> True | Some root \<Rightarrow> node_exists db root)"

definition insert_head_row :: "head_row \<Rightarrow> catalog_db \<Rightarrow> (sql_error, catalog_db) result" where
  "insert_head_row row db =
    (if \<not> head_checks row then Inl OtherSqlError
     else if list_ex (\<lambda>r. hr_export_id r = hr_export_id row) (db_heads db) then Inl UniqueViolation
     else if \<not> head_references db row then Inl OtherSqlError
     else Inr (db\<lparr>db_heads := db_heads db @ [row]\<rparr>))"

definition insert_node_row :: "node_row \<Rightarrow> catalog_db \<Rightarrow> (sql_error, catalog_db) result" where
  "insert_node_row row db =
    (if \<not> (nr_layout_kind row \<in> {''simple_mutable_tree'', ''cow_immutable_tree''} \<and>
           nr_kind row \<in> {''internal'', ''leaf''} \<and> 0 \<le> nr_level row \<and>
           0 \<le> nr_span_start_bytes row \<and> 0 < nr_span_len_bytes row) then Inl OtherSqlError
     else if node_exists db (nr_id row) then Inl UniqueViolation
     else if (case nr_owner_export_id row of None \<Rightarrow> False | Some o' \<Rightarrow> \<not> export_exists db o') then Inl OtherSqlError
     else Inr (db\<lparr>db_nodes := db_nodes db @ [row]\<rparr>))"

definition insert_edge_row :: "edge_row \<Rightarrow> catalog_db \<Rightarrow> (sql_error, catalog_db) result" where
  "insert_edge_row row db =
    (if gr_slot row < 0 then Inl OtherSqlError
     else if list_ex (\<lambda>r. gr_parent_node_id r = gr_parent_node_id row \<and> gr_slot r = gr_slot row) (db_edges db)
     then Inl UniqueViolation
     else if \<not> (node_exists db (gr_parent_node_id row) \<and> node_exists db (gr_child_node_id row)) then Inl OtherSqlError
     else Inr (db\<lparr>db_edges := db_edges db @ [row]\<rparr>))"

definition insert_leaf_row :: "leaf_row \<Rightarrow> catalog_db \<Rightarrow> (sql_error, catalog_db) result" where
  "insert_leaf_row row db =
    (if \<not> (lr_storage_kind row \<in> {''mutable_blob'', ''immutable_blob''} \<and>
           lr_storage_key row \<noteq> [] \<and> 0 < lr_len_bytes row) then Inl OtherSqlError
     else if list_ex (\<lambda>r. lr_node_id r = lr_node_id row) (db_leaf_refs db) then Inl UniqueViolation
     else if \<not> node_exists db (lr_node_id row) then Inl OtherSqlError
     else Inr (db\<lparr>db_leaf_refs := db_leaf_refs db @ [row]\<rparr>))"

definition map_sqlx_error :: "sql_error \<Rightarrow> catalog_error" where
  "map_sqlx_error e = Database"

text \<open>An insertion inside a transaction; \<open>unique_as\<close> is how a unique violation is reported.\<close>

definition run_insert ::
  "db_env \<Rightarrow> string \<Rightarrow> catalog_error \<Rightarrow> (sql_error, catalog_db) result \<Rightarrow> (catalog_error, catalog_db) result" where
  "run_insert env label unique_as res =
    and_then (statement env label) (\<lambda>_.
      map_err (\<lambda>e. if e = UniqueViolation then unique_as else map_sqlx_error e) res)"

section \<open>Queries\<close>

definition join_heads :: "catalog_db \<Rightarrow> (export_row \<times> head_row) list" where
  "join_heads db = concat (map (\<lambda>e. map (Pair e) (filter (\<lambda>h. hr_export_id h = xr_id e) (db_heads db))) (db_exports db))"

definition find_by_id :: "catalog_db \<Rightarrow> export_id \<Rightarrow> (export_row \<times> head_row) option" where
  "find_by_id db eid = find (\<lambda>r. xr_id (fst r) = eid) (join_heads db)"

definition find_by_name :: "catalog_db \<Rightarrow> export_name \<Rightarrow> (export_row \<times> head_row) option" where
  "find_by_name db name = find (\<lambda>r. xr_name (fst r) = name) (join_heads db)"

definition fetch_by_name :: "db_env \<Rightarrow> catalog_db \<Rightarrow> export_name \<Rightarrow> (catalog_error, export_record) result" where
  "fetch_by_name env db name =
    and_then (statement env ''fetch by name'') (\<lambda>_.
      and_then (ok_or (ExportNotFound name) (find_by_name db name)) row_to_export_record)"

definition fetch_descriptor_by_name ::
  "db_env \<Rightarrow> catalog_db \<Rightarrow> export_name \<Rightarrow> (catalog_error, export_descriptor) result" where
  "fetch_descriptor_by_name env db name =
    and_then (statement env ''fetch descriptor'') (\<lambda>_.
      and_then (ok_or (ExportNotFound name) (find (\<lambda>r. xr_name r = name) (db_exports db)))
        row_to_export_descriptor)"

definition fetch_export_record_by_id ::
  "db_env \<Rightarrow> catalog_db \<Rightarrow> export_id \<Rightarrow> (catalog_error, export_record) result" where
  "fetch_export_record_by_id env db eid =
    and_then (statement env ''fetch by id'') (\<lambda>_.
      and_then (ok_or Database (find_by_id db eid)) row_to_export_record)"

definition load_export_head :: "db_env \<Rightarrow> catalog_db \<Rightarrow> export_id \<Rightarrow> (catalog_error, export_head) result" where
  "load_export_head env db eid =
    and_then (statement env ''load head'') (\<lambda>_.
      and_then (ok_or Database (find (\<lambda>h. hr_export_id h = eid) (db_heads db))) row_to_export_head)"

definition load_export :: "db_env \<Rightarrow> catalog_db \<Rightarrow> export_name \<Rightarrow> (catalog_error, export_record) result" where
  "load_export env db name =
    and_then (fetch_by_name env db name) (\<lambda>meta.
      if er_state meta = Deleted then Inl (ExportDeleted name) else Inr meta)"

definition load_export_descriptor ::
  "db_env \<Rightarrow> catalog_db \<Rightarrow> export_name \<Rightarrow> (catalog_error, export_descriptor) result" where
  "load_export_descriptor env db name =
    and_then (fetch_descriptor_by_name env db name) new_active_descriptor"

definition inspect_export :: "db_env \<Rightarrow> catalog_db \<Rightarrow> export_name \<Rightarrow> (catalog_error, export_record) result" where
  "inspect_export env db name = fetch_by_name env db name"

text \<open>The order of texts in \<open>ORDER BY\<close> is the byte order of SQLite's binary collation.\<close>

definition list_exports ::
  "db_env \<Rightarrow> catalog_db \<Rightarrow> bool \<Rightarrow> (catalog_error, export_record list) result" where
  "list_exports env db include_deleted =
    and_then (statement env ''list exports'') (\<lambda>_.
      try_map row_to_export_record
        (sort_key (\<lambda>r. map of_char (xr_name (fst r)) :: nat list)
          (filter (\<lambda>r. include_deleted \<or> xr_state (fst r) \<noteq> ''deleted'') (join_heads db))))"

definition load_node :: "db_env \<Rightarrow> catalog_db \<Rightarrow> node_id \<Rightarrow> (catalog_error, tree_node_record option) result" where
  "load_node env db nid =
    and_then (statement env ''load node'') (\<lambda>_.
      transpose_opt row_to_node (find (\<lambda>r. nr_id r = nid) (db_nodes db)))"

definition load_nodes :: "db_env \<Rightarrow> catalog_db \<Rightarrow> node_id list \<Rightarrow> (catalog_error, tree_node_record list) result" where
  "load_nodes env db ids =
    and_then (try_map (load_node env db) ids) (\<lambda>found. Inr (List.map_filter id found))"

definition load_child_edges ::
  "db_env \<Rightarrow> catalog_db \<Rightarrow> tree_edge_lookup list \<Rightarrow> (catalog_error, tree_edge_record list) result" where
  "load_child_edges env db lookups =
    and_then (try_map (\<lambda>(parent, slot).
        and_then (statement env ''load edge'') (\<lambda>_.
          transpose_opt row_to_edge
            (find (\<lambda>r. gr_parent_node_id r = parent \<and> gr_slot r = u16_to_i64 slot) (db_edges db))))
      (concat (map (\<lambda>l. map (Pair (tel_parent_node_id l)) (tel_slots l)) lookups))) (\<lambda>found.
      Inr (List.map_filter id found))"

definition load_leaf_refs ::
  "db_env \<Rightarrow> catalog_db \<Rightarrow> node_id list \<Rightarrow> (catalog_error, tree_leaf_ref_record list) result" where
  "load_leaf_refs env db ids =
    and_then (try_map (\<lambda>nid.
        and_then (statement env ''load leaf ref'') (\<lambda>_.
          transpose_opt row_to_leaf_ref (find (\<lambda>r. lr_node_id r = nid) (db_leaf_refs db)))) ids) (\<lambda>found.
      Inr (List.map_filter id found))"

section \<open>Changes\<close>

text \<open>
  A change runs in a transaction: \<open>in_tx\<close> keeps the new tables only when the body returns
  without an error, otherwise the dropped transaction is rolled back.
\<close>

definition in_tx :: "catalog_db \<Rightarrow> (catalog_error, catalog_db \<times> (catalog_error, 'a) result) result
    \<Rightarrow> catalog_db \<times> (catalog_error, 'a) result" where
  "in_tx db body = (case body of Inl e \<Rightarrow> (db, Inl e) | Inr (db', r) \<Rightarrow> (db', r))"

definition empty_head_for :: "create_export_request \<Rightarrow> (catalog_error, export_head) result" where
  "empty_head_for req =
    (case ce_engine_kind req of
       Memory \<Rightarrow> memory_empty (ce_size_bytes req)
     | SimpleDurable \<Rightarrow> simple_mutable_tree (ce_size_bytes req)
     | WalDurable \<Rightarrow> cow_immutable_tree (ce_size_bytes req))"

definition create_export ::
  "db_env \<Rightarrow> string \<Rightarrow> (catalog_error, timestamp) result \<Rightarrow> create_export_request \<Rightarrow> catalog_db
    \<Rightarrow> catalog_db \<times> (catalog_error, export_record) result" where
  "create_export env uuid clock req db = in_tx db (
    and_then (new_export_id uuid) (\<lambda>export_id.
    and_then clock (\<lambda>now.
    and_then (u64_to_i64 ''size_bytes'' (ce_size_bytes req)) (\<lambda>size_bytes.
    and_then (u64_to_i64 ''block_size'' (ce_block_size req)) (\<lambda>block_size.
    and_then (empty_head_for req) (\<lambda>head.
    and_then (statement env ''begin'') (\<lambda>_.
    and_then (run_insert env ''insert export'' (ExportAlreadyExists (ce_name req)) (insert_export_row
        \<lparr>xr_id = export_id, xr_name = ce_name req, xr_engine_kind = engine_kind_text (ce_engine_kind req),
         xr_block_size = block_size, xr_state = ''active'', xr_created_at = now, xr_updated_at = now,
         xr_deleted_at = None\<rparr> db)) (\<lambda>db1.
    and_then (u64_to_i64 ''base_wal_seq'' (head_base_wal_seq head)) (\<lambda>base.
    and_then (run_insert env ''insert head'' Database (insert_head_row
        \<lparr>hr_export_id = export_id, hr_layout_kind = layout_kind_text (head_layout_kind head),
         hr_root_node_id = head_root_node_id head, hr_tree_format = map_option tree_format_text (head_tree_format head),
         hr_size_bytes = size_bytes, hr_base_wal_seq = base, hr_updated_at = now\<rparr> db1)) (\<lambda>db2.
    and_then (statement env ''commit'') (\<lambda>_.
      Inr (db2, new_export_record export_id (ce_name req) (ce_block_size req) (ce_engine_kind req) Active head
        now now None))))))))))))"

definition clone_export ::
  "db_env \<Rightarrow> string \<Rightarrow> (catalog_error, timestamp) result \<Rightarrow> clone_export_request \<Rightarrow> catalog_db
    \<Rightarrow> catalog_db \<times> (catalog_error, export_record \<times> export_record) result" where
  "clone_export env uuid clock req db = in_tx db (
    and_then (new_export_id uuid) (\<lambda>destination_id.
    and_then clock (\<lambda>now.
    and_then (statement env ''begin'') (\<lambda>_.
    and_then (fetch_by_name env db (cl_source req)) (\<lambda>source.
    if er_state source = Deleted then Inl (ExportDeleted (cl_source req))
    else if er_engine_kind source \<noteq> WalDurable then Inl (InvalidField ''source'')
    else if head_layout_kind (er_head source) \<noteq> CowImmutableTree then Inl (InvalidField ''source'')
    else
    and_then (ok_or (InvalidField ''source'') (head_root_node_id (er_head source))) (\<lambda>source_root.
    and_then (u64_to_i64 ''block_size'' (er_block_size source)) (\<lambda>block_size.
    and_then (run_insert env ''insert export'' (ExportAlreadyExists (cl_destination req)) (insert_export_row
        \<lparr>xr_id = destination_id, xr_name = cl_destination req, xr_engine_kind = ''wal_durable'',
         xr_block_size = block_size, xr_state = ''active'', xr_created_at = now, xr_updated_at = now,
         xr_deleted_at = None\<rparr> db)) (\<lambda>db1.
    and_then (ok_or (InvalidField ''tree_format'') (head_tree_format (er_head source))) (\<lambda>fmt.
    and_then (u64_to_i64 ''size_bytes'' (head_size_bytes (er_head source))) (\<lambda>size_bytes.
    and_then (run_insert env ''insert head'' Database (insert_head_row
        \<lparr>hr_export_id = destination_id, hr_layout_kind = ''cow_immutable_tree'', hr_root_node_id = Some source_root,
         hr_tree_format = Some (tree_format_text fmt), hr_size_bytes = size_bytes, hr_base_wal_seq = 0,
         hr_updated_at = now\<rparr> db1)) (\<lambda>db2.
    and_then (fetch_export_record_by_id env db2 destination_id) (\<lambda>destination.
    and_then (statement env ''commit'') (\<lambda>_.
      Inr (db2, Inr (source, destination)))))))))))))))"

definition delete_export ::
  "db_env \<Rightarrow> (catalog_error, timestamp) result \<Rightarrow> export_name \<Rightarrow> catalog_db
    \<Rightarrow> catalog_db \<times> (catalog_error, unit) result" where
  "delete_export env clock name db = in_tx db (
    and_then (fetch_by_name env db name) (\<lambda>meta.
    if er_state meta = Deleted then Inl (ExportDeleted name)
    else
    and_then clock (\<lambda>now.
    and_then (statement env ''mark deleted'') (\<lambda>_.
      let hit = (\<lambda>r. xr_id r = er_id meta \<and> xr_state r = ''active'');
          rows_affected = length (filter hit (db_exports db));
          db1 = db\<lparr>db_exports := map (\<lambda>r. if hit r
            then r\<lparr>xr_state := ''deleted'', xr_updated_at := now, xr_deleted_at := Some now\<rparr> else r) (db_exports db)\<rparr>
      in Inr (db1, if rows_affected = 1 then Inr () else Inl (ExportDeleted name))))))"

definition insert_node_record :: "db_env \<Rightarrow> catalog_db \<Rightarrow> tree_node_record \<Rightarrow> (catalog_error, catalog_db) result" where
  "insert_node_record env db n =
    and_then (u64_to_i64 ''span_start_bytes'' (tn_span_start_bytes n)) (\<lambda>start.
    and_then (u64_to_i64 ''span_len_bytes'' (tn_span_len_bytes n)) (\<lambda>len.
      run_insert env ''insert node'' Database (insert_node_row
        \<lparr>nr_id = tn_id n, nr_layout_kind = layout_kind_text (tn_layout_kind n),
         nr_owner_export_id = tn_owner_export_id n, nr_kind = node_kind_text (tn_kind n),
         nr_level = u16_to_i64 (tn_level n), nr_span_start_bytes = start, nr_span_len_bytes = len\<rparr> db)))"

definition insert_edge_record :: "db_env \<Rightarrow> catalog_db \<Rightarrow> tree_edge_record \<Rightarrow> (catalog_error, catalog_db) result" where
  "insert_edge_record env db e =
    run_insert env ''insert edge'' Database (insert_edge_row
      \<lparr>gr_parent_node_id = te_parent_node_id e, gr_slot = u16_to_i64 (te_slot e),
       gr_child_node_id = te_child_node_id e\<rparr> db)"

definition insert_leaf_record :: "db_env \<Rightarrow> catalog_db \<Rightarrow> tree_leaf_ref_record \<Rightarrow> (catalog_error, catalog_db) result" where
  "insert_leaf_record env db l =
    and_then (u64_to_i64 ''len_bytes'' (tl_len_bytes l)) (\<lambda>len.
      run_insert env ''insert leaf ref'' Database (insert_leaf_row
        \<lparr>lr_node_id = tl_node_id l, lr_storage_kind = storage_kind_text (tl_storage_kind l),
         lr_storage_key = tl_storage_key l, lr_len_bytes = len\<rparr> db))"

definition insert_tree_records :: "db_env \<Rightarrow> tree_record_batch \<Rightarrow> catalog_db \<Rightarrow> (catalog_error, catalog_db) result" where
  "insert_tree_records env records db =
    and_then (try_fold (insert_node_record env) db (tb_nodes records)) (\<lambda>db.
    and_then (try_fold (insert_edge_record env) db (tb_edges records)) (\<lambda>db.
      try_fold (insert_leaf_record env) db (tb_leaf_refs records)))"

text \<open>The guarded update of the head row: the rows it hits, and the tables after it.\<close>

definition head_row_matches :: "export_id \<Rightarrow> export_head \<Rightarrow> int \<Rightarrow> int \<Rightarrow> head_row \<Rightarrow> bool" where
  "head_row_matches eid expected size_bytes base r \<longleftrightarrow>
    hr_export_id r = eid \<and> hr_layout_kind r = layout_kind_text (head_layout_kind expected) \<and>
    hr_root_node_id r = head_root_node_id expected \<and>
    hr_tree_format r = map_option tree_format_text (head_tree_format expected) \<and>
    hr_size_bytes r = size_bytes \<and> hr_base_wal_seq r = base"

definition set_head_row :: "export_head \<Rightarrow> int \<Rightarrow> int \<Rightarrow> timestamp \<Rightarrow> head_row \<Rightarrow> head_row" where
  "set_head_row head size_bytes base now r =
    r\<lparr>hr_layout_kind := layout_kind_text (head_layout_kind head), hr_root_node_id := head_root_node_id head,
      hr_tree_format := map_option tree_format_text (head_tree_format head), hr_size_bytes := size_bytes,
      hr_base_wal_seq := base, hr_updated_at := now\<rparr>"

definition update_heads ::
  "(head_row \<Rightarrow> bool) \<Rightarrow> (head_row \<Rightarrow> head_row) \<Rightarrow> catalog_db \<Rightarrow> (catalog_error, catalog_db \<times> nat) result" where
  "update_heads hit set_row db =
    (let rows = map (\<lambda>r. if hit r then set_row r else r) (db_heads db) in
     if list_all (\<lambda>r. hit r \<longrightarrow> head_checks (set_row r) \<and> head_references db (set_row r)) (db_heads db)
     then Inr (db\<lparr>db_heads := rows\<rparr>, length (filter hit (db_heads db)))
     else Inl Database)"

definition publish_tree_update ::
  "db_env \<Rightarrow> (catalog_error, timestamp) result \<Rightarrow> publish_tree_update_request \<Rightarrow> catalog_db
    \<Rightarrow> catalog_db \<times> (catalog_error, publish_outcome) result" where
  "publish_tree_update env clock req db = in_tx db (
    and_then clock (\<lambda>now.
    and_then (statement env ''begin'') (\<lambda>_.
    and_then (fetch_export_record_by_id env db (pu_export_id req)) (\<lambda>current.
    if er_state current = Deleted then Inl (ExportDeleted (er_name current))
    else if er_head current \<noteq> pu_expected_head req then
      and_then (statement env ''commit'') (\<lambda>_. Inr (db, Inr (StaleHead current)))
    else
    and_then (insert_tree_records env (pu_records req) db) (\<lambda>db1.
    and_then (u64_to_i64 ''size_bytes'' (head_size_bytes (pu_next_head req))) (\<lambda>next_size.
    and_then (u64_to_i64 ''base_wal_seq'' (head_base_wal_seq (pu_next_head req))) (\<lambda>next_base.
    and_then (u64_to_i64 ''size_bytes'' (head_size_bytes (pu_expected_head req))) (\<lambda>expected_size.
    and_then (u64_to_i64 ''base_wal_seq'' (head_base_wal_seq (pu_expected_head req))) (\<lambda>expected_base.
    and_then (statement env ''update head'') (\<lambda>_.
    and_then (update_heads (head_row_matches (pu_export_id req) (pu_expected_head req) expected_size expected_base)
        (set_head_row (pu_next_head req) next_size next_base now) db1) (\<lambda>(db2, rows_affected).
    if rows_affected = 0 then
      and_then (statement env ''rollback'') (\<lambda>_.
      and_then (fetch_export_record_by_id env db (pu_export_id req)) (\<lambda>current.
        Inr (db, Inr (StaleHead current))))
    else
    and_then (statement env ''touch export'') (\<lambda>_.
      let db3 = db2\<lparr>db_exports := map (\<lambda>r. if xr_id r = pu_export_id req then r\<lparr>xr_updated_at := now\<rparr> else r)
            (db_exports db2)\<rparr> in
    and_then (fetch_export_record_by_id env db3 (pu_export_id req)) (\<lambda>record.
    and_then (statement env ''commit'') (\<lambda>_.
      Inr (db3, Inr (Published record))))))))))))))))"

section \<open>Rows and records\<close>

lemma u64_to_i64_Inr_iff [simp]: "u64_to_i64 f v = Inr i \<longleftrightarrow> v < 2 ^ 63 \<and> i = int v"
  by (auto simp: u64_to_i64_def)

lemma i64_to_u64_Inr_iff [simp]: "i64_to_u64 f i = Inr v \<longleftrightarrow> i = int v"
  by (auto simp: i64_to_u64_def)

lemma i64_to_u16_Inr_iff [simp]: "i64_to_u16 f i = Inr v \<longleftrightarrow> i = int v \<and> v < 2 ^ 16"
  by (auto simp: i64_to_u16_def)

lemma transpose_opt_Inr_iff:
  "transpose_opt f m = Inr y \<longleftrightarrow> (m = None \<and> y = None \<or> (\<exists>x z. m = Some x \<and> f x = Inr z \<and> y = Some z))"
  by (cases m) (auto simp: transpose_opt_def and_then_Inr_iff)

definition valid_root :: "node_id option \<Rightarrow> bool" where
  "valid_root root \<longleftrightarrow> (\<forall>r. root = Some r \<longrightarrow> new_node_id r = Inr r)"

lemma transpose_node_id: "transpose_opt new_node_id m = Inr y \<longleftrightarrow> y = m \<and> valid_root m"
  by (cases m) (auto simp: transpose_opt_def valid_root_def new_node_id_def and_then_Inr_iff)

lemma layout_text_cases:
  "head_checks h \<Longrightarrow> parse_layout_kind (hr_layout_kind h) = Inr k \<longleftrightarrow> hr_layout_kind h = layout_kind_text k"
  using layout_text.decode_iff [of "hr_layout_kind h" k] by auto

text \<open>
  A head row that satisfies the checks of the schema reads back to a head exactly when its
  columns are the head's own.
\<close>

lemma row_to_export_head_Inr_iff:
  assumes "head_checks h"
  shows "row_to_export_head h = Inr ph \<longleftrightarrow>
    hr_layout_kind h = layout_kind_text (head_layout_kind ph) \<and> hr_root_node_id h = head_root_node_id ph \<and>
    valid_root (head_root_node_id ph) \<and> hr_tree_format h = map_option tree_format_text (head_tree_format ph) \<and>
    hr_size_bytes h = int (head_size_bytes ph) \<and> hr_base_wal_seq h = int (head_base_wal_seq ph)"
proof -
  obtain k where k: "hr_layout_kind h = layout_kind_text k"
    using assms by (auto simp: head_checks_def intro: that [of MemoryEmpty] that [of SimpleMutableTree]
        that [of CowImmutableTree])
  have fmt: "(case k of MemoryEmpty \<Rightarrow> Inr None
      | _ \<Rightarrow> and_then (ok_or (InvalidField ''tree_format'') (hr_tree_format h)) (\<lambda>text.
          and_then (parse_tree_format text) (\<lambda>fmt. Inr (Some fmt)))) = Inr (if k = MemoryEmpty then None else Some Bounded32V1)"
    using assms k by (cases k) (auto simp: head_checks_def parse_tree_format_def)
  have parse: "parse_layout_kind (hr_layout_kind h) = Inr k" using layout_text_cases [OF assms] k by blast
  have "row_to_export_head h = Inr ph \<longleftrightarrow> valid_root (hr_root_node_id h) \<and>
      (\<exists>n b. hr_size_bytes h = int n \<and> hr_base_wal_seq h = int b \<and>
        new_head_with_tree_format k (hr_root_node_id h) n b (if k = MemoryEmpty then None else Some Bounded32V1) = Inr ph)"
    unfolding row_to_export_head_def parse and_then.simps fmt and_then_Inr_iff transpose_node_id i64_to_u64_Inr_iff by blast
  also have "\<dots> \<longleftrightarrow> hr_layout_kind h = layout_kind_text (head_layout_kind ph) \<and> hr_root_node_id h = head_root_node_id ph \<and>
    valid_root (head_root_node_id ph) \<and> hr_tree_format h = map_option tree_format_text (head_tree_format ph) \<and>
    hr_size_bytes h = int (head_size_bytes ph) \<and> hr_base_wal_seq h = int (head_base_wal_seq ph)"
  proof (cases ph)
    case (MemoryHead m)
    then show ?thesis
      using assms k unfolding new_head_with_tree_format_Inr_iff by (cases k) (auto simp: head_checks_def)
  next
    case (SimpleHead m)
    moreover have "sh_tree_format m = Bounded32V1" by (cases "sh_tree_format m") simp
    ultimately show ?thesis
      using assms k unfolding new_head_with_tree_format_Inr_iff by (cases k) (auto simp: head_checks_def)
  next
    case (CowHead m)
    moreover have "ch_tree_format m = Bounded32V1" by (cases "ch_tree_format m") simp
    ultimately show ?thesis
      using assms k unfolding new_head_with_tree_format_Inr_iff by (cases k) (auto simp: head_checks_def)
  qed
  finally show ?thesis .
qed

section \<open>Well-formed tables\<close>

text \<open>
  Every export has one head row, inserted in the same transaction, so the two tables run in
  parallel; ids and names are unique and head rows satisfy the checks of the schema.
\<close>

definition db_wf :: "catalog_db \<Rightarrow> bool" where
  "db_wf db \<longleftrightarrow> distinct (map xr_id (db_exports db)) \<and> distinct (map xr_name (db_exports db)) \<and>
    map hr_export_id (db_heads db) = map xr_id (db_exports db) \<and> (\<forall>h \<in> set (db_heads db). head_checks h)"

definition empty_db :: catalog_db where
  "empty_db = \<lparr>db_exports = [], db_heads = [], db_nodes = [], db_edges = [], db_leaf_refs = []\<rparr>"

lemma empty_db_wf [simp]: "db_wf empty_db"
  by (simp add: db_wf_def empty_db_def)

lemma join_zip_list:
  "map f hs = map g es \<Longrightarrow> distinct (map g es) \<Longrightarrow>
    concat (map (\<lambda>e. map (Pair e) (filter (\<lambda>h. f h = g e) hs)) es) = zip es hs"
proof (induction es arbitrary: hs)
  case (Cons e es)
  then obtain h hs' where hs: "hs = h # hs'" "f h = g e" "map f hs' = map g es" by (cases hs) auto
  have "g e \<notin> set (map f hs')" using Cons.prems(2) hs(3) by simp
  then have "\<forall>x \<in> set hs'. f x \<noteq> g e" by (metis image_eqI list.set_map)
  then have "filter (\<lambda>h. f h = g e) hs' = []" by (simp add: filter_empty_conv)
  moreover have "map (\<lambda>e'. map (Pair e') (filter (\<lambda>h. f h = g e') hs)) es =
      map (\<lambda>e'. map (Pair e') (filter (\<lambda>h. f h = g e') hs')) es"
    using Cons.prems(2) hs by (intro map_cong) auto
  moreover have "concat (map (\<lambda>e'. map (Pair e') (filter (\<lambda>h. f h = g e') hs')) es) = zip es hs'"
    using Cons.prems(2) hs(3) by (intro Cons.IH) auto
  ultimately have "concat (map (\<lambda>e'. map (Pair e') (filter (\<lambda>h. f h = g e') hs)) es) = zip es hs'" by argo
  then show ?case using \<open>filter (\<lambda>h. f h = g e) hs' = []\<close> unfolding hs(1)
    by (simp only: list.map concat.simps filter.simps hs(2) if_True simp_thms zip_Cons_Cons append_Cons append_Nil)
qed simp

lemma join_heads_zip: "db_wf db \<Longrightarrow> join_heads db = zip (db_exports db) (db_heads db)"
  unfolding join_heads_def db_wf_def by (intro join_zip_list) auto

lemma find_by_idE:
  assumes "db_wf db" "find_by_id db eid = Some (e, h)"
  obtains i where "i < length (db_exports db)" "i < length (db_heads db)" "db_exports db ! i = e" "db_heads db ! i = h"
    "xr_id e = eid" "hr_export_id h = eid"
proof -
  have "length (map hr_export_id (db_heads db)) = length (map xr_id (db_exports db))"
    using assms(1) unfolding db_wf_def by argo
  then have "length (db_heads db) = length (db_exports db)" by simp
  moreover obtain i where i: "i < length (zip (db_exports db) (db_heads db))"
      "zip (db_exports db) (db_heads db) ! i = (e, h)" "xr_id e = eid"
    using assms(2) by (auto simp: find_by_id_def join_heads_zip [OF assms(1)] find_Some_iff)
  moreover have "map hr_export_id (db_heads db) ! i = map xr_id (db_exports db) ! i"
    using assms(1) by (simp add: db_wf_def)
  ultimately show thesis using that [of i] by simp
qed

lemma head_unique:
  assumes "db_wf db" "h \<in> set (db_heads db)" "h' \<in> set (db_heads db)" "hr_export_id h = hr_export_id h'"
  shows "h = h'"
proof -
  have "distinct (map hr_export_id (db_heads db))" using assms(1) by (simp add: db_wf_def)
  then show ?thesis using assms(2-4) unfolding distinct_map by (blast dest: inj_onD)
qed

lemma find_unique:
  assumes "x \<in> set xs" "P x" "\<And>y. y \<in> set xs \<Longrightarrow> P y \<Longrightarrow> y = x"
  shows "find P xs = Some x"
proof (cases "find P xs")
  case None
  then show ?thesis using assms(1,2) by (auto simp: find_None_iff)
next
  case (Some y)
  then have "y \<in> set xs" "P y" by (auto simp: find_Some_iff)
  then show ?thesis using Some assms(3) [of y] by blast
qed

section \<open>Transactions\<close>

lemma in_tx_cases:
  assumes "in_tx db body = (db', r)"
  obtains (failed) e where "body = Inl e" "db' = db" "r = Inl e"
  | (committed) "body = Inr (db', r)"
  using assms by (cases body) (auto simp: in_tx_def)

lemma run_insert_Inr_iff: "run_insert env l u res = Inr db \<longleftrightarrow> \<not> env l \<and> res = Inr db"
  by (auto simp: run_insert_def statement_def)

lemma statement_Inr_iff [simp]: "statement env l = Inr u \<longleftrightarrow> \<not> env l"
  by (auto simp: statement_def)

lemma statement_db_ok [simp]: "statement db_ok l = Inr ()"
  by (simp add: statement_def db_ok_def)

text \<open>Publishing records only appends to the tree tables.\<close>

definition extends_tree :: "catalog_db \<Rightarrow> catalog_db \<Rightarrow> bool" where
  "extends_tree db db' \<longleftrightarrow> db_exports db' = db_exports db \<and> db_heads db' = db_heads db \<and>
    (\<exists>ns es ls. db_nodes db' = db_nodes db @ ns \<and> db_edges db' = db_edges db @ es \<and> db_leaf_refs db' = db_leaf_refs db @ ls)"

lemma extends_tree_trans: "extends_tree a b \<Longrightarrow> extends_tree b c \<Longrightarrow> extends_tree a c"
  by (auto simp: extends_tree_def)

lemma extends_tree_refl [simp]: "extends_tree a a"
  by (auto simp: extends_tree_def)

lemma insert_record_extends:
  "insert_node_record env db n = Inr db' \<Longrightarrow> extends_tree db db'"
  "insert_edge_record env db e = Inr db' \<Longrightarrow> extends_tree db db'"
  "insert_leaf_record env db l = Inr db' \<Longrightarrow> extends_tree db db'"
  by (auto simp: insert_node_record_def insert_edge_record_def insert_leaf_record_def and_then_Inr_iff
      run_insert_Inr_iff insert_node_row_def insert_edge_row_def insert_leaf_row_def extends_tree_def split: if_splits)

lemma fold_extends:
  assumes "\<And>db x db'. f db x = Inr db' \<Longrightarrow> extends_tree db db'"
  shows "try_fold f db xs = Inr db' \<Longrightarrow> extends_tree db db'"
  by (induction xs arbitrary: db) (auto simp: and_then_Inr_iff intro: extends_tree_trans assms)

lemma insert_tree_records_extends:
  assumes "insert_tree_records env records db = Inr db'"
  shows "extends_tree db db'"
proof -
  obtain db1 db2 where steps: "try_fold (insert_node_record env) db (tb_nodes records) = Inr db1"
    "try_fold (insert_edge_record env) db1 (tb_edges records) = Inr db2"
    "try_fold (insert_leaf_record env) db2 (tb_leaf_refs records) = Inr db'"
    using assms by (auto simp: insert_tree_records_def and_then_Inr_iff)
  have "extends_tree db db1" by (rule fold_extends [OF insert_record_extends(1) steps(1)])
  moreover have "extends_tree db1 db2" by (rule fold_extends [OF insert_record_extends(2) steps(2)])
  moreover have "extends_tree db2 db'" by (rule fold_extends [OF insert_record_extends(3) steps(3)])
  ultimately show ?thesis by (blast intro: extends_tree_trans)
qed

lemma row_to_export_record_Inr:
  "row_to_export_record (e, h) = Inr r \<Longrightarrow> row_to_export_head h = Inr (er_head r) \<and>
    (\<exists>d. row_to_export_descriptor e = Inr d \<and> ed_id d = er_id r \<and> ed_name d = er_name r \<and> ed_state d = er_state r)"
  by (auto simp: row_to_export_record_def and_then_Inr_iff into_record_def new_export_record_def split: if_splits)

text \<open>The head row a publication reads, and the only row its update hits.\<close>

lemma fetched_head:
  assumes "db_wf db" "fetch_export_record_by_id env db eid = Inr current"
  obtains h where "h \<in> set (db_heads db)" "hr_export_id h = eid" "row_to_export_head h = Inr (er_head current)"
    "head_checks h"
proof -
  obtain row where row: "find_by_id db eid = Some row" "row_to_export_record row = Inr current"
    using assms(2) by (auto simp: fetch_export_record_by_id_def and_then_Inr_iff)
  obtain e h where eh: "row = (e, h)" by (cases row)
  obtain i where i: "i < length (db_heads db)" "db_heads db ! i = h" "hr_export_id h = eid"
    using find_by_idE [OF assms(1) row(1) [unfolded eh]] by blast
  have "h \<in> set (db_heads db)" using i(1,2) by auto
  moreover from this have "head_checks h" using assms(1) by (simp add: db_wf_def)
  moreover have "row_to_export_head h = Inr (er_head current)"
    using row_to_export_record_Inr [OF row(2) [unfolded eh]] by blast
  ultimately show thesis using that i(3) by blast
qed

lemma load_head_unique:
  assumes "db_wf db" "h \<in> set (db_heads db)" "hr_export_id h = eid"
  shows "load_export_head db_ok db eid = row_to_export_head h"
proof -
  have "find (\<lambda>h. hr_export_id h = eid) (db_heads db) = Some h"
  proof (rule find_unique)
    show "y = h" if "y \<in> set (db_heads db)" "hr_export_id y = eid" for y
      using head_unique [OF assms(1) that(1) assms(2)] that(2) assms(3) by simp
  qed (use assms in simp_all)
  then show ?thesis by (simp add: load_export_head_def)
qed

lemma load_head_None:
  assumes "\<forall>h \<in> set (db_heads db). hr_export_id h \<noteq> eid"
  shows "load_export_head db_ok db eid = Inl Database"
proof -
  have "find (\<lambda>h. hr_export_id h = eid) (db_heads db) = None" using assms by (auto simp: find_None_iff)
  then show ?thesis by (simp add: load_export_head_def)
qed

text \<open>The guard of the update is the comparison the publication made when it read the head.\<close>

lemma matches_iff:
  assumes "db_wf db" "h \<in> set (db_heads db)" "hr_export_id h = eid" "row_to_export_head h = Inr expected"
    and "r \<in> set (db_heads db)"
  shows "head_row_matches eid expected (int (head_size_bytes expected)) (int (head_base_wal_seq expected)) r \<longleftrightarrow>
    r = h"
proof
  assume "head_row_matches eid expected (int (head_size_bytes expected)) (int (head_base_wal_seq expected)) r"
  then have "hr_export_id r = hr_export_id h" using assms(3) by (simp add: head_row_matches_def)
  then show "r = h" by (rule head_unique [OF assms(1,5,2)])
next
  assume "r = h"
  moreover have "head_checks h" using assms(1,2) by (simp add: db_wf_def)
  ultimately show "head_row_matches eid expected (int (head_size_bytes expected)) (int (head_base_wal_seq expected)) r"
    using assms(3,4) by (simp add: head_row_matches_def row_to_export_head_Inr_iff)
qed

lemma set_head_row_reads:
  assumes "head_checks (set_head_row ph (int (head_size_bytes ph)) (int (head_base_wal_seq ph)) now h)"
    and "row_to_export_head (set_head_row ph (int (head_size_bytes ph)) (int (head_base_wal_seq ph)) now h) = Inr q"
  shows "row_to_export_head (set_head_row ph (int (head_size_bytes ph)) (int (head_base_wal_seq ph)) now h) = Inr ph"
proof -
  have "valid_root (head_root_node_id ph)"
    using assms(2) unfolding row_to_export_head_Inr_iff [OF assms(1)] by (simp add: set_head_row_def)
  then show ?thesis unfolding row_to_export_head_Inr_iff [OF assms(1)] by (simp add: set_head_row_def)
qed

text \<open>The branches of a publication.\<close>

lemma publish_cases:
  assumes "publish_tree_update env clock req db = (db', res)"
  obtains (failed) e where "res = Inl e" "db' = db"
  | (stale) current where "res = Inr (StaleHead current)" "db' = db"
      "fetch_export_record_by_id env db (pu_export_id req) = Inr current" "er_head current \<noteq> pu_expected_head req"
  | (missed) current where "res = Inr (StaleHead current)" "db' = db"
      "fetch_export_record_by_id env db (pu_export_id req) = Inr current" "er_head current = pu_expected_head req"
      "filter (head_row_matches (pu_export_id req) (pu_expected_head req) (int (head_size_bytes (pu_expected_head req)))
        (int (head_base_wal_seq (pu_expected_head req)))) (db_heads db) = []"
  | (published) now db1 db2 n final current where "res = Inr (Published final)" "er_state current \<noteq> Deleted"
      "fetch_export_record_by_id env db (pu_export_id req) = Inr current" "er_head current = pu_expected_head req"
      "insert_tree_records env (pu_records req) db = Inr db1"
      "update_heads (head_row_matches (pu_export_id req) (pu_expected_head req)
          (int (head_size_bytes (pu_expected_head req))) (int (head_base_wal_seq (pu_expected_head req))))
        (set_head_row (pu_next_head req) (int (head_size_bytes (pu_next_head req)))
          (int (head_base_wal_seq (pu_next_head req))) now) db1 = Inr (db2, n)" "n \<noteq> 0"
      "db' = db2\<lparr>db_exports := map (\<lambda>r. if xr_id r = pu_export_id req then r\<lparr>xr_updated_at := now\<rparr> else r)
            (db_exports db2)\<rparr>"
      "fetch_export_record_by_id env db' (pu_export_id req) = Inr final"
  using assms [unfolded publish_tree_update_def]
proof (cases rule: in_tx_cases)
  case (failed e)
  then show thesis using that(1) by blast
next
  case committed
  then obtain now current where cur: "fetch_export_record_by_id env db (pu_export_id req) = Inr current"
    by (auto simp: and_then_Inr_iff)
  show thesis
  proof (cases "er_head current = pu_expected_head req")
    case False
    then show thesis using committed cur that(2) [of current] by (auto simp: and_then_Inr_iff split: if_splits)
  next
    case True
    then obtain now db1 db2 n where steps: "er_state current \<noteq> Deleted" "insert_tree_records env (pu_records req) db = Inr db1"
      "update_heads (head_row_matches (pu_export_id req) (pu_expected_head req)
          (int (head_size_bytes (pu_expected_head req))) (int (head_base_wal_seq (pu_expected_head req))))
        (set_head_row (pu_next_head req) (int (head_size_bytes (pu_next_head req)))
          (int (head_base_wal_seq (pu_next_head req))) now) db1 = Inr (db2, n)"
      and rest: "(if n = 0 then
      and_then (statement env ''rollback'') (\<lambda>_.
      and_then (fetch_export_record_by_id env db (pu_export_id req)) (\<lambda>current.
        Inr (db, Inr (StaleHead current))))
    else
    and_then (statement env ''touch export'') (\<lambda>_.
      let db3 = db2\<lparr>db_exports := map (\<lambda>r. if xr_id r = pu_export_id req then r\<lparr>xr_updated_at := now\<rparr> else r)
            (db_exports db2)\<rparr> in
    and_then (fetch_export_record_by_id env db3 (pu_export_id req)) (\<lambda>record.
    and_then (statement env ''commit'') (\<lambda>_.
      Inr (db3, Inr (Published record)))))) = Inr (db', res)"
      using committed cur by (auto simp: and_then_Inr_iff split: if_splits)
    show thesis
    proof (cases "n = 0")
      case n: True
      have "db_heads db1 = db_heads db" using insert_tree_records_extends [OF steps(2)] by (simp add: extends_tree_def)
      then show thesis using rest n cur True steps(3) that(3) [of current]
        by (auto simp: and_then_Inr_iff update_heads_def Let_def split: if_splits)
    next
      case False
      then show thesis using rest cur True steps that(4) [OF _ steps(1) cur True steps(2,3) False]
        by (auto simp: and_then_Inr_iff Let_def)
    qed
  qed
qed

lemma db_wf_update:
  assumes "db_wf db" "db_exports db' = map f (db_exports db)" "db_heads db' = map g (db_heads db)"
    and "\<And>r. xr_id (f r) = xr_id r \<and> xr_name (f r) = xr_name r" "\<And>h. hr_export_id (g h) = hr_export_id h"
    and "\<forall>h \<in> set (db_heads db). head_checks (g h)"
  shows "db_wf db'"
proof -
  have "map xr_id (db_exports db') = map xr_id (db_exports db)" "map xr_name (db_exports db') = map xr_name (db_exports db)"
    "map hr_export_id (db_heads db') = map hr_export_id (db_heads db)"
    using assms(2-5) by (simp_all add: comp_def)
  then show ?thesis using assms(1,3,6) unfolding db_wf_def by simp
qed

text \<open>The tables after a publication that went through.\<close>

lemma published_effect:
  assumes wf: "db_wf db"
    and cur: "fetch_export_record_by_id env db (pu_export_id req) = Inr current" "er_head current = pu_expected_head req"
    and ins: "insert_tree_records env (pu_records req) db = Inr db1"
    and upd: "update_heads (head_row_matches (pu_export_id req) (pu_expected_head req)
          (int (head_size_bytes (pu_expected_head req))) (int (head_base_wal_seq (pu_expected_head req))))
        (set_head_row (pu_next_head req) (int (head_size_bytes (pu_next_head req)))
          (int (head_base_wal_seq (pu_next_head req))) now) db1 = Inr (db2, n)"
    and db': "db' = db2\<lparr>db_exports := map (\<lambda>r. if xr_id r = pu_export_id req then r\<lparr>xr_updated_at := now\<rparr> else r)
            (db_exports db2)\<rparr>"
    and fin: "fetch_export_record_by_id env db' (pu_export_id req) = Inr final"
  shows "db_wf db' \<and> load_export_head db_ok db (pu_export_id req) = Inr (pu_expected_head req) \<and>
    load_export_head db_ok db' (pu_export_id req) = Inr (pu_next_head req) \<and> er_head final = pu_next_head req \<and>
    (\<forall>other. other \<noteq> pu_export_id req \<longrightarrow> load_export_head db_ok db' other = load_export_head db_ok db other)"
proof -
  let ?g = "set_head_row (pu_next_head req) (int (head_size_bytes (pu_next_head req)))
          (int (head_base_wal_seq (pu_next_head req))) now"
  obtain h where h: "h \<in> set (db_heads db)" "hr_export_id h = pu_export_id req"
      "row_to_export_head h = Inr (pu_expected_head req)"
    using fetched_head [OF wf cur(1)] cur(2) by metis
  note hit = matches_iff [OF wf h]
  define g where "g r = (if r = h then ?g r else r)" for r
  have ext: "db_exports db1 = db_exports db" "db_heads db1 = db_heads db"
    using insert_tree_records_extends [OF ins] by (simp_all add: extends_tree_def)
  have checks: "head_checks (?g h)" and heads2: "db_heads db2 = map g (db_heads db)" and ex2: "db_exports db2 = db_exports db"
    using upd ext hit h(1) by (auto simp: update_heads_def Let_def g_def list_all_iff split: if_splits)
  have ids: "hr_export_id (g r) = hr_export_id r" for r by (simp add: g_def set_head_row_def)
  have wf': "db_wf db'"
  proof (rule db_wf_update [OF wf])
    show "db_exports db' = map (\<lambda>r. if xr_id r = pu_export_id req then r\<lparr>xr_updated_at := now\<rparr> else r) (db_exports db)"
      "db_heads db' = map g (db_heads db)"
      by (simp_all add: db' ex2 heads2)
    show "\<forall>h \<in> set (db_heads db). head_checks (g h)" using wf checks by (simp add: g_def db_wf_def)
  qed (simp_all add: ids)
  have gh: "g h \<in> set (db_heads db')" "hr_export_id (g h) = pu_export_id req"
    using h by (simp_all add: db' heads2 ids)
  obtain h2 where h2: "h2 \<in> set (db_heads db')" "hr_export_id h2 = pu_export_id req"
      "row_to_export_head h2 = Inr (er_head final)"
    using fetched_head [OF wf' fin] by metis
  have "h2 = ?g h" using head_unique [OF wf' h2(1) gh(1)] h2(2) gh(2) by (simp add: g_def)
  then have nxt: "row_to_export_head (?g h) = Inr (pu_next_head req)"
    using set_head_row_reads [OF checks] h2(3) by blast
  have other: "load_export_head db_ok db' eid = load_export_head db_ok db eid" if "eid \<noteq> pu_export_id req" for eid
  proof (cases "\<exists>r \<in> set (db_heads db). hr_export_id r = eid")
    case True
    then obtain r where r: "r \<in> set (db_heads db)" "hr_export_id r = eid" by blast
    then have "r \<noteq> h" using h(2) that by auto
    then have "r \<in> set (db_heads db')" using r(1) by (force simp: db' heads2 g_def)
    then show ?thesis using load_head_unique [OF wf r] load_head_unique [OF wf' _ r(2)] by simp
  next
    case False
    then have "\<forall>r \<in> set (db_heads db'). hr_export_id r \<noteq> eid" by (auto simp: db' heads2 ids)
    then show ?thesis using False load_head_None [of db eid] load_head_None [of db' eid] by metis
  qed
  have "load_export_head db_ok db' (pu_export_id req) = Inr (pu_next_head req)"
    using load_head_unique [OF wf' gh] nxt by (simp add: g_def)
  moreover have "er_head final = pu_next_head req" using nxt h2(3) \<open>h2 = ?g h\<close> by simp
  ultimately show ?thesis using wf' other load_head_unique [OF wf h(1,2)] h(3) by simp
qed

text \<open>
  C10. Publishing a tree is a compare-and-swap on the head. If it reports success, the head was
  the expected one, is now the next one, every other export's head is unchanged and the tables
  are still well formed. If it reports a stale head, the head it returns differs from the
  expected one and nothing was written; if it fails, nothing was written either.
\<close>

theorem publish_compare_and_swap:
  assumes "db_wf db" "publish_tree_update env clock req db = (db', res)"
  shows "case res of
      Inl e \<Rightarrow> db' = db
    | Inr (StaleHead current) \<Rightarrow> db' = db \<and> er_head current \<noteq> pu_expected_head req
    | Inr (Published final) \<Rightarrow> db_wf db' \<and> load_export_head db_ok db (pu_export_id req) = Inr (pu_expected_head req) \<and>
        load_export_head db_ok db' (pu_export_id req) = Inr (pu_next_head req) \<and> er_head final = pu_next_head req \<and>
        (\<forall>other. other \<noteq> pu_export_id req \<longrightarrow> load_export_head db_ok db' other = load_export_head db_ok db other)"
  using assms(2)
proof (cases rule: publish_cases)
  case (missed current)
  obtain h where h: "h \<in> set (db_heads db)" "hr_export_id h = pu_export_id req"
      "row_to_export_head h = Inr (pu_expected_head req)"
    using fetched_head [OF assms(1) missed(3)] missed(4) by metis
  then have False using matches_iff [OF assms(1) h h(1)] missed(5) by (auto simp: filter_empty_conv)
  then show ?thesis by simp
next
  case (published now db1 db2 n final current)
  then show ?thesis using published_effect [OF assms(1) published(3-6,8,9)] by simp
qed simp_all

definition sample_db :: catalog_db where
  "sample_db = fst (create_export db_ok ''a'' (Inr ''t'')
    \<lparr>ce_name = ''x'', ce_size_bytes = 4096, ce_block_size = 512, ce_engine_kind = WalDurable\<rparr> empty_db)"

definition sample_publish :: publish_tree_update_request where
  "sample_publish = \<lparr>pu_export_id = ''a'',
    pu_expected_head = CowHead \<lparr>ch_size_bytes = 4096, ch_root_node_id = None, ch_base_wal_seq = 0, ch_tree_format = Bounded32V1\<rparr>,
    pu_next_head = CowHead \<lparr>ch_size_bytes = 4096, ch_root_node_id = Some ''n'', ch_base_wal_seq = 5, ch_tree_format = Bounded32V1\<rparr>,
    pu_records = \<lparr>tb_nodes = [\<lparr>tn_id = ''n'', tn_layout_kind = CowImmutableTree, tn_owner_export_id = None, tn_kind = LeafNode,
      tn_level = 0, tn_span_start_bytes = 0, tn_span_len_bytes = 4096\<rparr>], tb_edges = [], tb_leaf_refs = []\<rparr>\<rparr>"

lemmas catalog_eval = in_tx_def run_insert_def statement_def db_ok_def u64_to_i64_def i64_to_u64_def u16_to_i64_def
  new_export_id_def new_export_name_def new_node_id_def new_timestamp_def non_empty_string_def empty_head_for_def
  insert_export_row_def insert_head_row_def insert_node_row_def head_checks_def head_references_def export_exists_def
  node_exists_def validate_non_zero_def memory_empty_with_base_def memory_empty_def
  simple_mutable_tree_with_root_base_and_format_def simple_mutable_tree_with_root_def simple_mutable_tree_def
  cow_immutable_tree_with_root_and_format_def cow_immutable_tree_with_root_def cow_immutable_tree_def
  default_tree_format_def new_head_with_tree_format_def parse_layout_kind_def parse_tree_format_def parse_engine_kind_def
  parse_export_state_def transpose_opt_def new_export_descriptor_def into_record_def new_export_record_def
  row_to_export_descriptor_def row_to_export_head_def row_to_export_record_def find_by_id_def find_by_name_def
  join_heads_def fetch_export_record_by_id_def fetch_by_name_def NUL_def

lemma sample_db_eq: "sample_db = \<lparr>db_exports = [\<lparr>xr_id = ''a'', xr_name = ''x'', xr_engine_kind = ''wal_durable'',
      xr_block_size = 512, xr_state = ''active'', xr_created_at = ''t'', xr_updated_at = ''t'', xr_deleted_at = None\<rparr>],
    db_heads = [\<lparr>hr_export_id = ''a'', hr_layout_kind = ''cow_immutable_tree'', hr_root_node_id = None,
      hr_tree_format = Some ''bounded_32_v1'', hr_size_bytes = 4096, hr_base_wal_seq = 0, hr_updated_at = ''t''\<rparr>],
    db_nodes = [], db_edges = [], db_leaf_refs = []\<rparr>"
  by (simp add: sample_db_def create_export_def empty_db_def catalog_eval)

lemma sample_db_wf: "db_wf sample_db"
  by (simp add: sample_db_eq db_wf_def head_checks_def)

theorem publish_compare_and_swap_witness:
  "\<exists>db' final. publish_tree_update db_ok (Inr ''u'') sample_publish sample_db = (db', Inr (Published final)) \<and>
    load_export_head db_ok db' ''a'' = Inr (pu_next_head sample_publish)"
proof -
  have "(case snd (publish_tree_update db_ok (Inr ''u'') sample_publish sample_db) of
      Inr (Published r) \<Rightarrow> True | _ \<Rightarrow> False)"
    by (simp add: publish_tree_update_def sample_publish_def sample_db_eq catalog_eval insert_tree_records_def
        insert_node_record_def update_heads_def head_row_matches_def set_head_row_def Let_def)
  then obtain db' final where pub: "publish_tree_update db_ok (Inr ''u'') sample_publish sample_db = (db', Inr (Published final))"
    by (cases "publish_tree_update db_ok (Inr ''u'') sample_publish sample_db")
      (auto split: sum.splits publish_outcome.splits)
  then have "load_export_head db_ok db' ''a'' = Inr (pu_next_head sample_publish)"
    using publish_compare_and_swap [OF sample_db_wf pub] by (simp add: sample_publish_def)
  then show ?thesis using pub by blast
qed

section \<open>Creation, cloning and deletion\<close>

lemma insert_pair:
  assumes wf: "db_wf db" and ins: "insert_export_row row db = Inr db1" "insert_head_row hrow db1 = Inr db2"
    and ids: "hr_export_id hrow = xr_id row"
  shows "db_wf db2" "join_heads db2 = join_heads db @ [(row, hrow)]" "head_checks hrow" "0 < xr_block_size row"
    "\<forall>r \<in> set (db_exports db). xr_name r \<noteq> xr_name row \<and> xr_id r \<noteq> xr_id row"
proof -
  have new: "\<forall>r \<in> set (db_exports db). xr_name r \<noteq> xr_name row \<and> xr_id r \<noteq> xr_id row"
    and db1: "db1 = db\<lparr>db_exports := db_exports db @ [row]\<rparr>" and "0 < xr_block_size row"
    using ins(1) by (auto simp: insert_export_row_def list_ex_iff split: if_splits)
  moreover have chk: "head_checks hrow" and db2: "db2 = db1\<lparr>db_heads := db_heads db1 @ [hrow]\<rparr>"
    using ins(2) by (auto simp: insert_head_row_def split: if_splits)
  ultimately show "head_checks hrow" "0 < xr_block_size row"
    "\<forall>r \<in> set (db_exports db). xr_name r \<noteq> xr_name row \<and> xr_id r \<noteq> xr_id row" by blast+
  show wf2: "db_wf db2" using wf new ids chk unfolding db_wf_def db2 db1 by auto
  have "length (map hr_export_id (db_heads db)) = length (map xr_id (db_exports db))"
    using wf unfolding db_wf_def by argo
  then show "join_heads db2 = join_heads db @ [(row, hrow)]"
    unfolding join_heads_zip [OF wf] join_heads_zip [OF wf2] by (simp add: db2 db1)
qed

lemma join_heads_mem: "(e, h) \<in> set (join_heads db) \<Longrightarrow> e \<in> set (db_exports db) \<and> hr_export_id h = xr_id e"
  by (auto simp: join_heads_def)

lemma find_append: "find P (xs @ ys) = (case find P xs of None \<Rightarrow> find P ys | Some x \<Rightarrow> Some x)"
  by (induction xs) auto

lemma find_by_name_append:
  assumes "join_heads db2 = join_heads db @ [(row, hrow)]" "\<forall>r \<in> set (db_exports db). xr_name r \<noteq> xr_name row"
  shows "find_by_name db2 name = (if name = xr_name row then Some (row, hrow) else find_by_name db name)"
proof -
  have "find (\<lambda>r. xr_name (fst r) = xr_name row) (join_heads db) = None"
    using assms(2) join_heads_mem unfolding find_None_iff by fastforce
  then show ?thesis
    by (auto simp: find_by_name_def assms(1) find_append split: option.splits)
qed

lemma createE:
  assumes "create_export env uuid clock req db = (db', Inr r)"
  obtains now head db1 where "uuid \<noteq> []" "NUL \<notin> set uuid" "clock = Inr now" "empty_head_for req = Inr head"
    "insert_export_row \<lparr>xr_id = uuid, xr_name = ce_name req, xr_engine_kind = engine_kind_text (ce_engine_kind req),
       xr_block_size = int (ce_block_size req), xr_state = ''active'', xr_created_at = now, xr_updated_at = now,
       xr_deleted_at = None\<rparr> db = Inr db1"
    "insert_head_row \<lparr>hr_export_id = uuid, hr_layout_kind = layout_kind_text (head_layout_kind head),
       hr_root_node_id = head_root_node_id head, hr_tree_format = map_option tree_format_text (head_tree_format head),
       hr_size_bytes = int (ce_size_bytes req), hr_base_wal_seq = int (head_base_wal_seq head), hr_updated_at = now\<rparr> db1
     = Inr db'"
    "new_export_record uuid (ce_name req) (ce_block_size req) (ce_engine_kind req) Active head now now None = Inr r"
  using assms [unfolded create_export_def]
proof (cases rule: in_tx_cases)
  case committed
  then show thesis
    by (auto simp: and_then_Inr_iff run_insert_Inr_iff new_export_id_def intro!: that)
qed simp

lemma empty_head_for_Inr:
  "empty_head_for req = Inr head \<Longrightarrow> head_size_bytes head = ce_size_bytes req \<and> head_root_node_id head = None \<and>
    head_base_wal_seq head = 0"
  by (cases "ce_engine_kind req") (auto simp: catalog_eval split: if_splits)

lemma row_to_record_eq:
  assumes "new_export_id (xr_id e) = Inr (xr_id e)" "new_export_name (xr_name e) = Inr (xr_name e)"
    and "xr_block_size e = int bs" "parse_engine_kind (xr_engine_kind e) = Inr kind" "parse_export_state (xr_state e) = Inr st"
    and "new_timestamp (xr_created_at e) = Inr (xr_created_at e)" "new_timestamp (xr_updated_at e) = Inr (xr_updated_at e)"
    and "transpose_opt new_timestamp (xr_deleted_at e) = Inr (xr_deleted_at e)" "row_to_export_head h = Inr head"
  shows "row_to_export_record (e, h) =
    new_export_record (xr_id e) (xr_name e) bs kind st head (xr_created_at e) (xr_updated_at e) (xr_deleted_at e)"
proof -
  have bs: "i64_to_u64 ''block_size'' (xr_block_size e) = Inr bs" using assms(3) by simp
  show ?thesis
    unfolding row_to_export_record_def row_to_export_descriptor_def fst_conv snd_conv assms(1,2,4-9) bs and_then.simps
    by (simp add: into_record_def new_export_descriptor_def new_export_record_def validate_non_zero_def)
qed

text \<open>
  C31. A created export can be loaded and is what the caller was told; it had not existed, under any
  state; no other name is affected and the tables stay well formed.
\<close>

theorem create_then_load:
  assumes "db_wf db" "create_export env uuid clock req db = (db', Inr r)"
    and "new_export_name (ce_name req) = Inr (ce_name req)" "\<And>now. clock = Inr now \<Longrightarrow> new_timestamp now = Inr now"
  shows "db_wf db' \<and> load_export db_ok db' (ce_name req) = Inr r \<and>
    inspect_export db_ok db (ce_name req) = Inl (ExportNotFound (ce_name req)) \<and>
    (\<forall>name. name \<noteq> ce_name req \<longrightarrow> inspect_export db_ok db' name = inspect_export db_ok db name)"
proof -
  obtain now head db1 row hrow where c: "uuid \<noteq> []" "NUL \<notin> set uuid" "clock = Inr now" "empty_head_for req = Inr head"
    and row: "row = \<lparr>xr_id = uuid, xr_name = ce_name req, xr_engine_kind = engine_kind_text (ce_engine_kind req),
       xr_block_size = int (ce_block_size req), xr_state = ''active'', xr_created_at = now, xr_updated_at = now,
       xr_deleted_at = None\<rparr>"
    and hrow: "hrow = \<lparr>hr_export_id = uuid, hr_layout_kind = layout_kind_text (head_layout_kind head),
       hr_root_node_id = head_root_node_id head, hr_tree_format = map_option tree_format_text (head_tree_format head),
       hr_size_bytes = int (ce_size_bytes req), hr_base_wal_seq = int (head_base_wal_seq head), hr_updated_at = now\<rparr>"
    and ins: "insert_export_row row db = Inr db1" "insert_head_row hrow db1 = Inr db'"
    and r: "new_export_record uuid (ce_name req) (ce_block_size req) (ce_engine_kind req) Active head now now None = Inr r"
    using createE [OF assms(2)] by metis
  have ids: "hr_export_id hrow = xr_id row" by (simp add: row hrow)
  note pair = insert_pair [OF assms(1) ins ids]
  have head: "row_to_export_head hrow = Inr head"
    using empty_head_for_Inr [OF c(4)] unfolding row_to_export_head_Inr_iff [OF pair(3)]
    by (simp add: hrow valid_root_def)
  have parses: "parse_engine_kind (engine_kind_text (ce_engine_kind req)) = Inr (ce_engine_kind req)"
    "parse_export_state ''active'' = Inr Active"
    using engine_text.decode_iff by (auto simp: parse_export_state_def)
  have "row_to_export_record (row, hrow) = Inr r"
    by (subst row_to_record_eq [where bs = "ce_block_size req" and kind = "ce_engine_kind req" and st = Active and head = head])
      (use assms(3) assms(4) [OF c(3)] c(1,2) r head parses in
        \<open>simp_all add: row new_export_id_def transpose_opt_def\<close>)
  moreover have "er_state r = Active" using r by (auto simp: new_export_record_def and_then_Inr_iff split: if_splits)
  moreover have byname: "find_by_name db' name = (if name = ce_name req then Some (row, hrow) else find_by_name db name)" for name
    using find_by_name_append [OF pair(2)] pair(5) by (simp add: row)
  moreover have "find_by_name db (ce_name req) = None"
    using pair(5) join_heads_mem unfolding find_by_name_def find_None_iff by (fastforce simp: row)
  ultimately show ?thesis using pair(1) by (simp add: load_export_def inspect_export_def fetch_by_name_def)
qed

theorem create_then_load_witness:
  "load_export db_ok sample_db ''x'' = Inr \<lparr>er_id = ''a'', er_name = ''x'', er_block_size = 512, er_engine_kind = WalDurable,
    er_state = Active, er_head = pu_expected_head sample_publish, er_created_at = ''t'', er_updated_at = ''t'',
    er_deleted_at = None\<rparr>"
proof -
  let ?req = "\<lparr>ce_name = ''x'', ce_size_bytes = 4096, ce_block_size = 512, ce_engine_kind = WalDurable\<rparr>"
  have "create_export db_ok ''a'' (Inr ''t'') ?req empty_db = (sample_db, Inr \<lparr>er_id = ''a'', er_name = ''x'',
      er_block_size = 512, er_engine_kind = WalDurable, er_state = Active, er_head = pu_expected_head sample_publish,
      er_created_at = ''t'', er_updated_at = ''t'', er_deleted_at = None\<rparr>)"
    by (simp add: sample_db_eq sample_publish_def create_export_def empty_db_def catalog_eval)
  from create_then_load [OF empty_db_wf this] show ?thesis
    by (simp add: new_timestamp_def new_export_name_def NUL_def)
qed

lemma fetch_by_name_db_ok: "fetch_by_name env db name = Inr r \<Longrightarrow> fetch_by_name db_ok db name = Inr r"
  by (auto simp: fetch_by_name_def and_then_Inr_iff)

lemma find_by_id_append:
  assumes "join_heads db2 = join_heads db @ [(row, hrow)]" "\<forall>r \<in> set (db_exports db). xr_id r \<noteq> xr_id row"
  shows "find_by_id db2 (xr_id row) = Some (row, hrow)"
proof -
  have "find (\<lambda>r. xr_id (fst r) = xr_id row) (join_heads db) = None"
    using assms(2) join_heads_mem unfolding find_None_iff by fastforce
  then show ?thesis by (simp add: find_by_id_def assms(1) find_append)
qed

lemma cloneE:
  assumes "clone_export env uuid clock req db = (db', Inr (source, destination))"
  obtains now root fmt db1 row hrow where "fetch_by_name env db (cl_source req) = Inr source" "er_state source \<noteq> Deleted"
    "head_layout_kind (er_head source) = CowImmutableTree" "head_root_node_id (er_head source) = Some root"
    "head_tree_format (er_head source) = Some fmt"
    "row = \<lparr>xr_id = uuid, xr_name = cl_destination req, xr_engine_kind = ''wal_durable'',
         xr_block_size = int (er_block_size source), xr_state = ''active'', xr_created_at = now, xr_updated_at = now,
         xr_deleted_at = None\<rparr>"
    "hrow = \<lparr>hr_export_id = uuid, hr_layout_kind = ''cow_immutable_tree'', hr_root_node_id = Some root,
         hr_tree_format = Some (tree_format_text fmt), hr_size_bytes = int (head_size_bytes (er_head source)),
         hr_base_wal_seq = 0, hr_updated_at = now\<rparr>"
    "insert_export_row row db = Inr db1" "insert_head_row hrow db1 = Inr db'"
    "fetch_export_record_by_id env db' uuid = Inr destination"
  using assms [unfolded clone_export_def]
proof (cases rule: in_tx_cases)
  case committed
  then show thesis
    by (auto simp: and_then_Inr_iff run_insert_Inr_iff new_export_id_def split: if_splits intro!: that)
qed simp

text \<open>
  C32. A clone is a new export over the tree of its source: same root and size, an empty log. The
  source must be an active copy-on-write export with a published root, and stays as it was.
\<close>

theorem clone_shares_root:
  assumes "db_wf db" "clone_export env uuid clock req db = (db', Inr (source, destination))"
  shows "db_wf db' \<and> load_export db_ok db (cl_source req) = Inr source \<and> load_export db_ok db' (cl_source req) = Inr source \<and>
    load_export db_ok db' (cl_destination req) = Inr destination \<and>
    (\<exists>root fmt. head_root_node_id (er_head source) = Some root \<and>
      er_head destination = CowHead \<lparr>ch_size_bytes = head_size_bytes (er_head source), ch_root_node_id = Some root,
        ch_base_wal_seq = 0, ch_tree_format = fmt\<rparr>)"
proof -
  obtain now root fmt db1 row hrow where src: "fetch_by_name env db (cl_source req) = Inr source" "er_state source \<noteq> Deleted"
      "head_root_node_id (er_head source) = Some root"
    and row: "row = \<lparr>xr_id = uuid, xr_name = cl_destination req, xr_engine_kind = ''wal_durable'',
         xr_block_size = int (er_block_size source), xr_state = ''active'', xr_created_at = now, xr_updated_at = now,
         xr_deleted_at = None\<rparr>"
    and hrow: "hrow = \<lparr>hr_export_id = uuid, hr_layout_kind = ''cow_immutable_tree'', hr_root_node_id = Some root,
         hr_tree_format = Some (tree_format_text fmt), hr_size_bytes = int (head_size_bytes (er_head source)),
         hr_base_wal_seq = 0, hr_updated_at = now\<rparr>"
    and ins: "insert_export_row row db = Inr db1" "insert_head_row hrow db1 = Inr db'"
    and dst: "fetch_export_record_by_id env db' uuid = Inr destination"
    using cloneE [OF assms(2)] by metis
  have ids: "hr_export_id hrow = xr_id row" by (simp add: row hrow)
  note pair = insert_pair [OF assms(1) ins ids]
  have "find_by_id db' uuid = Some (row, hrow)" using find_by_id_append [OF pair(2)] pair(5) by (simp add: row)
  then have rec: "row_to_export_record (row, hrow) = Inr destination"
    using dst by (auto simp: fetch_export_record_by_id_def and_then_Inr_iff)
  then obtain d where dest: "row_to_export_head hrow = Inr (er_head destination)" "row_to_export_descriptor row = Inr d"
      "ed_state d = er_state destination"
    using row_to_export_record_Inr by blast
  then have "er_state destination = Active"
    by (auto simp: row_to_export_descriptor_def new_export_descriptor_def and_then_Inr_iff row parse_export_state_def split: if_splits)
  moreover have "valid_root (Some root)"
    using dest(1) unfolding row_to_export_head_Inr_iff [OF pair(3)] by (simp add: hrow)
  then have "row_to_export_head hrow = Inr (CowHead \<lparr>ch_size_bytes = head_size_bytes (er_head source),
      ch_root_node_id = Some root, ch_base_wal_seq = 0, ch_tree_format = fmt\<rparr>)"
    unfolding row_to_export_head_Inr_iff [OF pair(3)] by (simp add: hrow)
  moreover have byname: "find_by_name db' name = (if name = cl_destination req then Some (row, hrow) else find_by_name db name)" for name
    using find_by_name_append [OF pair(2)] pair(5) by (simp add: row)
  moreover have old: "fetch_by_name db_ok db (cl_source req) = Inr source" by (rule fetch_by_name_db_ok [OF src(1)])
  moreover have "cl_source req \<noteq> cl_destination req"
  proof
    assume "cl_source req = cl_destination req"
    then obtain e h where "(e, h) \<in> set (join_heads db)" "xr_name e = xr_name row"
      using old by (auto simp: fetch_by_name_def and_then_Inr_iff find_by_name_def find_Some_iff row) (metis fst_conv nth_mem surj_pair)
    then show False using pair(5) join_heads_mem by fastforce
  qed
  ultimately show ?thesis using pair(1) rec dest(1) src(2,3) by (simp add: load_export_def fetch_by_name_def)
qed

definition sample_root_db :: catalog_db where
  "sample_root_db = sample_db\<lparr>db_nodes := [\<lparr>nr_id = ''n'', nr_layout_kind = ''cow_immutable_tree'', nr_owner_export_id = None,
      nr_kind = ''leaf'', nr_level = 0, nr_span_start_bytes = 0, nr_span_len_bytes = 4096\<rparr>],
    db_heads := map (\<lambda>h. h\<lparr>hr_root_node_id := Some ''n'', hr_base_wal_seq := 5\<rparr>) (db_heads sample_db)\<rparr>"

lemma sample_root_db_wf: "db_wf sample_root_db"
  by (simp add: sample_root_db_def sample_db_eq db_wf_def head_checks_def)

theorem clone_shares_root_witness:
  "\<exists>db' source destination. clone_export db_ok ''b'' (Inr ''u'') \<lparr>cl_source = ''x'', cl_destination = ''y''\<rparr> sample_root_db =
      (db', Inr (source, destination)) \<and> load_export db_ok db' ''y'' = Inr destination \<and>
    head_root_node_id (er_head destination) = Some ''n''"
proof -
  let ?run = "clone_export db_ok ''b'' (Inr ''u'') \<lparr>cl_source = ''x'', cl_destination = ''y''\<rparr> sample_root_db"
  have "case snd ?run of Inr (source, destination) \<Rightarrow> head_root_node_id (er_head destination) = Some ''n'' | Inl e \<Rightarrow> False"
    by (simp add: clone_export_def sample_root_db_def sample_db_eq catalog_eval)
  then obtain db' source destination where run: "?run = (db', Inr (source, destination))"
      "head_root_node_id (er_head destination) = Some ''n''"
    by (cases ?run) (auto split: sum.splits)
  then show ?thesis using clone_shares_root [OF sample_root_db_wf run(1)]
    by (intro exI [of _ db'] exI [of _ source] exI [of _ destination]) simp
qed

text \<open>Deleting changes one export row.\<close>

definition mark_deleted :: "export_id \<Rightarrow> timestamp \<Rightarrow> export_row \<Rightarrow> export_row" where
  "mark_deleted eid now r = (if xr_id r = eid \<and> xr_state r = ''active''
    then r\<lparr>xr_state := ''deleted'', xr_updated_at := now, xr_deleted_at := Some now\<rparr> else r)"

lemma mark_deleted_keeps [simp]: "xr_id (mark_deleted eid now r) = xr_id r" "xr_name (mark_deleted eid now r) = xr_name r"
  by (simp_all add: mark_deleted_def)

lemma find_map: "find P (map f xs) = map_option f (find (P \<circ> f) xs)"
  by (induction xs) auto

lemma delete_cases:
  assumes "delete_export env clock name db = (db', res)"
  obtains (failed) e where "res = Inl e" "db' = db"
  | (marked) meta now where "fetch_by_name env db name = Inr meta" "er_state meta \<noteq> Deleted" "clock = Inr now"
      "db' = db\<lparr>db_exports := map (mark_deleted (er_id meta) now) (db_exports db)\<rparr>"
      "res = (if length (filter (\<lambda>r. xr_id r = er_id meta \<and> xr_state r = ''active'') (db_exports db)) = 1
        then Inr () else Inl (ExportDeleted name))"
  using assms [unfolded delete_export_def]
proof (cases rule: in_tx_cases)
  case (failed e)
  then show thesis using that(1) by blast
next
  case committed
  then show thesis
    using that(2) by (auto simp: and_then_Inr_iff Let_def mark_deleted_def [abs_def] split: if_splits)
qed

lemma fetched_row:
  assumes "db_wf db" "fetch_by_name env db name = Inr meta"
  obtains e h where "find_by_name db name = Some (e, h)" "e \<in> set (db_exports db)" "xr_name e = name"
    "xr_id e = er_id meta" "row_to_export_record (e, h) = Inr meta"
    "\<forall>r \<in> set (db_exports db). xr_id r = er_id meta \<longrightarrow> r = e"
proof -
  obtain row where row: "find_by_name db name = Some row" "row_to_export_record row = Inr meta"
    using assms(2) by (auto simp: fetch_by_name_def and_then_Inr_iff)
  obtain e h where eh: "row = (e, h)" by (cases row)
  obtain i where i: "i < length (join_heads db)" "xr_name (fst (join_heads db ! i)) = name" "join_heads db ! i = (e, h)"
    using row(1) unfolding find_by_name_def find_Some_iff eh by metis
  then have mem: "(e, h) \<in> set (join_heads db)" "xr_name e = name" using nth_mem [OF i(1)] by auto
  then have e: "e \<in> set (db_exports db)" using join_heads_mem by blast
  have id: "xr_id e = er_id meta"
    using row(2) by (auto simp: eh row_to_export_record_def row_to_export_descriptor_def new_export_descriptor_def
        into_record_def new_export_record_def new_export_id_def validate_non_zero_def and_then_Inr_iff split: if_splits)
  have "inj_on xr_id (set (db_exports db))" using assms(1) by (simp add: db_wf_def distinct_map)
  then have "\<forall>r \<in> set (db_exports db). xr_id r = er_id meta \<longrightarrow> r = e" using e id by (metis inj_onD)
  then show thesis using that [OF row(1) [unfolded eh] e mem(2) id row(2) [unfolded eh]] by blast
qed

lemma filter_single:
  "distinct xs \<Longrightarrow> x \<in> set xs \<Longrightarrow> (\<And>y. y \<in> set xs \<Longrightarrow> P y \<longleftrightarrow> y = x) \<Longrightarrow> filter P xs = [x]"
proof (induction xs)
  case (Cons a xs)
  show ?case
  proof (cases "a = x")
    case True
    then have "\<forall>y \<in> set xs. \<not> P y" using Cons.prems by auto
    then show ?thesis using True Cons.prems(3) [of a] by (simp add: filter_empty_conv)
  next
    case False
    then show ?thesis using Cons by simp
  qed
qed simp

lemma marked_join:
  assumes "db_wf db" "db' = db\<lparr>db_exports := map (mark_deleted eid now) (db_exports db)\<rparr>"
  shows "db_wf db'" "find_by_name db' name = map_option (\<lambda>(e, h). (mark_deleted eid now e, h)) (find_by_name db name)"
proof -
  show wf': "db_wf db'"
    by (rule db_wf_update [OF assms(1), of db' "mark_deleted eid now" id])
      (use assms in \<open>auto simp: db_wf_def\<close>)
  show "find_by_name db' name = map_option (\<lambda>(e, h). (mark_deleted eid now e, h)) (find_by_name db name)"
    unfolding find_by_name_def join_heads_zip [OF assms(1)] join_heads_zip [OF wf']
    by (simp add: assms(2) zip_map1 find_map case_prod_beta' comp_def)
qed

lemma marked_record:
  assumes "row_to_export_record (e, h) = Inr meta" "new_timestamp now = Inr now" "er_state meta \<noteq> Deleted"
  shows "xr_state e = ''active''"
    "row_to_export_record (mark_deleted (xr_id e) now e, h) =
      Inr (meta\<lparr>er_state := Deleted, er_updated_at := now, er_deleted_at := Some now\<rparr>)"
proof -
  have d: "new_export_id (xr_id e) = Inr (xr_id e)" "new_export_name (xr_name e) = Inr (xr_name e)"
    "xr_block_size e = int (er_block_size meta)" "parse_engine_kind (xr_engine_kind e) = Inr (er_engine_kind meta)"
    "parse_export_state (xr_state e) = Inr (er_state meta)" "new_timestamp (xr_created_at e) = Inr (xr_created_at e)"
    "row_to_export_head h = Inr (er_head meta)" "er_block_size meta \<noteq> 0" "er_id meta = xr_id e" "er_name meta = xr_name e"
    "er_created_at meta = xr_created_at e"
    using assms(1) by (auto simp: row_to_export_record_def row_to_export_descriptor_def new_export_descriptor_def
        into_record_def new_export_record_def new_export_id_def new_timestamp_def validate_non_zero_def and_then_Inr_iff
        split: if_splits)
  show active: "xr_state e = ''active''"
    using d(5) assms(3) by (auto simp: parse_export_state_def split: if_splits)
  show "row_to_export_record (mark_deleted (xr_id e) now e, h) =
      Inr (meta\<lparr>er_state := Deleted, er_updated_at := now, er_deleted_at := Some now\<rparr>)"
    by (subst row_to_record_eq [where bs = "er_block_size meta" and kind = "er_engine_kind meta" and st = Deleted
          and head = "er_head meta"])
      (use d assms(2) active in \<open>simp_all add: mark_deleted_def transpose_opt_def parse_export_state_def
        new_export_record_def validate_non_zero_def\<close>)
qed

text \<open>
  C33. Deleting an export marks its row and nothing else: the name then loads as deleted, every
  other name loads as before, and a deletion that reports an error changed nothing.
\<close>

theorem delete_marks_export:
  assumes "db_wf db" "delete_export env clock name db = (db', res)"
    and "\<And>now. clock = Inr now \<Longrightarrow> new_timestamp now = Inr now"
  shows "case res of Inl e \<Rightarrow> db' = db
    | Inr u \<Rightarrow> db_wf db' \<and> is_ok (load_export db_ok db name) \<and> load_export db_ok db' name = Inl (ExportDeleted name) \<and>
        (\<forall>other. other \<noteq> name \<longrightarrow> inspect_export db_ok db' other = inspect_export db_ok db other)"
  using assms(2)
proof (cases rule: delete_cases)
  case (marked meta now)
  obtain e h where e: "find_by_name db name = Some (e, h)" "e \<in> set (db_exports db)" "xr_name e = name"
    "xr_id e = er_id meta" "row_to_export_record (e, h) = Inr meta"
    "\<forall>r \<in> set (db_exports db). xr_id r = er_id meta \<longrightarrow> r = e"
    using fetched_row [OF assms(1) marked(1)] by blast
  note rec = marked_record [OF e(5) assms(3) [OF marked(3)] marked(2)]
  have "distinct (db_exports db)" using assms(1) by (simp add: db_wf_def distinct_map)
  then have "filter (\<lambda>r. xr_id r = er_id meta \<and> xr_state r = ''active'') (db_exports db) = [e]"
  proof (rule filter_single [OF _ e(2)])
    show "xr_id r = er_id meta \<and> xr_state r = ''active'' \<longleftrightarrow> r = e" if "r \<in> set (db_exports db)" for r
      using bspec [OF e(6) that] e(4) rec(1) by blast
  qed
  then have res: "res = Inr ()" using marked(5) by simp
  note join = marked_join [OF assms(1) marked(4)]
  have "load_export db_ok db' name = Inl (ExportDeleted name)" "load_export db_ok db name = Inr meta"
    using rec(2) e(1,4,5) marked(2) by (simp_all add: load_export_def fetch_by_name_def join(2))
  moreover have "inspect_export db_ok db' other = inspect_export db_ok db other" if "other \<noteq> name" for other
  proof (cases "find_by_name db other")
    case (Some row)
    obtain e' h' where row: "row = (e', h')" by (cases row)
    obtain i where "i < length (join_heads db)" "xr_name (fst (join_heads db ! i)) = other" "(e', h') = join_heads db ! i"
      using Some unfolding find_by_name_def find_Some_iff row by blast
    then have "(e', h') \<in> set (join_heads db)" "xr_name e' = other" by (metis nth_mem, metis fst_conv)
    then have "e' \<noteq> e" "e' \<in> set (db_exports db)" using that e(3) join_heads_mem [of e' h' db] by auto
    then have "mark_deleted (er_id meta) now e' = e'" using bspec [OF e(6)] by (simp add: mark_deleted_def) blast
    then show ?thesis using Some row by (simp add: inspect_export_def fetch_by_name_def join(2))
  qed (simp add: inspect_export_def fetch_by_name_def join(2))
  ultimately show ?thesis using join(1) res by simp
qed simp

theorem delete_marks_export_witness:
  "\<exists>db'. delete_export db_ok (Inr ''u'') ''x'' sample_db = (db', Inr ()) \<and>
    load_export db_ok db' ''x'' = Inl (ExportDeleted ''x'')"
proof -
  let ?run = "delete_export db_ok (Inr ''u'') ''x'' sample_db"
  have "snd ?run = Inr ()" by (simp add: delete_export_def sample_db_eq catalog_eval Let_def)
  then obtain db' where run: "?run = (db', Inr ())" by (cases ?run) auto
  moreover have "\<And>now. Inr ''u'' = Inr now \<Longrightarrow> new_timestamp now = Inr now" by (simp add: new_timestamp_def NUL_def)
  ultimately show ?thesis using delete_marks_export [OF sample_db_wf run] by (intro exI [of _ db']) simp
qed

end
