(* ===== verification/Tree_Read.thy ===== *)
theory Tree_Read
  imports Tree_Geometry Sqlite_Catalog
begin

text \<open>
  Reading the tree of an export, from \<open>nbd-server/src/engines/tree/read.rs\<close>: blocks of
  data and zero parts, and the reader that walks the record store from the root to the
  leaf of a chunk. The record store is a parameter, the trait \<open>TreeRecordStore\<close>;
  \<open>sqlite_tree_store\<close> is the catalog's implementation. The lemmas show that a block is
  accepted exactly when its parts tile its range, and what a walk finds over well-formed
  tables.
\<close>

section \<open>Blocks\<close>

datatype block_part = DataPart byte_range bytes | ZeroPart byte_range

fun part_range :: "block_part \<Rightarrow> byte_range" where
  "part_range (DataPart r _) = r"
| "part_range (ZeroPart r) = r"

record block =
  blk_range :: byte_range
  blk_parts :: "block_part list"

definition invalid_block :: server_error where "invalid_block = Io ''block read''"

definition checked_range_end :: "byte_range \<Rightarrow> (server_error, nat) result" where
  "checked_range_end rng = ok_or invalid_block (checked_add (br_start rng) (br_len rng))"

fun part_len_ok :: "block_part \<Rightarrow> bool" where
  "part_len_ok (DataPart r bs) \<longleftrightarrow> length bs = br_len r"
| "part_len_ok (ZeroPart r) \<longleftrightarrow> True"

fun block_parts_loop :: "nat \<Rightarrow> nat \<Rightarrow> block_part list \<Rightarrow> (server_error, nat) result" where
  "block_parts_loop read_end expected_start [] = Inr expected_start"
| "block_parts_loop read_end expected_start (p # ps) =
    (if br_start (part_range p) \<noteq> expected_start then Inl invalid_block
     else if \<not> part_len_ok p then Inl invalid_block
     else and_then (checked_range_end (part_range p)) (\<lambda>expected_start.
       if expected_start > read_end then Inl invalid_block
       else block_parts_loop read_end expected_start ps))"

definition validate_block_parts :: "byte_range \<Rightarrow> block_part list \<Rightarrow> (server_error, unit) result" where
  "validate_block_parts rng parts =
    and_then (checked_range_end rng) (\<lambda>read_end.
    and_then (block_parts_loop read_end (br_start rng) parts) (\<lambda>expected_start.
      if expected_start \<noteq> read_end then Inl invalid_block else Inr ()))"

definition new_block :: "byte_range \<Rightarrow> block_part list \<Rightarrow> (server_error, block) result" where
  "new_block rng parts =
    and_then (validate_block_parts rng parts) (\<lambda>_. Inr \<lparr>blk_range = rng, blk_parts = parts\<rparr>)"

fun part_bytes :: "block_part \<Rightarrow> bytes" where
  "part_bytes (DataPart r bs) = bs"
| "part_bytes (ZeroPart r) = replicate (br_len r) 0"

text \<open>The length conversions of the source cannot fail where \<open>usize\<close> has at least 32 bits.\<close>

definition materialize :: "block \<Rightarrow> bytes" where
  "materialize b = concat (map part_bytes (blk_parts b))"

section \<open>The record store and the walk\<close>

record tree_store =
  ts_load_node :: "node_id \<Rightarrow> (catalog_error, tree_node_record option) result"
  ts_load_child_edges :: "tree_edge_lookup list \<Rightarrow> (catalog_error, tree_edge_record list) result"
  ts_load_leaf_refs :: "node_id list \<Rightarrow> (catalog_error, tree_leaf_ref_record list) result"

definition sqlite_tree_store :: "db_env \<Rightarrow> catalog_db \<Rightarrow> tree_store" where
  "sqlite_tree_store env db = \<lparr>ts_load_node = load_node env db,
    ts_load_child_edges = load_child_edges env db, ts_load_leaf_refs = load_leaf_refs env db\<rparr>"

record loaded_tree_leaf =
  ll_chunk_index :: chunk_index
  ll_node :: tree_node_record
  ll_leaf_ref :: tree_leaf_ref_record

record tree_metadata_reader =
  mr_geometry :: tree_geometry
  mr_layout_kind :: export_layout_kind
  mr_root_node_id :: "node_id option"

definition load_required_node :: "tree_store \<Rightarrow> node_id \<Rightarrow> (server_error, tree_node_record) result" where
  "load_required_node store nid =
    and_then (map_err catalog_err (ts_load_node store nid)) (ok_or invalid_tree)"

definition load_child_edge :: "tree_store \<Rightarrow> node_id \<Rightarrow> nat \<Rightarrow> (server_error, tree_edge_record option) result" where
  "load_child_edge store parent slot =
    and_then (map_err catalog_err (ts_load_child_edges store
        [\<lparr>tel_parent_node_id = parent, tel_slots = [slot]\<rparr>])) (\<lambda>edges.
      case edges of
        [] \<Rightarrow> Inr None
      | [e] \<Rightarrow> if te_parent_node_id e \<noteq> parent \<or> te_slot e \<noteq> slot then Inl invalid_tree else Inr (Some e)
      | _ \<Rightarrow> Inl invalid_tree)"

definition load_required_leaf_ref :: "tree_store \<Rightarrow> node_id \<Rightarrow> (server_error, tree_leaf_ref_record) result" where
  "load_required_leaf_ref store nid =
    and_then (map_err catalog_err (ts_load_leaf_refs store [nid])) (\<lambda>refs.
      case refs of
        [r] \<Rightarrow> if tl_node_id r \<noteq> nid then Inl invalid_tree else Inr r
      | _ \<Rightarrow> Inl invalid_tree)"

definition validate_node ::
  "export_layout_kind \<Rightarrow> tree_node_record \<Rightarrow> tree_node_span \<Rightarrow> tree_node_kind \<Rightarrow> (server_error, unit) result" where
  "validate_node layout n span kind =
    (if tn_layout_kind n \<noteq> layout then Inl invalid_tree
     else if tn_kind n \<noteq> kind then Inl invalid_tree
     else if tn_level n \<noteq> ns_level span \<or> tn_span_start_bytes n \<noteq> ns_start_bytes span \<or>
             tn_span_len_bytes n \<noteq> ns_len_bytes span then Inl invalid_tree
     else Inr ())"

definition span_kind :: "tree_node_span \<Rightarrow> tree_node_kind" where
  "span_kind span = (if ns_level span = 0 then LeafNode else Internal)"

fun walk_slots :: "tree_store \<Rightarrow> tree_metadata_reader \<Rightarrow> tree_node_span \<Rightarrow> tree_node_record \<Rightarrow> nat list
    \<Rightarrow> (server_error, tree_node_record option) result" where
  "walk_slots store r span current [] = Inr (Some current)"
| "walk_slots store r span current (slot # slots) =
    and_then (load_child_edge store (tn_id current) slot) (\<lambda>edge.
      case edge of
        None \<Rightarrow> Inr None
      | Some e \<Rightarrow>
          and_then (child_span (mr_geometry r) span slot) (\<lambda>span.
          and_then (load_required_node store (te_child_node_id e)) (\<lambda>current.
          and_then (validate_node (mr_layout_kind r) current span (span_kind span)) (\<lambda>_.
            walk_slots store r span current slots))))"

definition load_leaf ::
  "tree_store \<Rightarrow> tree_metadata_reader \<Rightarrow> chunk_index \<Rightarrow> (server_error, loaded_tree_leaf option) result" where
  "load_leaf store r c =
    (case mr_root_node_id r of
       None \<Rightarrow> Inr None
     | Some root \<Rightarrow>
         and_then (path_for_chunk (mr_geometry r) c) (\<lambda>path.
         let span = root_span (mr_geometry r) in
         and_then (load_required_node store root) (\<lambda>current.
         and_then (validate_node (mr_layout_kind r) current span Internal) (\<lambda>_.
         and_then (walk_slots store r span current (tp_slots path)) (\<lambda>found.
           case found of
             None \<Rightarrow> Inr None
           | Some current \<Rightarrow>
               and_then (load_required_leaf_ref store (tn_id current)) (\<lambda>leaf_ref.
                 Inr (Some \<lparr>ll_chunk_index = c, ll_node = current, ll_leaf_ref = leaf_ref\<rparr>)))))))"

definition load_leaves_for_range ::
  "tree_store \<Rightarrow> tree_metadata_reader \<Rightarrow> byte_range \<Rightarrow> (server_error, loaded_tree_leaf list) result" where
  "load_leaves_for_range store r rng =
    and_then (chunks_for_range (mr_geometry r) rng) (\<lambda>chunks.
    and_then (try_map (\<lambda>c. load_leaf store r (tc_chunk_index c)) chunks) (\<lambda>found.
      Inr (List.map_filter id found)))"

section \<open>Blocks tile their range\<close>

lemma checked_range_end_Inr_iff:
  "checked_range_end r = Inr e \<longleftrightarrow> e = br_start r + br_len r \<and> e \<le> u64_max"
  by (auto simp: checked_range_end_def checked_arith)

lemma length_part_bytes [simp]: "part_len_ok p \<Longrightarrow> length (part_bytes p) = br_len (part_range p)"
  by (cases p) auto

text \<open>The parts lie end to end from \<open>s\<close> to \<open>e\<close>.\<close>

fun parts_tile :: "nat \<Rightarrow> block_part list \<Rightarrow> nat \<Rightarrow> bool" where
  "parts_tile s [] e \<longleftrightarrow> s = e"
| "parts_tile s (p # ps) e \<longleftrightarrow> br_start (part_range p) = s \<and> part_len_ok p \<and>
    parts_tile (s + br_len (part_range p)) ps e"

lemma parts_tile_le: "parts_tile s ps e \<Longrightarrow> s \<le> e"
proof (induction ps arbitrary: s)
  case (Cons p ps)
  from Cons.IH [of "s + br_len (part_range p)"] Cons.prems show ?case by simp
qed simp

lemma block_parts_loop_iff:
  "e \<le> u64_max \<Longrightarrow> s \<le> e \<Longrightarrow> block_parts_loop e s ps = Inr e \<longleftrightarrow> parts_tile s ps e"
proof (induction ps arbitrary: s)
  case (Cons p ps)
  show ?case
  proof (cases "br_start (part_range p) = s \<and> part_len_ok p \<and> s + br_len (part_range p) \<le> e")
    case True
    then have "checked_range_end (part_range p) = Inr (s + br_len (part_range p))"
      using Cons.prems by (simp add: checked_range_end_Inr_iff)
    then show ?thesis using True Cons.prems Cons.IH [of "s + br_len (part_range p)"] by simp
  next
    case False
    then have "\<not> parts_tile s (p # ps) e" using parts_tile_le [of "s + br_len (part_range p)" ps e] by auto
    moreover have "block_parts_loop e s (p # ps) \<noteq> Inr e"
      using False by (auto simp: and_then_Inr_iff checked_range_end_Inr_iff)
    ultimately show ?thesis by simp
  qed
qed auto

lemma new_block_Inr_iff:
  "new_block rng parts = Inr b \<longleftrightarrow> b = \<lparr>blk_range = rng, blk_parts = parts\<rparr> \<and>
    br_start rng + br_len rng \<le> u64_max \<and> parts_tile (br_start rng) parts (br_start rng + br_len rng)"
  by (auto simp: new_block_def validate_block_parts_def and_then_Inr_iff block_parts_loop_iff checked_range_end_Inr_iff)

lemma parts_tile_length: "parts_tile s ps e \<Longrightarrow> length (concat (map part_bytes ps)) = e - s"
proof (induction ps arbitrary: s)
  case (Cons p ps)
  then have "length (concat (map part_bytes ps)) = e - (s + br_len (part_range p))" by simp
  then show ?case using Cons.prems parts_tile_le [of "s + br_len (part_range p)" ps e] by simp
qed simp

lemma parts_tile_nth:
  assumes "parts_tile s ps e" "p \<in> set ps" "x \<in> range_bytes (part_range p)"
  shows "s \<le> x \<and> x < e \<and> concat (map part_bytes ps) ! (x - s) = part_bytes p ! (x - br_start (part_range p))"
  using assms
proof (induction ps arbitrary: s)
  case (Cons q ps)
  let ?s = "s + br_len (part_range q)"
  have q: "br_start (part_range q) = s" "part_len_ok q" "parts_tile ?s ps e" using Cons.prems by auto
  note le = parts_tile_le [OF q(3)]
  show ?case
  proof (cases "p = q")
    case True
    then show ?thesis using q le Cons.prems(3) by (auto simp: range_bytes_def nth_append)
  next
    case False
    then have "?s \<le> x \<and> x < e \<and> concat (map part_bytes ps) ! (x - ?s) = part_bytes p ! (x - br_start (part_range p))"
      using Cons.IH [OF q(3)] Cons.prems by simp
    then show ?thesis using q(2) by (auto simp: nth_append diff_diff_left)
  qed
qed simp

lemma materialize_block:
  assumes "new_block rng parts = Inr b"
  shows "length (materialize b) = br_len rng" "blk_range b = rng" "blk_parts b = parts"
    "\<And>p x. p \<in> set parts \<Longrightarrow> x \<in> range_bytes (part_range p) \<Longrightarrow>
      x \<in> range_bytes rng \<and> materialize b ! (x - br_start rng) = part_bytes p ! (x - br_start (part_range p))"
  using assms parts_tile_length [of "br_start rng" parts] parts_tile_nth [of "br_start rng" parts]
  unfolding new_block_Inr_iff by (auto simp: materialize_def range_bytes_def)

section \<open>Lookups over the tables\<close>

text \<open>
  What the three queries of the store return when no statement fails: the row of a node, the
  child at a slot and the leaf reference of a node. Well-formed tables hold only rows that the
  adapter can read back.
\<close>

definition node_at :: "catalog_db \<Rightarrow> node_id \<Rightarrow> tree_node_record option" where
  "node_at db nid = map_option (\<lambda>r. projr (row_to_node r)) (find (\<lambda>r. nr_id r = nid) (db_nodes db))"

definition child_at :: "catalog_db \<Rightarrow> node_id \<Rightarrow> nat \<Rightarrow> node_id option" where
  "child_at db nid slot = map_option gr_child_node_id
    (find (\<lambda>r. gr_parent_node_id r = nid \<and> gr_slot r = u16_to_i64 slot) (db_edges db))"

definition leaf_at :: "catalog_db \<Rightarrow> node_id \<Rightarrow> tree_leaf_ref_record option" where
  "leaf_at db nid = map_option (\<lambda>r. projr (row_to_leaf_ref r)) (find (\<lambda>r. lr_node_id r = nid) (db_leaf_refs db))"

definition tables_ok :: "catalog_db \<Rightarrow> bool" where
  "tables_ok db \<longleftrightarrow> (\<forall>r \<in> set (db_nodes db). is_ok (row_to_node r)) \<and>
    (\<forall>r \<in> set (db_edges db). is_ok (row_to_edge r)) \<and> (\<forall>r \<in> set (db_leaf_refs db). is_ok (row_to_leaf_ref r))"

lemma find_SomeD: "find P xs = Some x \<Longrightarrow> x \<in> set xs \<and> P x"
  by (auto simp: find_Some_iff)

lemma is_ok_projr: "is_ok m \<Longrightarrow> m = Inr (projr m)"
  by (cases m) auto

lemma row_ids:
  "row_to_node r = Inr n \<Longrightarrow> tn_id n = nr_id r"
  "row_to_edge e = Inr d \<Longrightarrow> d = \<lparr>te_parent_node_id = gr_parent_node_id e, te_slot = te_slot d,
    te_child_node_id = gr_child_node_id e\<rparr> \<and> gr_slot e = int (te_slot d)"
  "row_to_leaf_ref l = Inr f \<Longrightarrow> tl_node_id f = lr_node_id l"
  by (auto simp: row_to_node_def row_to_edge_def row_to_leaf_ref_def new_node_id_def and_then_Inr_iff)

lemma sqlite_tree_store_sel [simp]:
  "ts_load_node (sqlite_tree_store env db) = load_node env db"
  "ts_load_child_edges (sqlite_tree_store env db) = load_child_edges env db"
  "ts_load_leaf_refs (sqlite_tree_store env db) = load_leaf_refs env db"
  by (simp_all add: sqlite_tree_store_def)

lemma load_required_node_ok:
  assumes "tables_ok db"
  shows "load_required_node (sqlite_tree_store db_ok db) nid = ok_or invalid_tree (node_at db nid)"
proof (cases "find (\<lambda>r. nr_id r = nid) (db_nodes db)")
  case (Some r)
  then have "is_ok (row_to_node r)" using assms find_SomeD by (fastforce simp: tables_ok_def)
  then have "row_to_node r = Inr (projr (row_to_node r))" by (rule is_ok_projr)
  then show ?thesis using Some
    by (simp add: load_required_node_def load_node_def node_at_def transpose_opt_def) (metis and_then.simps(2) map_err.simps(2) ok_or_simps(2))
qed (simp add: load_required_node_def load_node_def node_at_def transpose_opt_def)

lemma node_at_id: "tables_ok db \<Longrightarrow> node_at db nid = Some n \<Longrightarrow> tn_id n = nid"
  using row_ids(1) find_SomeD is_ok_projr unfolding node_at_def tables_ok_def by fastforce

lemma load_child_edge_ok:
  assumes "tables_ok db"
  shows "load_child_edge (sqlite_tree_store db_ok db) nid slot = Inr (map_option
    (\<lambda>c. \<lparr>te_parent_node_id = nid, te_slot = slot, te_child_node_id = c\<rparr>) (child_at db nid slot))"
proof (cases "find (\<lambda>r. gr_parent_node_id r = nid \<and> gr_slot r = u16_to_i64 slot) (db_edges db)")
  case (Some r)
  then have r: "is_ok (row_to_edge r)" "gr_parent_node_id r = nid" "gr_slot r = int slot"
    using assms find_SomeD [OF Some] by (auto simp: tables_ok_def u16_to_i64_def)
  then obtain d where d: "row_to_edge r = Inr d" by (auto simp: is_ok_iff)
  then have "d = \<lparr>te_parent_node_id = nid, te_slot = slot, te_child_node_id = gr_child_node_id r\<rparr>"
    using row_ids(2) [OF d] r(2,3) by simp
  then show ?thesis using Some d
    by (simp add: load_child_edge_def load_child_edges_def child_at_def transpose_opt_def List.map_filter_simps)
qed (simp add: load_child_edge_def load_child_edges_def child_at_def transpose_opt_def List.map_filter_simps)

lemma load_required_leaf_ref_ok:
  assumes "tables_ok db"
  shows "load_required_leaf_ref (sqlite_tree_store db_ok db) nid = ok_or invalid_tree (leaf_at db nid)"
proof (cases "find (\<lambda>r. lr_node_id r = nid) (db_leaf_refs db)")
  case (Some r)
  then have r: "is_ok (row_to_leaf_ref r)" "lr_node_id r = nid"
    using assms find_SomeD [OF Some] by (auto simp: tables_ok_def)
  then obtain l where l: "row_to_leaf_ref r = Inr l" by (auto simp: is_ok_iff)
  then have "tl_node_id l = nid" using row_ids(3) [OF l] r(2) by simp
  then show ?thesis using Some l
    by (simp add: load_required_leaf_ref_def load_leaf_refs_def leaf_at_def transpose_opt_def List.map_filter_simps)
qed (simp add: load_required_leaf_ref_def load_leaf_refs_def leaf_at_def transpose_opt_def List.map_filter_simps)

text \<open>Failing statements only turn results into errors.\<close>

lemma try_map_mono: "try_map f xs = Inr ys \<Longrightarrow> (\<And>x y. f x = Inr y \<Longrightarrow> g x = Inr y) \<Longrightarrow> try_map g xs = Inr ys"
  unfolding try_map_Inr_iff by (erule list.rel_mono_strong) auto

lemma and_then_mono:
  assumes "and_then m f = Inr y" "\<And>x. m = Inr x \<Longrightarrow> m' = Inr x" "\<And>x. f x = Inr y \<Longrightarrow> f' x = Inr y"
  shows "and_then m' f' = Inr y"
  using assms by (auto simp: and_then_Inr_iff)

lemma load_node_mono: "load_node env db nid = Inr n \<Longrightarrow> load_node db_ok db nid = Inr n"
  unfolding load_node_def by (erule and_then_mono) auto

lemma load_child_edges_mono: "load_child_edges env db ls = Inr es \<Longrightarrow> load_child_edges db_ok db ls = Inr es"
  unfolding load_child_edges_def
  by (erule and_then_mono, erule try_map_mono) (auto simp: and_then_Inr_iff split: prod.splits)

lemma load_leaf_refs_mono: "load_leaf_refs env db ids = Inr rs \<Longrightarrow> load_leaf_refs db_ok db ids = Inr rs"
  unfolding load_leaf_refs_def by (erule and_then_mono, erule try_map_mono) (auto simp: and_then_Inr_iff)

lemma load_required_node_mono:
  "load_required_node (sqlite_tree_store env db) nid = Inr n \<Longrightarrow> load_required_node (sqlite_tree_store db_ok db) nid = Inr n"
  unfolding load_required_node_def by (erule and_then_mono) (auto dest: load_node_mono)

lemma load_child_edge_mono:
  "load_child_edge (sqlite_tree_store env db) p s = Inr e \<Longrightarrow> load_child_edge (sqlite_tree_store db_ok db) p s = Inr e"
  unfolding load_child_edge_def by (erule and_then_mono) (auto dest: load_child_edges_mono)

lemma load_required_leaf_ref_mono:
  "load_required_leaf_ref (sqlite_tree_store env db) nid = Inr r \<Longrightarrow>
    load_required_leaf_ref (sqlite_tree_store db_ok db) nid = Inr r"
  unfolding load_required_leaf_ref_def by (erule and_then_mono) (auto dest: load_leaf_refs_mono)

lemma walk_slots_mono:
  "walk_slots (sqlite_tree_store env db) r span n slots = Inr m \<Longrightarrow>
    walk_slots (sqlite_tree_store db_ok db) r span n slots = Inr m"
proof (induction slots arbitrary: span n)
  case (Cons s slots)
  obtain e where e: "load_child_edge (sqlite_tree_store env db) (tn_id n) s = Inr e"
    using Cons.prems by (auto simp: and_then_Inr_iff)
  show ?case
    using Cons.prems e load_child_edge_mono [OF e] load_required_node_mono [of env db] Cons.IH
    by (cases e) (auto simp: and_then_Inr_iff)
qed simp

lemma load_leaf_mono:
  assumes "load_leaf (sqlite_tree_store env db) r c = Inr found"
  shows "load_leaf (sqlite_tree_store db_ok db) r c = Inr found"
proof (cases "mr_root_node_id r")
  case (Some root)
  show ?thesis
    using assms unfolding load_leaf_def Some option.case Let_def
    apply (elim and_thenE)
    subgoal premises prems for path n u found'
      using prems load_required_node_mono [OF prems(2)] walk_slots_mono [OF prems(4)]
      by (cases found') (auto simp: and_then_Inr_iff dest: load_required_leaf_ref_mono)
    done
qed (use assms in \<open>simp add: load_leaf_def\<close>)

section \<open>Well-formed trees\<close>

text \<open>The node reached from another one along a list of slots.\<close>

fun follow :: "catalog_db \<Rightarrow> node_id \<Rightarrow> nat list \<Rightarrow> node_id option" where
  "follow db nid [] = Some nid"
| "follow db nid (s # slots) = (case child_at db nid s of None \<Rightarrow> None | Some c \<Rightarrow> follow db c slots)"

definition node_ok :: "catalog_db \<Rightarrow> export_layout_kind \<Rightarrow> tree_node_span \<Rightarrow> node_id \<Rightarrow> bool" where
  "node_ok db layout span nid \<longleftrightarrow>
    (\<exists>n. node_at db nid = Some n \<and> validate_node layout n span (span_kind span) = Inr ())"

text \<open>
  A subtree is well formed when every node in it has the layout, kind and span of its place
  and every leaf refers to storage of the right kind.
\<close>

fun subtree_ok :: "catalog_db \<Rightarrow> export_layout_kind \<Rightarrow> tree_storage_kind \<Rightarrow> tree_geometry \<Rightarrow> nat
    \<Rightarrow> tree_node_span \<Rightarrow> node_id \<Rightarrow> bool" where
  "subtree_ok db layout sk g 0 span nid \<longleftrightarrow> node_ok db layout span nid \<and>
    (\<exists>l. leaf_at db nid = Some l \<and> tl_storage_kind l = sk)"
| "subtree_ok db layout sk g (Suc k) span nid \<longleftrightarrow> node_ok db layout span nid \<and>
    (\<forall>s c sp. child_at db nid s = Some c \<longrightarrow> child_span g span s = Inr sp \<longrightarrow> subtree_ok db layout sk g k sp c)"

definition tree_ok :: "catalog_db \<Rightarrow> tree_storage_kind \<Rightarrow> tree_metadata_reader \<Rightarrow> bool" where
  "tree_ok db sk r \<longleftrightarrow> geometry_ok (mr_geometry r) \<and>
    (\<forall>root. mr_root_node_id r = Some root \<longrightarrow>
      subtree_ok db (mr_layout_kind r) sk (mr_geometry r) (tg_root_level (mr_geometry r)) (root_span (mr_geometry r)) root)"

definition path_of :: "tree_geometry \<Rightarrow> chunk_index \<Rightarrow> nat list" where
  "path_of g c = map (digit c) (rev [0..<tg_root_level g])"

lemma subtree_node_ok: "subtree_ok db layout sk g k span nid \<Longrightarrow> node_ok db layout span nid"
  by (cases k) auto

lemma subtree_follow:
  assumes "subtree_ok db layout sk g (length slots) span nid" "try_fold (child_span g) span slots = Inr sp"
    and "follow db nid slots = Some n"
  shows "node_ok db layout sp n" "\<exists>l. leaf_at db n = Some l \<and> tl_storage_kind l = sk"
proof -
  have "subtree_ok db layout sk g 0 sp n" using assms
  proof (induction slots arbitrary: span nid)
    case (Cons s slots)
    obtain c sp' where "child_at db nid s = Some c" "child_span g span s = Inr sp'"
        "try_fold (child_span g) sp' slots = Inr sp" "follow db c slots = Some n"
      using Cons.prems(2,3) by (auto simp: and_then_Inr_iff split: option.splits)
    then show ?case using Cons.IH [of sp' c] Cons.prems(1) by simp
  qed simp
  then show "node_ok db layout sp n" "\<exists>l. leaf_at db n = Some l \<and> tl_storage_kind l = sk" by auto
qed

lemma walk_slots_ok:
  assumes "tables_ok db" "subtree_ok db (mr_layout_kind r) sk (mr_geometry r) (length slots) span nid"
    and "try_fold (child_span (mr_geometry r)) span slots = Inr sp" "node_at db nid = Some n"
  shows "walk_slots (sqlite_tree_store db_ok db) r span n slots = Inr (Option.bind (follow db nid slots) (node_at db))"
  using assms(2-)
proof (induction slots arbitrary: span nid n)
  case (Cons s slots)
  have id: "tn_id n = nid" using node_at_id [OF assms(1) Cons.prems(3)] .
  show ?case
  proof (cases "child_at db nid s")
    case None
    then show ?thesis by (simp add: load_child_edge_ok [OF assms(1)] id)
  next
    case (Some c)
    obtain sp' where sp': "child_span (mr_geometry r) span s = Inr sp'"
        "try_fold (child_span (mr_geometry r)) sp' slots = Inr sp"
      using Cons.prems(2) by (auto simp: and_then_Inr_iff)
    then have sub: "subtree_ok db (mr_layout_kind r) sk (mr_geometry r) (length slots) sp' c"
      using Cons.prems(1) Some by simp
    from subtree_node_ok [OF this] obtain m where m: "node_at db c = Some m"
        "validate_node (mr_layout_kind r) m sp' (span_kind sp') = Inr ()"
      by (auto simp: node_ok_def)
    show ?thesis
      using Cons.IH [OF sub sp'(2) m(1)] Some sp'(1) m
      by (simp add: load_child_edge_ok [OF assms(1)] load_required_node_ok [OF assms(1)] id)
  qed
qed simp

text \<open>The spans along the path of a chunk.\<close>

lemma path_spans:
  assumes "geometry_ok g" "c * 2 ^ 25 < tg_size_bytes g"
  shows "\<exists>sp. try_fold (child_span g) (root_span g) (path_of g c) = Inr sp \<and> ns_level sp = 0"
proof -
  obtain k where k: "tg_root_level g = Suc k" using assms(1) by (cases "tg_root_level g") (auto simp: geometry_ok_def)
  have "c div 32 ^ Suc k = 0" using chunk_below_capacity [OF assms] k by simp
  then have "ns_start_bytes (root_span g) = c div 32 ^ Suc k * 32 ^ Suc k * 2 ^ 25" by (simp add: root_span_def)
  from walk_to_chunk [OF assms _ _ this] show ?thesis by (simp add: path_of_def k root_span_def)
qed

text \<open>
  Over a well-formed tree the leaf of a chunk is the one its path leads to, and no error is
  possible.
\<close>

lemma load_leaf_ok:
  assumes "tables_ok db" "tree_ok db sk r" "c * 2 ^ 25 < tg_size_bytes (mr_geometry r)"
  shows "load_leaf (sqlite_tree_store db_ok db) r c = Inr (Option.bind (mr_root_node_id r) (\<lambda>root.
    map_option (\<lambda>n. \<lparr>ll_chunk_index = c, ll_node = the (node_at db n), ll_leaf_ref = the (leaf_at db n)\<rparr>)
      (follow db root (path_of (mr_geometry r) c))))"
proof (cases "mr_root_node_id r")
  case (Some root)
  let ?g = "mr_geometry r"
  have g: "geometry_ok ?g"
    and sub: "subtree_ok db (mr_layout_kind r) sk ?g (tg_root_level ?g) (root_span ?g) root"
    using assms(2) Some by (auto simp: tree_ok_def)
  have path: "path_for_chunk ?g c = Inr \<lparr>tp_chunk_index = c, tp_slots = path_of ?g c\<rparr>"
    using path_for_chunk_ok [OF g assms(3)] by (simp add: path_of_def)
  obtain sp where sp: "try_fold (child_span ?g) (root_span ?g) (path_of ?g c) = Inr sp"
    using path_spans [OF g assms(3)] by blast
  have len: "length (path_of ?g c) = tg_root_level ?g" by (simp add: path_of_def)
  have kind: "span_kind (root_span ?g) = Internal" using g by (simp add: span_kind_def root_span_def geometry_ok_def)
  obtain n where n: "node_at db root = Some n" "validate_node (mr_layout_kind r) n (root_span ?g) Internal = Inr ()"
    using subtree_node_ok [OF sub] by (auto simp: node_ok_def kind)
  note walk = walk_slots_ok [OF assms(1) sub [folded len] sp n(1)]
  show ?thesis
  proof (cases "follow db root (path_of ?g c)")
    case None
    then show ?thesis using path n walk Some
      by (simp add: load_leaf_def Let_def load_required_node_ok [OF assms(1)])
  next
    case (Some m)
    from subtree_follow [OF sub [folded len] sp Some] obtain l k where
      l: "leaf_at db m = Some l" and k: "node_at db m = Some k" by (auto simp: node_ok_def)
    show ?thesis using path n walk Some \<open>mr_root_node_id r = Some root\<close> l k node_at_id [OF assms(1) k]
      by (simp add: load_leaf_def Let_def load_required_node_ok [OF assms(1)] load_required_leaf_ref_ok [OF assms(1)])
  qed
qed (simp add: load_leaf_def)

section \<open>The tables after inserting records\<close>

definition node_row_of :: "tree_node_record \<Rightarrow> node_row" where
  "node_row_of n = \<lparr>nr_id = tn_id n, nr_layout_kind = layout_kind_text (tn_layout_kind n),
    nr_owner_export_id = tn_owner_export_id n, nr_kind = node_kind_text (tn_kind n),
    nr_level = u16_to_i64 (tn_level n), nr_span_start_bytes = int (tn_span_start_bytes n),
    nr_span_len_bytes = int (tn_span_len_bytes n)\<rparr>"

definition edge_row_of :: "tree_edge_record \<Rightarrow> edge_row" where
  "edge_row_of e = \<lparr>gr_parent_node_id = te_parent_node_id e, gr_slot = u16_to_i64 (te_slot e),
    gr_child_node_id = te_child_node_id e\<rparr>"

definition leaf_row_of :: "tree_leaf_ref_record \<Rightarrow> leaf_row" where
  "leaf_row_of l = \<lparr>lr_node_id = tl_node_id l, lr_storage_kind = storage_kind_text (tl_storage_kind l),
    lr_storage_key = tl_storage_key l, lr_len_bytes = int (tl_len_bytes l)\<rparr>"

lemma insert_record_rows:
  "insert_node_record env db n = Inr db' \<Longrightarrow> db' = db\<lparr>db_nodes := db_nodes db @ [node_row_of n]\<rparr> \<and>
    \<not> node_exists db (tn_id n)"
  "insert_edge_record env db e = Inr db' \<Longrightarrow> db' = db\<lparr>db_edges := db_edges db @ [edge_row_of e]\<rparr>"
  "insert_leaf_record env db l = Inr db' \<Longrightarrow> db' = db\<lparr>db_leaf_refs := db_leaf_refs db @ [leaf_row_of l]\<rparr>"
  by (auto simp: insert_node_record_def insert_edge_record_def insert_leaf_record_def and_then_Inr_iff
      run_insert_Inr_iff insert_node_row_def insert_edge_row_def insert_leaf_row_def node_row_of_def edge_row_of_def
      leaf_row_of_def split: if_splits)

lemma insert_nodes_rows:
  "try_fold (insert_node_record env) db ns = Inr db' \<Longrightarrow> db' = db\<lparr>db_nodes := db_nodes db @ map node_row_of ns\<rparr> \<and>
    (\<forall>n \<in> set ns. \<not> node_exists db (tn_id n))"
proof (induction ns arbitrary: db)
  case (Cons n ns)
  obtain db1 where db1: "insert_node_record env db n = Inr db1" "try_fold (insert_node_record env) db1 ns = Inr db'"
    using Cons.prems by (auto simp: and_then_Inr_iff)
  note step = insert_record_rows(1) [OF db1(1)] and rest = Cons.IH [OF db1(2)]
  then show ?case by (auto simp: node_exists_def)
qed simp

lemma insert_edges_rows:
  "try_fold (insert_edge_record env) db es = Inr db' \<Longrightarrow> db' = db\<lparr>db_edges := db_edges db @ map edge_row_of es\<rparr>"
proof (induction es arbitrary: db)
  case (Cons e es)
  then show ?case by (auto simp: and_then_Inr_iff dest!: insert_record_rows(2) Cons.IH)
qed simp

lemma insert_leaves_rows:
  "try_fold (insert_leaf_record env) db ls = Inr db' \<Longrightarrow> db' = db\<lparr>db_leaf_refs := db_leaf_refs db @ map leaf_row_of ls\<rparr>"
proof (induction ls arbitrary: db)
  case (Cons l ls)
  then show ?case by (auto simp: and_then_Inr_iff dest!: insert_record_rows(3) Cons.IH)
qed simp

lemma insert_tree_records_rows:
  assumes "insert_tree_records env b db = Inr db'"
  shows "db' = db\<lparr>db_nodes := db_nodes db @ map node_row_of (tb_nodes b),
      db_edges := db_edges db @ map edge_row_of (tb_edges b),
      db_leaf_refs := db_leaf_refs db @ map leaf_row_of (tb_leaf_refs b)\<rparr>"
    "\<forall>n \<in> set (tb_nodes b). \<not> node_exists db (tn_id n)"
  using assms unfolding insert_tree_records_def
  by (auto simp: and_then_Inr_iff dest!: insert_nodes_rows insert_edges_rows insert_leaves_rows)

definition valid_id :: "string \<Rightarrow> bool" where
  "valid_id s \<longleftrightarrow> s \<noteq> [] \<and> NUL \<notin> set s"

definition batch_valid :: "tree_record_batch \<Rightarrow> bool" where
  "batch_valid b \<longleftrightarrow>
    (\<forall>n \<in> set (tb_nodes b). valid_id (tn_id n) \<and> (\<forall>x. tn_owner_export_id n = Some x \<longrightarrow> valid_id x) \<and> tn_level n < 2 ^ 16) \<and>
    (\<forall>e \<in> set (tb_edges b). valid_id (te_parent_node_id e) \<and> te_slot e < 2 ^ 16 \<and> valid_id (te_child_node_id e)) \<and>
    (\<forall>l \<in> set (tb_leaf_refs b). valid_id (tl_node_id l) \<and> new_blob_key (tl_storage_key l) = Inr (tl_storage_key l))"

lemma transpose_owner:
  "\<forall>x. m = Some x \<longrightarrow> valid_id x \<Longrightarrow> transpose_opt new_export_id m = Inr m"
  by (cases m) (auto simp: transpose_opt_Inr_iff valid_id_def new_export_id_def)

lemma row_roundtrip:
  "valid_id (tn_id n) \<Longrightarrow> \<forall>x. tn_owner_export_id n = Some x \<longrightarrow> valid_id x \<Longrightarrow> tn_level n < 2 ^ 16 \<Longrightarrow>
    row_to_node (node_row_of n) = Inr n"
  "valid_id (te_parent_node_id e) \<Longrightarrow> te_slot e < 2 ^ 16 \<Longrightarrow> valid_id (te_child_node_id e) \<Longrightarrow>
    row_to_edge (edge_row_of e) = Inr e"
  "valid_id (tl_node_id l) \<Longrightarrow> new_blob_key (tl_storage_key l) = Inr (tl_storage_key l) \<Longrightarrow>
    row_to_leaf_ref (leaf_row_of l) = Inr l"
  using layout_text.decode_iff [of "layout_kind_text (tn_layout_kind n)" "tn_layout_kind n"]
    node_kind_codec.decode_iff [of "node_kind_text (tn_kind n)" "tn_kind n"]
    storage_kind_codec.decode_iff [of "storage_kind_text (tl_storage_kind l)" "tl_storage_kind l"]
    transpose_owner [of "tn_owner_export_id n"]
  by (auto simp: row_to_node_def node_row_of_def row_to_edge_def edge_row_of_def row_to_leaf_ref_def leaf_row_of_def
      valid_id_def new_node_id_def u16_to_i64_def and_then_Inr_iff)

lemma tables_ok_insert:
  assumes "tables_ok db" "batch_valid b" "insert_tree_records env b db = Inr db'"
  shows "tables_ok db'"
  using assms(1,2) row_roundtrip unfolding insert_tree_records_rows(1) [OF assms(3)] tables_ok_def batch_valid_def
  by (simp add: ball_Un)

lemma lookups_insert:
  assumes "batch_valid b" "insert_tree_records env b db = Inr db'"
  shows "node_at db' nid = (case node_at db nid of Some n \<Rightarrow> Some n | None \<Rightarrow> find (\<lambda>n. tn_id n = nid) (tb_nodes b))"
    "child_at db' nid s = (case child_at db nid s of Some c \<Rightarrow> Some c
      | None \<Rightarrow> map_option te_child_node_id (find (\<lambda>e. te_parent_node_id e = nid \<and> te_slot e = s) (tb_edges b)))"
    "leaf_at db' nid = (case leaf_at db nid of Some l \<Rightarrow> Some l | None \<Rightarrow> find (\<lambda>l. tl_node_id l = nid) (tb_leaf_refs b))"
proof -
  note rows = insert_tree_records_rows(1) [OF assms(2)]
  have n: "map_option (\<lambda>r. projr (row_to_node r)) (find (\<lambda>r. nr_id r = nid) (map node_row_of ns)) = find (\<lambda>n. tn_id n = nid) ns"
    if "set ns \<subseteq> set (tb_nodes b)" for ns
    using that assms(1) row_roundtrip(1) by (induction ns) (auto simp: batch_valid_def node_row_of_def [THEN arg_cong [of _ _ nr_id]])
  have e: "map_option gr_child_node_id (find (\<lambda>r. gr_parent_node_id r = nid \<and> gr_slot r = u16_to_i64 s) (map edge_row_of es)) =
      map_option te_child_node_id (find (\<lambda>e. te_parent_node_id e = nid \<and> te_slot e = s) es)" for es
    by (induction es) (auto simp: edge_row_of_def u16_to_i64_def)
  have l: "map_option (\<lambda>r. projr (row_to_leaf_ref r)) (find (\<lambda>r. lr_node_id r = nid) (map leaf_row_of ls)) = find (\<lambda>l. tl_node_id l = nid) ls"
    if "set ls \<subseteq> set (tb_leaf_refs b)" for ls
    using that assms(1) row_roundtrip(3) by (induction ls) (auto simp: batch_valid_def leaf_row_of_def [THEN arg_cong [of _ _ lr_node_id]])
  show "node_at db' nid = (case node_at db nid of Some n \<Rightarrow> Some n | None \<Rightarrow> find (\<lambda>n. tn_id n = nid) (tb_nodes b))"
    using n [of "tb_nodes b"] unfolding rows node_at_def by (simp add: find_append split: option.splits)
  show "child_at db' nid s = (case child_at db nid s of Some c \<Rightarrow> Some c
      | None \<Rightarrow> map_option te_child_node_id (find (\<lambda>e. te_parent_node_id e = nid \<and> te_slot e = s) (tb_edges b)))"
    using e [of "tb_edges b"] unfolding rows child_at_def by (simp add: find_append split: option.splits)
  show "leaf_at db' nid = (case leaf_at db nid of Some l \<Rightarrow> Some l | None \<Rightarrow> find (\<lambda>l. tl_node_id l = nid) (tb_leaf_refs b))"
    using l [of "tb_leaf_refs b"] unfolding rows leaf_at_def by (simp add: find_append split: option.splits)
qed

end
