(* ===== verification/Admission.thy ===== *)
theory Admission
  imports Byte_Range Server_Error
begin

text \<open>
  Request admission, from \<open>nbd-server/src/export/admission.rs\<close>: tickets are handed out in
  registration order, waiting requests are promoted in that order as soon as they conflict
  with no active request and with no earlier waiter. The grant channel of a waiter belongs
  to the asynchronous runtime; what the code sees of it is a parameter: whether the
  receiver is closed, and whether sending the permit succeeds. Tickets are natural
  numbers: the 64-bit counter would need more than 10^19 registrations to wrap around. Lock
  poisoning (a panic while the lock is held) is not modelled.
\<close>

section \<open>State and operations\<close>

datatype admission_op =
    ReadOp byte_range
  | WriteOp byte_range
  | FlushOp

fun op_kind :: "admission_op \<Rightarrow> string" where
  "op_kind (ReadOp _) = ''read''"
| "op_kind (WriteOp _) = ''write''"
| "op_kind FlushOp = ''flush''"

fun op_range :: "admission_op \<Rightarrow> byte_range option" where
  "op_range (ReadOp r) = Some r"
| "op_range (WriteOp r) = Some r"
| "op_range FlushOp = None"

fun conflicts :: "admission_op \<Rightarrow> admission_op \<Rightarrow> bool" where
  "conflicts FlushOp _ = True"
| "conflicts _ FlushOp = True"
| "conflicts (ReadOp _) (ReadOp _) = False"
| "conflicts (ReadOp l) (WriteOp r) = overlaps l r"
| "conflicts (WriteOp l) (ReadOp r) = overlaps l r"
| "conflicts (WriteOp l) (WriteOp r) = overlaps l r"

record admission_entry =
  ad_ticket :: nat
  ad_op :: admission_op

record admission_state =
  adm_extent_bytes :: nat
  adm_next_ticket :: nat
  adm_waiting :: "admission_entry list"
  adm_active :: "admission_entry list"

record grant_env =
  grant_closed :: "nat \<Rightarrow> bool"
  grant_sent :: "nat \<Rightarrow> bool"

definition new_admission :: "nat \<Rightarrow> admission_state" where
  "new_admission extent_bytes =
    \<lparr>adm_extent_bytes = extent_bytes, adm_next_ticket = 0, adm_waiting = [], adm_active = []\<rparr>"

definition validate_op :: "admission_state \<Rightarrow> admission_op \<Rightarrow> (server_error, unit) result" where
  "validate_op st op =
    (case op_range op of
       None \<Rightarrow> Inr ()
     | Some rng \<Rightarrow>
         let err = OutOfBounds (op_kind op) (br_start rng) (br_len rng) (adm_extent_bytes st) in
         and_then (ok_or err (checked_end rng)) (\<lambda>stop.
           if stop > adm_extent_bytes st then Inl err else Inr ()))"

definition next_ticket :: "admission_state \<Rightarrow> admission_state \<times> nat" where
  "next_ticket st = (st\<lparr>adm_next_ticket := adm_next_ticket st + 1\<rparr>, adm_next_ticket st)"

definition is_admissible :: "admission_state \<Rightarrow> nat \<Rightarrow> bool" where
  "is_admissible st index =
    (let op = ad_op (adm_waiting st ! index);
         conflicts_active = list_ex (\<lambda>a. conflicts (ad_op a) op) (adm_active st);
         conflicts_earlier_waiter = list_ex (\<lambda>w. conflicts (ad_op w) op) (take index (adm_waiting st))
     in \<not> conflicts_active \<and> \<not> conflicts_earlier_waiter)"

definition remove_waiting :: "nat \<Rightarrow> admission_state \<Rightarrow> admission_state" where
  "remove_waiting index st =
    st\<lparr>adm_waiting := take index (adm_waiting st) @ drop (index + 1) (adm_waiting st)\<rparr>"

definition retain_active :: "nat \<Rightarrow> admission_state \<Rightarrow> admission_state" where
  "retain_active ticket st = st\<lparr>adm_active := filter (\<lambda>a. ad_ticket a \<noteq> ticket) (adm_active st)\<rparr>"

function promote_loop :: "grant_env \<Rightarrow> admission_state \<Rightarrow> nat \<Rightarrow> admission_state" where
  "promote_loop g st index =
    (if index < length (adm_waiting st) then
       if \<not> is_admissible st index then promote_loop g st (index + 1)
       else
         let w = adm_waiting st ! index; st1 = remove_waiting index st in
         if grant_closed g (ad_ticket w) then promote_loop g st1 index
         else
           let st2 = st1\<lparr>adm_active := adm_active st1 @ [w]\<rparr> in
           if grant_sent g (ad_ticket w) then promote_loop g st2 index
           else promote_loop g (retain_active (ad_ticket w) st2) index
     else st)"
  by pat_completeness auto
termination
  by (relation "measure (\<lambda>(g, st, index). length (adm_waiting st) - index)")
    (auto simp: remove_waiting_def retain_active_def)

declare promote_loop.simps [simp del]

definition promote :: "grant_env \<Rightarrow> admission_state \<Rightarrow> admission_state" where
  "promote g st = promote_loop g st 0"

definition register ::
  "grant_env \<Rightarrow> admission_state \<Rightarrow> admission_op \<Rightarrow> admission_state \<times> (server_error, nat) result" where
  "register g st op =
    then_st (st, validate_op st op) (\<lambda>st _.
      let (st, ticket) = next_ticket st;
          st = st\<lparr>adm_waiting := adm_waiting st @ [\<lparr>ad_ticket = ticket, ad_op = op\<rparr>]\<rparr>
      in (promote g st, Inr ticket))"

definition cancel :: "grant_env \<Rightarrow> admission_state \<Rightarrow> nat \<Rightarrow> admission_state" where
  "cancel g st ticket =
    promote g (st\<lparr>adm_waiting := filter (\<lambda>w. ad_ticket w \<noteq> ticket) (adm_waiting st)\<rparr>)"

definition release :: "grant_env \<Rightarrow> admission_state \<Rightarrow> nat \<Rightarrow> admission_state" where
  "release g st ticket = promote g (retain_active ticket st)"

text \<open>
  One step of the controller: a registration, the drop of a registered waiter or the drop
  of a permit, each with whatever the grant channels answer at that moment.
\<close>

inductive admission_step :: "admission_state \<Rightarrow> admission_state \<Rightarrow> bool" where
  step_register: "admission_step st (fst (register g st op))"
| step_cancel: "admission_step st (cancel g st ticket)"
| step_release: "admission_step st (release g st ticket)"

inductive reachable :: "nat \<Rightarrow> admission_state \<Rightarrow> bool" for n where
  reach_new: "reachable n (new_admission n)"
| reach_step: "reachable n st \<Longrightarrow> admission_step st st' \<Longrightarrow> reachable n st'"

inductive_cases admission_stepE: "admission_step st st'"

section \<open>Invariants\<close>

definition tickets :: "admission_entry list \<Rightarrow> nat list" where
  "tickets es = map ad_ticket es"

definition no_conflict :: "admission_entry \<Rightarrow> admission_entry \<Rightarrow> bool" where
  "no_conflict a b \<longleftrightarrow> \<not> conflicts (ad_op a) (ad_op b)"

text \<open>
  Tickets are unique and below the counter, waiting entries are in ticket order, active
  entries do not conflict with each other, and no waiter is older than an active entry it
  conflicts with.
\<close>

definition queues_inv :: "admission_entry list \<Rightarrow> admission_entry list \<Rightarrow> nat \<Rightarrow> bool" where
  "queues_inv active waiting bound \<longleftrightarrow>
    distinct (map ad_ticket (active @ waiting)) \<and>
    (\<forall>e \<in> set (active @ waiting). ad_ticket e < bound) \<and>
    sorted_wrt (\<lambda>a b. ad_ticket a < ad_ticket b) waiting \<and>
    sorted_wrt no_conflict active \<and>
    (\<forall>a \<in> set active. \<forall>w \<in> set waiting. ad_ticket w < ad_ticket a \<longrightarrow> no_conflict w a)"

definition admission_inv :: "admission_state \<Rightarrow> bool" where
  "admission_inv st \<longleftrightarrow> queues_inv (adm_active st) (adm_waiting st) (adm_next_ticket st)"

definition settled :: "admission_state \<Rightarrow> nat \<Rightarrow> bool" where
  "settled st n \<longleftrightarrow> (\<forall>i < n. i < length (adm_waiting st) \<longrightarrow> \<not> is_admissible st i)"

lemma conflicts_commute: "conflicts a b \<longleftrightarrow> conflicts b a"
  by (cases a; cases b) (auto simp: overlaps_commute)

lemma is_admissible_iff:
  "is_admissible st i \<longleftrightarrow> (\<forall>a \<in> set (adm_active st). no_conflict a (adm_waiting st ! i)) \<and>
    (\<forall>w \<in> set (take i (adm_waiting st)). no_conflict w (adm_waiting st ! i))"
  by (auto simp: is_admissible_def Let_def list_ex_iff no_conflict_def)

text \<open>One admission: the entry leaves the queue and becomes active, or is dropped.\<close>

lemma split_waiting:
  assumes "i < length xs"
  shows "xs = take i xs @ xs ! i # drop (i + 1) xs"
  using id_take_nth_drop [OF assms] by simp

lemma queues_drop: "queues_inv act (A @ w # B) n \<Longrightarrow> queues_inv act (A @ B) n"
  by (simp add: queues_inv_def sorted_wrt_append)

lemma queues_admit:
  assumes "queues_inv act (A @ w # B) n" "\<forall>a \<in> set act. no_conflict a w" "\<forall>a \<in> set A. no_conflict a w"
  shows "queues_inv (act @ [w]) (A @ B) n"
  unfolding queues_inv_def
proof (intro conjI ballI impI)
  note inv = assms(1) [unfolded queues_inv_def]
  show "distinct (map ad_ticket ((act @ [w]) @ A @ B))" using inv by auto
  show "ad_ticket e < n" if "e \<in> set ((act @ [w]) @ A @ B)" for e using that inv by auto
  show "sorted_wrt (\<lambda>a b. ad_ticket a < ad_ticket b) (A @ B)" using inv by (simp add: sorted_wrt_append)
  show "sorted_wrt no_conflict (act @ [w])" using inv assms(2) by (simp add: sorted_wrt_append)
  fix a v assume a: "a \<in> set (act @ [w])" and v: "v \<in> set (A @ B)" and less: "ad_ticket v < ad_ticket a"
  show "no_conflict v a"
  proof (cases "a \<in> set act")
    case True
    have "v \<in> set (A @ w # B)" using v by auto
    with True less inv show ?thesis by blast
  next
    case False
    then have "a = w" using a by simp
    moreover have "\<forall>b \<in> set B. ad_ticket w < ad_ticket b" using inv by (simp add: sorted_wrt_append)
    ultimately have "v \<in> set A" using v less by (auto dest: order.asym)
    then show ?thesis using assms(3) \<open>a = w\<close> by simp
  qed
qed

lemma admit_inv:
  assumes "admission_inv st" "i < length (adm_waiting st)" "is_admissible st i"
  shows "admission_inv ((remove_waiting i st)\<lparr>adm_active := adm_active st @ [adm_waiting st ! i]\<rparr>)"
    and "admission_inv (remove_waiting i st)"
proof -
  have inv: "queues_inv (adm_active st) (take i (adm_waiting st) @ adm_waiting st ! i # drop (i + 1) (adm_waiting st))
      (adm_next_ticket st)"
    using assms(1) split_waiting [OF assms(2)] by (simp add: admission_inv_def)
  show "admission_inv (remove_waiting i st)"
    using queues_drop [OF inv] by (simp add: admission_inv_def remove_waiting_def)
  show "admission_inv ((remove_waiting i st)\<lparr>adm_active := adm_active st @ [adm_waiting st ! i]\<rparr>)"
    using queues_admit [OF inv] assms(3) by (simp add: admission_inv_def remove_waiting_def is_admissible_iff)
qed

lemma retain_pushed:
  assumes "\<forall>a \<in> set (adm_active st). ad_ticket a \<noteq> ad_ticket w"
  shows "retain_active (ad_ticket w) (st\<lparr>adm_active := adm_active st @ [w]\<rparr>) = st"
  using assms by (simp add: retain_active_def filter_id_conv)

lemma retain_refused:
  assumes "admission_inv st" "i < length (adm_waiting st)"
  shows "retain_active (ad_ticket (adm_waiting st ! i))
    ((remove_waiting i st)\<lparr>adm_active := adm_active (remove_waiting i st) @ [adm_waiting st ! i]\<rparr>) = remove_waiting i st"
proof (rule retain_pushed)
  have "adm_waiting st ! i \<in> set (adm_waiting st)" using assms(2) by simp
  then show "\<forall>a \<in> set (adm_active (remove_waiting i st)). ad_ticket a \<noteq> ad_ticket (adm_waiting st ! i)"
    using assms(1) by (force simp: admission_inv_def queues_inv_def remove_waiting_def)
qed

lemma settled_remove:
  assumes "settled st i" "i < length (adm_waiting st)"
  shows "settled (remove_waiting i st) i" "settled ((remove_waiting i st)\<lparr>adm_active := adm_active st @ [a]\<rparr>) i"
  using assms by (auto simp: settled_def is_admissible_iff remove_waiting_def nth_append min_def)

text \<open>
  Promotion keeps the invariant and leaves no admissible waiter behind; it only moves
  waiters to the active list or drops them.
\<close>

lemma promote_loop_inv:
  assumes "admission_inv st" "settled st index"
  shows "admission_inv (promote_loop g st index) \<and>
    settled (promote_loop g st index) (length (adm_waiting (promote_loop g st index))) \<and>
    length (adm_active (promote_loop g st index)) + length (adm_waiting (promote_loop g st index))
      \<le> length (adm_active st) + length (adm_waiting st) \<and>
    adm_next_ticket (promote_loop g st index) = adm_next_ticket st \<and>
    adm_extent_bytes (promote_loop g st index) = adm_extent_bytes st"
  using assms
proof (induction g st index rule: promote_loop.induct)
  case (1 g st index)
  let ?w = "adm_waiting st ! index" and ?st1 = "remove_waiting index st"
  let ?st2 = "?st1\<lparr>adm_active := adm_active ?st1 @ [?w]\<rparr>"
  show ?case
  proof (cases "index < length (adm_waiting st)")
    case False
    then show ?thesis using 1(5,6) by (simp add: promote_loop.simps settled_def)
  next
    case lt: True
    show ?thesis
    proof (cases "is_admissible st index")
      case False
      then have "settled st (index + 1)" using 1(6) by (auto simp: settled_def less_Suc_eq)
      then show ?thesis using 1(1) [OF lt False 1(5)] lt False by (simp add: promote_loop.simps [of g st])
    next
      case adm: True
      have act: "adm_active ?st1 = adm_active st" by (simp add: remove_waiting_def)
      have len: "length (adm_waiting ?st1) + 1 = length (adm_waiting st)"
        using lt by (simp add: remove_waiting_def)
      note st1 = admit_inv(2) [OF 1(5) lt adm] settled_remove(1) [OF 1(6) lt]
      have st2: "admission_inv ?st2" "settled ?st2 index"
        using admit_inv(1) [OF 1(5) lt adm] settled_remove(2) [OF 1(6) lt] by (simp_all add: act)
      show ?thesis
      proof (cases "grant_closed g (ad_ticket ?w)")
        case True
        then have "promote_loop g st index = promote_loop g ?st1 index"
          using lt adm by (simp add: promote_loop.simps [of g st] Let_def)
        then show ?thesis
          using 1(2) [OF lt _ refl refl True st1] adm len act by (auto simp: remove_waiting_def)
      next
        case opn: False
        show ?thesis
        proof (cases "grant_sent g (ad_ticket ?w)")
          case True
          then have "promote_loop g st index = promote_loop g ?st2 index"
            using lt adm opn by (simp add: promote_loop.simps [of g st] Let_def)
          then show ?thesis
            using 1(3) [OF lt _ refl refl opn refl True st2] adm len act by (auto simp: remove_waiting_def)
        next
          case False
          note refused = retain_refused [OF 1(5) lt]
          have "promote_loop g st index = promote_loop g ?st1 index"
            using lt adm opn False refused by (simp add: promote_loop.simps [of g st] Let_def)
          then show ?thesis
            using 1(4) [OF lt _ refl refl opn refl False] st1 adm len act refused by (auto simp: remove_waiting_def)
        qed
      qed
    qed
  qed
qed

lemma promote_loop_keeps:
  assumes "\<And>t. \<not> grant_closed g t" "\<And>t. grant_sent g t"
  shows "set (adm_active (promote_loop g st index)) \<union> set (adm_waiting (promote_loop g st index)) =
    set (adm_active st) \<union> set (adm_waiting st)"
proof (induction "length (adm_waiting st) - index" arbitrary: st index)
  case (Suc k)
  then have lt: "index < length (adm_waiting st)" by simp
  let ?st2 = "(remove_waiting index st)\<lparr>adm_active := adm_active (remove_waiting index st) @ [adm_waiting st ! index]\<rparr>"
  have "set (adm_waiting st) = insert (adm_waiting st ! index) (set (adm_waiting ?st2))"
    using arg_cong [OF split_waiting [OF lt], of set] by (simp add: remove_waiting_def)
  moreover have "adm_active ?st2 = adm_active st @ [adm_waiting st ! index]" by (simp add: remove_waiting_def)
  moreover have "k = length (adm_waiting ?st2) - index" "k = length (adm_waiting st) - (index + 1)"
    using Suc.hyps(2) lt by (simp_all add: remove_waiting_def)
  ultimately show ?case
    using Suc.hyps(1) [of ?st2 index] Suc.hyps(1) [of st "index + 1"] lt assms
    by (auto simp: promote_loop.simps [of g st index] Let_def)
qed (simp add: promote_loop.simps)

definition admission_good :: "admission_state \<Rightarrow> bool" where
  "admission_good st \<longleftrightarrow> admission_inv st \<and> settled st (length (adm_waiting st))"

lemma promote_good:
  assumes "admission_inv st"
  shows "admission_good (promote g st)"
    "length (adm_active (promote g st)) + length (adm_waiting (promote g st)) \<le>
      length (adm_active st) + length (adm_waiting st)"
  using promote_loop_inv [OF assms, of 0 g] by (simp_all add: admission_good_def promote_def settled_def)

lemma queues_filter:
  assumes "queues_inv act wait n"
  shows "queues_inv (filter P act) (filter Q wait) n"
proof -
  note inv = assms [unfolded queues_inv_def]
  have "distinct (map ad_ticket (filter P act @ filter Q wait))"
  proof -
    have "ad_ticket ` set act \<inter> ad_ticket ` set wait = {}" "distinct (map ad_ticket act)"
      "distinct (map ad_ticket wait)" using inv by simp_all
    then show ?thesis by (auto simp: distinct_map_filter)
  qed
  moreover have "sorted_wrt no_conflict (filter P act)"
    "sorted_wrt (\<lambda>a b. ad_ticket a < ad_ticket b) (filter Q wait)"
    using inv by (simp_all add: sorted_wrt_filter)
  moreover have "\<forall>e \<in> set (filter P act @ filter Q wait). ad_ticket e < n" using inv by auto
  moreover have "\<forall>a \<in> set (filter P act). \<forall>w \<in> set (filter Q wait). ad_ticket w < ad_ticket a \<longrightarrow> no_conflict w a"
    using inv by auto
  ultimately show ?thesis unfolding queues_inv_def by (intro conjI)
qed

lemma admission_inv_filter:
  assumes "admission_inv st"
  shows "admission_inv (st\<lparr>adm_waiting := filter P (adm_waiting st)\<rparr>)"
    "admission_inv (st\<lparr>adm_active := filter P (adm_active st)\<rparr>)"
  using queues_filter [of "adm_active st" "adm_waiting st" "adm_next_ticket st" "\<lambda>_. True" P]
    queues_filter [of "adm_active st" "adm_waiting st" "adm_next_ticket st" P "\<lambda>_. True"] assms
  by (simp_all add: admission_inv_def)

lemma release_good: "admission_good st \<Longrightarrow> admission_good (release g st t)"
  unfolding release_def retain_active_def
  by (intro promote_good(1) admission_inv_filter(2)) (simp add: admission_good_def)

lemma queues_push:
  assumes "queues_inv act wait n"
  shows "queues_inv act (wait @ [\<lparr>ad_ticket = n, ad_op = op\<rparr>]) (Suc n)"
  unfolding queues_inv_def
proof (intro conjI ballI impI)
  note inv = assms [unfolded queues_inv_def]
  have lt: "ad_ticket e < n" if "e \<in> set act \<or> e \<in> set wait" for e using inv that by auto
  show "distinct (map ad_ticket (act @ wait @ [\<lparr>ad_ticket = n, ad_op = op\<rparr>]))"
    using inv lt by (auto dest: lt)
  show "ad_ticket e < Suc n" if "e \<in> set (act @ wait @ [\<lparr>ad_ticket = n, ad_op = op\<rparr>])" for e
    using that lt [of e] by auto
  show "sorted_wrt (\<lambda>a b. ad_ticket a < ad_ticket b) (wait @ [\<lparr>ad_ticket = n, ad_op = op\<rparr>])"
    using inv lt by (simp add: sorted_wrt_append)
  show "sorted_wrt no_conflict act" using inv by simp
  fix a w assume "a \<in> set act" "w \<in> set (wait @ [\<lparr>ad_ticket = n, ad_op = op\<rparr>])" "ad_ticket w < ad_ticket a"
  moreover have "w \<in> set wait"
    using calculation lt [of a] by auto
  ultimately show "no_conflict w a" using inv by blast
qed

lemma register_good:
  assumes "admission_good st"
  shows "admission_good (fst (register g st op))"
proof (cases "validate_op st op")
  case (Inr u)
  have "admission_inv (st\<lparr>adm_next_ticket := adm_next_ticket st + 1,
      adm_waiting := adm_waiting st @ [\<lparr>ad_ticket = adm_next_ticket st, ad_op = op\<rparr>]\<rparr>)"
    using assms queues_push [of "adm_active st" "adm_waiting st" "adm_next_ticket st" op]
    by (simp add: admission_good_def admission_inv_def)
  then show ?thesis
    using Inr promote_good(1) by (simp add: register_def next_ticket_def)
qed (use assms in \<open>simp add: register_def\<close>)

lemma reachable_good: "reachable n st \<Longrightarrow> admission_good st"
proof (induction rule: reachable.induct)
  case reach_new
  show ?case by (simp add: admission_good_def admission_inv_def queues_inv_def settled_def new_admission_def)
next
  case (reach_step st st')
  from reach_step(2) reach_step(3) show ?case
  proof (cases rule: admission_step.cases)
    case (step_cancel g ticket)
    then show ?thesis
      using reach_step(3) promote_good(1) admission_inv_filter(1) by (simp add: cancel_def admission_good_def)
  qed (auto simp: register_good release_good)
qed

lemma good_blocked:
  assumes "admission_good st" "i < length (adm_waiting st)"
  shows "(\<exists>a \<in> set (adm_active st). conflicts (ad_op a) (ad_op (adm_waiting st ! i))) \<or>
    (\<exists>j < i. conflicts (ad_op (adm_waiting st ! j)) (ad_op (adm_waiting st ! i)))"
proof -
  have "\<not> is_admissible st i" using assms by (simp add: admission_good_def settled_def)
  then show ?thesis
    using assms(2) by (auto simp: is_admissible_iff no_conflict_def in_set_conv_nth)
qed

lemma good_idle: "admission_good st \<Longrightarrow> adm_active st = [] \<Longrightarrow> adm_waiting st = []"
  using good_blocked [of st 0] by auto

text \<open>Dropping the oldest permit, again and again.\<close>

fun drain :: "grant_env \<Rightarrow> nat \<Rightarrow> admission_state \<Rightarrow> admission_state" where
  "drain g 0 st = st"
| "drain g (Suc k) st =
    (case adm_active (drain g k st) of
       [] \<Rightarrow> drain g k st
     | a # _ \<Rightarrow> release g (drain g k st) (ad_ticket a))"

lemma drain_good: "admission_good st \<Longrightarrow> admission_good (drain g k st)"
  by (induction k) (auto simp: release_good split: list.splits)

lemma release_shrinks:
  assumes "admission_good st" "adm_active st = a # as"
  shows "length (adm_active (release g st (ad_ticket a))) + length (adm_waiting (release g st (ad_ticket a)))
    < length (adm_active st) + length (adm_waiting st)"
proof -
  let ?st = "retain_active (ad_ticket a) st"
  have "admission_inv ?st"
    using assms(1) admission_inv_filter(2) by (simp add: admission_good_def retain_active_def)
  note promote_good(2) [OF this, of g]
  moreover have "length (adm_active ?st) < length (adm_active st)"
    using assms(2) by (simp add: retain_active_def less_Suc_eq_le)
  ultimately show ?thesis by (simp add: release_def retain_active_def)
qed

lemma drain_empties:
  assumes "admission_good st" "length (adm_active st) + length (adm_waiting st) \<le> k"
  shows "adm_active (drain g k st) = []"
proof -
  have "adm_active (drain g k st) = [] \<or>
      length (adm_active (drain g k st)) + length (adm_waiting (drain g k st)) + k
        \<le> length (adm_active st) + length (adm_waiting st)" for k
  proof (induction k)
    case (Suc k)
    show ?case
    proof (cases "adm_active (drain g k st)")
      case (Cons a as)
      from Suc release_shrinks [OF drain_good [OF assms(1)] Cons, of g] Cons show ?thesis by simp
    qed simp
  qed simp
  from this [of k] assms(2) have "length (adm_active (drain g k st)) = 0"
    by (elim disjE, simp) linarith
  then show ?thesis by simp
qed

section \<open>Properties\<close>

text \<open>
  C7. Admission is exclusive: in every reachable state of the controller no two active
  requests conflict, whatever the order of registrations, cancellations and releases and
  whatever the grant channels answer.
\<close>

theorem admitted_never_conflict:
  assumes "reachable n st" "i < j" "j < length (adm_active st)"
  shows "\<not> conflicts (ad_op (adm_active st ! i)) (ad_op (adm_active st ! j))"
proof -
  have "sorted_wrt no_conflict (adm_active st)"
    using reachable_good [OF assms(1)] by (simp add: admission_good_def admission_inv_def queues_inv_def)
  from sorted_wrt_nth_less [OF this assms(2,3)] show ?thesis by (simp add: no_conflict_def)
qed

definition grants_ok :: grant_env where
  "grants_ok = \<lparr>grant_closed = \<lambda>_. False, grant_sent = \<lambda>_. True\<rparr>"

definition two_reads :: admission_state where
  "two_reads = fst (register grants_ok (fst (register grants_ok (fst (register grants_ok (new_admission 100)
    (ReadOp (new_range 0 10)))) (ReadOp (new_range 5 10)))) (WriteOp (new_range 0 8)))"

lemma two_reads_reachable: "reachable 100 two_reads"
  unfolding two_reads_def by (intro reach_step [OF _ step_register] reach_new)

lemma two_reads_eq:
  "adm_active two_reads = [\<lparr>ad_ticket = 0, ad_op = ReadOp (new_range 0 10)\<rparr>,
    \<lparr>ad_ticket = 1, ad_op = ReadOp (new_range 5 10)\<rparr>]"
  "adm_waiting two_reads = [\<lparr>ad_ticket = 2, ad_op = WriteOp (new_range 0 8)\<rparr>]"
  by (simp_all add: two_reads_def register_def new_admission_def validate_op_def checked_end_def
      checked_add_def u64_max_def next_ticket_def promote_def promote_loop.simps is_admissible_def
      remove_waiting_def grants_ok_def overlaps_def range_end_def saturating_add_def Let_def)

theorem admitted_never_conflict_witness:
  "length (adm_active two_reads) = 2 \<and>
    \<not> conflicts (ad_op (adm_active two_reads ! 0)) (ad_op (adm_active two_reads ! 1))"
  using admitted_never_conflict [OF two_reads_reachable, of 0 1] by (simp add: two_reads_eq)

text \<open>
  C8. Conflicting requests run in registration order: in every reachable state a waiting
  request that conflicts with an active one has the later ticket, so no request overtakes
  an earlier one it conflicts with.
\<close>

theorem conflicting_in_ticket_order:
  assumes "reachable n st" "a \<in> set (adm_active st)" "w \<in> set (adm_waiting st)"
    and "conflicts (ad_op a) (ad_op w)"
  shows "ad_ticket a < ad_ticket w"
proof -
  have inv: "queues_inv (adm_active st) (adm_waiting st) (adm_next_ticket st)"
    using reachable_good [OF assms(1)] by (simp add: admission_good_def admission_inv_def)
  then have "ad_ticket a \<noteq> ad_ticket w" using assms(2,3) by (force simp: queues_inv_def)
  moreover have "\<not> ad_ticket w < ad_ticket a"
    using inv assms(2-4) by (auto simp: queues_inv_def no_conflict_def conflicts_commute)
  ultimately show ?thesis by simp
qed

theorem conflicting_in_ticket_order_witness:
  "ad_ticket (adm_active two_reads ! 0) < ad_ticket (adm_waiting two_reads ! 0)"
  using conflicting_in_ticket_order [OF two_reads_reachable, of "adm_active two_reads ! 0" "adm_waiting two_reads ! 0"]
  by (simp add: two_reads_eq overlaps_def range_end_def saturating_add_def u64_max_def)

text \<open>
  C9. Every waiter is granted: while the grant channels stay open, dropping the oldest
  active permit again and again makes every waiting request of a reachable state active
  after at most as many drops as there are requests, and leaves the controller empty.
\<close>

theorem waiters_are_granted:
  assumes "reachable n st" "\<And>t. \<not> grant_closed g t" "\<And>t. grant_sent g t" "w \<in> set (adm_waiting st)"
  shows "\<exists>k \<le> length (adm_active st) + length (adm_waiting st). w \<in> set (adm_active (drain g k st))"
proof (rule ccontr)
  let ?n = "length (adm_active st) + length (adm_waiting st)"
  note good = drain_good [OF reachable_good [OF assms(1)]]
  assume *: "\<not> ?thesis"
  have "w \<in> set (adm_waiting (drain g k st))" if "k \<le> ?n" for k
    using that
  proof (induction k)
    case (Suc k)
    then have IH: "w \<in> set (adm_waiting (drain g k st))" by simp
    show ?case
    proof (cases "adm_active (drain g k st)")
      case (Cons a as)
      have "set (adm_active (drain g (Suc k) st)) \<union> set (adm_waiting (drain g (Suc k) st)) =
          set (adm_active (retain_active (ad_ticket a) (drain g k st))) \<union> set (adm_waiting (drain g k st))"
        using Cons promote_loop_keeps [OF assms(2,3)] by (simp add: release_def promote_def retain_active_def)
      then show ?thesis using IH * Suc.prems by (auto simp del: drain.simps)
    qed (use IH in simp)
  qed (use assms in simp)
  then have "w \<in> set (adm_waiting (drain g ?n st))" by simp
  then show False
    using drain_empties [OF reachable_good [OF assms(1)] order.refl, of g] good_idle [OF good] by force
qed

theorem waiters_are_granted_witness:
  "\<exists>k \<le> 3. \<lparr>ad_ticket = 2, ad_op = WriteOp (new_range 0 8)\<rparr> \<in> set (adm_active (drain grants_ok k two_reads))"
  using waiters_are_granted [OF two_reads_reachable, of grants_ok "adm_waiting two_reads ! 0"]
  by (simp add: two_reads_eq grants_ok_def eval_nat_numeral)

text \<open>
  C30. No wakeup is lost: in every reachable state each waiting request is held back by an
  active request or by an earlier waiter it conflicts with; in particular, when nothing is
  active nothing waits.
\<close>

theorem waiters_are_blocked:
  assumes "reachable n st"
  shows "(\<forall>i < length (adm_waiting st).
      (\<exists>a \<in> set (adm_active st). conflicts (ad_op a) (ad_op (adm_waiting st ! i))) \<or>
      (\<exists>j < i. conflicts (ad_op (adm_waiting st ! j)) (ad_op (adm_waiting st ! i)))) \<and>
    (adm_active st = [] \<longrightarrow> adm_waiting st = [])"
  using good_blocked [OF reachable_good [OF assms]] good_idle [OF reachable_good [OF assms]] by blast

theorem waiters_are_blocked_witness:
  "\<exists>a \<in> set (adm_active two_reads). conflicts (ad_op a) (ad_op (adm_waiting two_reads ! 0))"
  using waiters_are_blocked [OF two_reads_reachable] by (auto simp: two_reads_eq)

end
