(* ===== verification/Export_Engine.thy ===== *)
theory Export_Engine
  imports Admission "HOL-Library.Multiset"
begin

text \<open>
  Requests, replies and the contract of an export engine, from \<open>nbd-server/src/export/
  request.rs\<close> and \<open>engine.rs\<close>. The contract is the byte array an export stands for:
  \<open>disk_exec\<close> reads and writes slices of it and refuses what leaves it. Requests whose
  admission operations do not conflict commute on it, and a sequence of requests executed
  in any order that keeps conflicting requests in order gives the same contents and the
  same replies.
\<close>

section \<open>Requests and replies\<close>

datatype export_request =
    ExportRead nat nat
  | ExportWrite nat bytes
  | ExportFlush

datatype export_reply =
    ReplyRead bytes
  | ReplyDone

type_synonym export_result = "(server_error, export_reply) result"

fun command_name :: "export_request \<Rightarrow> string" where
  "command_name (ExportRead _ _) = ''read''"
| "command_name (ExportWrite _ _) = ''write''"
| "command_name ExportFlush = ''flush''"

record request_sequence_generator =
  rsg_next :: nat

definition new_sequence_generator :: request_sequence_generator where
  "new_sequence_generator = \<lparr>rsg_next = 1\<rparr>"

definition next_sequence :: "request_sequence_generator \<Rightarrow> request_sequence_generator \<times> nat" where
  "next_sequence gen = (gen\<lparr>rsg_next := rsg_next gen + 1\<rparr>, rsg_next gen)"

section \<open>The byte array of an export\<close>

fun disk_exec :: "bytes \<Rightarrow> export_request \<Rightarrow> bytes \<times> export_result" where
  "disk_exec d (ExportRead off len) =
    (if off + len \<le> length d then (d, Inr (ReplyRead (slice d off len)))
     else (d, Inl (OutOfBounds ''read'' off len (length d))))"
| "disk_exec d (ExportWrite off data) =
    (if off + length data \<le> length d then (copy_at d off data, Inr ReplyDone)
     else (d, Inl (OutOfBounds ''write'' off (length data) (length d))))"
| "disk_exec d ExportFlush = (d, Inr ReplyDone)"

fun request_bytes :: "export_request \<Rightarrow> nat set" where
  "request_bytes (ExportRead off len) = {off..<off + len}"
| "request_bytes (ExportWrite off data) = {off..<off + length data}"
| "request_bytes ExportFlush = {}"

text \<open>The operation a request is admitted under covers every byte it touches.\<close>

fun op_covers :: "admission_op \<Rightarrow> export_request \<Rightarrow> bool" where
  "op_covers FlushOp q = True"
| "op_covers (WriteOp r) q = (checked_end r \<noteq> None \<and> request_bytes q \<subseteq> range_bytes r)"
| "op_covers (ReadOp r) (ExportRead off len) = (checked_end r \<noteq> None \<and> {off..<off + len} \<subseteq> range_bytes r)"
| "op_covers (ReadOp r) _ = False"

lemma length_disk_exec [simp]: "length (fst (disk_exec d q)) = length d"
  by (cases q) (simp_all add: slice_simps)

lemma slice_copy_at_disjoint:
  assumes "off + length data \<le> length d" "off' + len \<le> length d"
    and "{off..<off + length data} \<inter> {off'..<off' + len} = {}"
  shows "slice (copy_at d off data) off' len = slice d off' len"
proof (rule nth_equalityI)
  show "length (slice (copy_at d off data) off' len) = length (slice d off' len)"
    using assms by (simp add: slice_simps)
  fix i assume "i < length (slice (copy_at d off data) off' len)"
  then have "i < len" using assms by (simp add: slice_simps)
  then have "off' + i \<in> {off'..<off' + len}" by simp
  then have "off' + i \<notin> {off..<off + length data}" using assms(3) by blast
  then show "slice (copy_at d off data) off' len ! i = slice d off' len ! i"
    using \<open>i < len\<close> assms(1,2) by (auto simp: slice_simps)
qed

lemma copy_at_disjoint_commute:
  assumes "off + length data \<le> length d" "off' + length data' \<le> length d"
    and "{off..<off + length data} \<inter> {off'..<off' + length data'} = {}"
  shows "copy_at (copy_at d off data) off' data' = copy_at (copy_at d off' data') off data"
proof (rule nth_equalityI)
  show "length (copy_at (copy_at d off data) off' data') = length (copy_at (copy_at d off' data') off data)"
    using assms by (simp add: slice_simps)
  fix i assume "i < length (copy_at (copy_at d off data) off' data')"
  moreover have "\<not> (i \<in> {off..<off + length data} \<and> i \<in> {off'..<off' + length data'})"
    using assms(3) by blast
  ultimately show "copy_at (copy_at d off data) off' data' ! i = copy_at (copy_at d off' data') off data ! i"
    using assms(1,2) by (auto simp: slice_simps)
qed

lemma read_past_write:
  assumes "{off..<off + length data} \<inter> {off'..<off' + len} = {}"
  shows "snd (disk_exec (fst (disk_exec d (ExportWrite off data))) (ExportRead off' len)) =
    snd (disk_exec d (ExportRead off' len))"
  using slice_copy_at_disjoint [OF _ _ assms] by (simp add: slice_simps)

lemma write_past_write:
  assumes "{off..<off + length data} \<inter> {off'..<off' + length data'} = {}"
  shows "fst (disk_exec (fst (disk_exec d (ExportWrite off data))) (ExportWrite off' data')) =
    fst (disk_exec (fst (disk_exec d (ExportWrite off' data'))) (ExportWrite off data))"
  using copy_at_disjoint_commute [OF _ _ assms] by (simp add: slice_simps)

fun is_read :: "export_request \<Rightarrow> bool" where
  "is_read (ExportRead _ _) = True"
| "is_read _ = False"

lemma read_keeps: "is_read q \<Longrightarrow> fst (disk_exec d q) = d"
  by (cases q) simp_all

lemma write_reply: "\<not> is_read q \<Longrightarrow> length d = length d' \<Longrightarrow> snd (disk_exec d q) = snd (disk_exec d' q)"
  by (cases q) simp_all

lemma commute_disjoint:
  assumes "request_bytes p \<inter> request_bytes q = {} \<or> is_read p \<and> is_read q"
  shows "fst (disk_exec (fst (disk_exec d p)) q) = fst (disk_exec (fst (disk_exec d q)) p)"
    and "snd (disk_exec (fst (disk_exec d p)) q) = snd (disk_exec d q)"
    and "snd (disk_exec (fst (disk_exec d q)) p) = snd (disk_exec d p)"
proof -
  have reply: "snd (disk_exec (fst (disk_exec d a)) b) = snd (disk_exec d b)"
    if "request_bytes a \<inter> request_bytes b = {} \<or> is_read a \<and> is_read b" for a b
  proof (cases "is_read b \<and> \<not> is_read a")
    case True
    then obtain off' len where b: "b = ExportRead off' len" by (cases b) auto
    show ?thesis
    proof (cases a)
      case (ExportWrite off data)
      then have "{off..<off + length data} \<inter> {off'..<off' + len} = {}" using that b by simp
      then show ?thesis unfolding b ExportWrite by (rule read_past_write)
    qed (use True in simp_all)
  next
    case False
    then show ?thesis
      by (cases "is_read b") (simp add: read_keeps, simp add: write_reply [OF _ length_disk_exec])
  qed
  show "snd (disk_exec (fst (disk_exec d p)) q) = snd (disk_exec d q)" by (rule reply [OF assms])
  show "snd (disk_exec (fst (disk_exec d q)) p) = snd (disk_exec d p)"
    using assms by (intro reply) auto
  show "fst (disk_exec (fst (disk_exec d p)) q) = fst (disk_exec (fst (disk_exec d q)) p)"
  proof (cases "is_read p \<or> is_read q")
    case False
    show ?thesis
    proof (cases p)
      case p: (ExportWrite off data)
      show ?thesis
      proof (cases q)
        case (ExportWrite off' data')
        then have "{off..<off + length data} \<inter> {off'..<off' + length data'} = {}" using assms p by simp
        then show ?thesis unfolding p ExportWrite by (rule write_past_write)
      qed (use False in simp_all)
    qed (use False in simp_all)
  qed (auto simp: read_keeps)
qed

lemma op_covers_range:
  assumes "op_covers a q" "op_range a = Some r"
  shows "checked_end r \<noteq> None" "request_bytes q \<subseteq> range_bytes r"
  using assms by (cases a; cases q; simp)+

lemma covers_disjoint:
  assumes "op_covers a p" "op_covers b q" "\<not> conflicts a b"
  shows "request_bytes p \<inter> request_bytes q = {} \<or> is_read p \<and> is_read q"
proof (cases "is_read p \<and> is_read q")
  case False
  obtain r s where rs: "op_range a = Some r" "op_range b = Some s" "\<not> overlaps r s"
    using assms False by (cases a; cases b; cases p; cases q) auto
  note r = op_covers_range [OF assms(1) rs(1)] and s = op_covers_range [OF assms(2) rs(2)]
  from not_overlaps_disjoint [OF r(1) s(1) rs(3)] r(2) s(2) show ?thesis by blast
qed simp

text \<open>Non-conflicting requests commute on the byte array.\<close>

lemmas disk_commute = commute_disjoint [OF covers_disjoint]

section \<open>The contract\<close>

text \<open>
  An engine refines the byte array: its operation keeps its invariant, gives the reply of
  \<open>disk_exec\<close> on its contents, and its new contents are those of \<open>disk_exec\<close>.
\<close>

locale block_device =
  fixes execute :: "'s \<Rightarrow> export_request \<Rightarrow> 's \<times> export_result"
    and inv :: "'s \<Rightarrow> bool"
    and contents :: "'s \<Rightarrow> bytes"
    and accepts :: "'s \<Rightarrow> export_request \<Rightarrow> bool"
  assumes execute_inv: "inv s \<Longrightarrow> accepts s q \<Longrightarrow> inv (fst (execute s q))"
    and execute_contents: "inv s \<Longrightarrow> accepts s q \<Longrightarrow> contents (fst (execute s q)) = fst (disk_exec (contents s) q)"
    and execute_reply: "inv s \<Longrightarrow> accepts s q \<Longrightarrow> snd (execute s q) = snd (disk_exec (contents s) q)"
begin

lemma read_after_write:
  assumes "inv s" "accepts s (ExportWrite off data)" "off + length data \<le> length (contents s)"
    and "accepts (fst (execute s (ExportWrite off data))) (ExportRead off (length data))"
  shows "snd (execute (fst (execute s (ExportWrite off data))) (ExportRead off (length data))) = Inr (ReplyRead data)"
  using assms execute_inv [OF assms(1,2)] execute_contents [OF assms(1,2)]
  by (simp add: execute_reply slice_simps slice_copy_at_same)

lemma size_fixed: "inv s \<Longrightarrow> accepts s q \<Longrightarrow> length (contents (fst (execute s q))) = length (contents s)"
  by (simp add: execute_contents)

end

section \<open>Executions in admission order\<close>

record job =
  jb_ticket :: nat
  jb_op :: admission_op
  jb_request :: export_request

fun run_jobs :: "bytes \<Rightarrow> job list \<Rightarrow> bytes" where
  "run_jobs d [] = d"
| "run_jobs d (j # js) = run_jobs (fst (disk_exec d (jb_request j))) js"

fun job_replies :: "bytes \<Rightarrow> job list \<Rightarrow> (nat \<times> export_result) list" where
  "job_replies d [] = []"
| "job_replies d (j # js) = (jb_ticket j, snd (disk_exec d (jb_request j))) #
    job_replies (fst (disk_exec d (jb_request j))) js"

text \<open>Conflicting jobs appear in ticket order.\<close>

definition job_order :: "job \<Rightarrow> job \<Rightarrow> bool" where
  "job_order i j \<longleftrightarrow> jb_ticket i < jb_ticket j \<or> \<not> conflicts (jb_op i) (jb_op j)"

definition job_ok :: "job \<Rightarrow> bool" where
  "job_ok j \<longleftrightarrow> op_covers (jb_op j) (jb_request j)"

lemma run_jobs_append: "run_jobs d (xs @ ys) = run_jobs (run_jobs d xs) ys"
  by (induction xs arbitrary: d) auto

lemma job_replies_append: "job_replies d (xs @ ys) = job_replies d xs @ job_replies (run_jobs d xs) ys"
  by (induction xs arbitrary: d) auto

lemma move_front:
  assumes "job_ok j" "\<And>i. i \<in> set xs \<Longrightarrow> job_ok i \<and> \<not> conflicts (jb_op i) (jb_op j)"
  shows "run_jobs d (xs @ j # ys) = run_jobs d (j # xs @ ys) \<and>
    set (job_replies d (xs @ j # ys)) = set (job_replies d (j # xs @ ys))"
  using assms(2)
proof (induction xs arbitrary: d)
  case (Cons i xs)
  have c: "op_covers (jb_op i) (jb_request i)" "op_covers (jb_op j) (jb_request j)" "\<not> conflicts (jb_op i) (jb_op j)"
    using Cons.prems [of i] assms(1) by (simp_all add: job_ok_def)
  have "run_jobs d' (xs @ j # ys) = run_jobs d' (j # xs @ ys) \<and>
      set (job_replies d' (xs @ j # ys)) = set (job_replies d' (j # xs @ ys))" for d'
    using Cons.IH Cons.prems by simp
  with disk_commute [OF c, of d] show ?case by (simp add: insert_commute)
qed simp

text \<open>
  Sorting a list of jobs in which conflicting jobs are in ticket order: the job with the
  smallest ticket can be moved to the front.
\<close>

lemma reorder_by_ticket:
  assumes "\<And>j. j \<in> set js \<Longrightarrow> job_ok j" "distinct (map jb_ticket js)" "sorted_wrt job_order js"
  shows "run_jobs d js = run_jobs d (sort_key jb_ticket js) \<and>
    set (job_replies d js) = set (job_replies d (sort_key jb_ticket js))"
  using assms
proof (induction "length js" arbitrary: js d)
  case (Suc n)
  then obtain j where j: "j \<in> set js" "\<And>i. i \<in> set js \<Longrightarrow> jb_ticket j \<le> jb_ticket i"
    using ex_min_if_finite [of "jb_ticket ` set js"] by (fastforce simp: not_less)
  then obtain xs ys where js: "js = xs @ j # ys" by (auto dest: split_list)
  have less: "jb_ticket j < jb_ticket i" if "i \<in> set xs \<union> set ys" for i
    using j(2) [of i] that Suc.prems(2) by (force simp: js)
  have front: "run_jobs d js = run_jobs d (j # xs @ ys) \<and> set (job_replies d js) = set (job_replies d (j # xs @ ys))"
    unfolding js
  proof (rule move_front)
    show "job_ok j" using Suc.prems(1) js by simp
    fix i assume i: "i \<in> set xs"
    then have "job_order i j" using Suc.prems(3) by (simp add: js sorted_wrt_append)
    then show "job_ok i \<and> \<not> conflicts (jb_op i) (jb_op j)"
      using less [of i] i Suc.prems(1) js by (auto simp: job_order_def)
  qed
  have "sort_key jb_ticket js = j # sort_key jb_ticket (xs @ ys)"
  proof (rule sort_key_inj_key_eq)
    show "inj_on jb_ticket (set js)" using Suc.prems(2) by (simp add: distinct_map)
    show "sorted (map jb_ticket (j # sort_key jb_ticket (xs @ ys)))"
      using less by (auto intro: less_imp_le)
  qed (simp add: js)
  moreover have "run_jobs d' (xs @ ys) = run_jobs d' (sort_key jb_ticket (xs @ ys)) \<and>
      set (job_replies d' (xs @ ys)) = set (job_replies d' (sort_key jb_ticket (xs @ ys)))" for d'
    using Suc.prems Suc.hyps(2) by (intro Suc.hyps(1)) (auto simp: js sorted_wrt_append)
  ultimately show ?case using front by simp
qed simp

end
