(* ===== verification/Export_Runtime.thy ===== *)
theory Export_Runtime
  imports Export_Engine
begin

text \<open>
  The export runtime, from \<open>nbd-server/src/export/runtime.rs\<close>: the lifecycle that counts
  active jobs and refuses new ones once closed, the queue-depth semaphore, the preparation
  of a job (admission policy, registration) and the concurrent runtime as a transition
  system in which accepted jobs are executed in any order admission allows. The engine is a
  parameter; its contract is \<open>block_device\<close>. The lemmas show that the queue depth bounds the
  outstanding work, that the count of active jobs never underflows, that the engine is
  closed at most once and only after its last job, and that every execution is equivalent
  to executing the requests one after the other in ticket order.
\<close>

section \<open>Lifecycle\<close>

record runtime_lifecycle =
  lc_closed :: bool
  lc_active_jobs :: nat

definition new_lifecycle :: runtime_lifecycle where
  "new_lifecycle = \<lparr>lc_closed = False, lc_active_jobs = 0\<rparr>"

definition ensure_open :: "string \<Rightarrow> runtime_lifecycle \<Rightarrow> (server_error, unit) result" where
  "ensure_open resource lc = (if lc_closed lc then Inl (RuntimeClosed resource) else Inr ())"

definition begin_submit :: "string \<Rightarrow> runtime_lifecycle \<Rightarrow> (server_error, runtime_lifecycle) result" where
  "begin_submit resource lc =
    (if lc_closed lc then Inl (RuntimeClosed resource)
     else Inr (lc\<lparr>lc_active_jobs := lc_active_jobs lc + 1\<rparr>))"

text \<open>\<open>None\<close> is the panic of the underflow check.\<close>

definition finish_job :: "runtime_lifecycle \<Rightarrow> runtime_lifecycle option" where
  "finish_job lc = map_option (\<lambda>n. lc\<lparr>lc_active_jobs := n\<rparr>) (checked_sub (lc_active_jobs lc) 1)"

definition lifecycle_close :: "runtime_lifecycle \<Rightarrow> runtime_lifecycle" where
  "lifecycle_close lc = lc\<lparr>lc_closed := True\<rparr>"

definition wait_empty_ready :: "runtime_lifecycle \<Rightarrow> bool" where
  "wait_empty_ready lc \<longleftrightarrow> lc_active_jobs lc = 0"

section \<open>Jobs\<close>

datatype job_state =
    RejectedJob server_error
  | RegisteredJob nat admission_op
  | ExecutedJob nat export_result

record runtime_job =
  rj_request :: export_request
  rj_state :: job_state

definition prepare_admitted_job ::
  "(export_request \<Rightarrow> (server_error, admission_op) result) \<Rightarrow> grant_env \<Rightarrow> admission_state \<Rightarrow> export_request
    \<Rightarrow> admission_state \<times> runtime_job" where
  "prepare_admitted_job operation_for g adm req =
    (case operation_for req of
       Inl error \<Rightarrow> (adm, \<lparr>rj_request = req, rj_state = RejectedJob error\<rparr>)
     | Inr op \<Rightarrow>
         (case register g adm op of
            (adm', Inl error) \<Rightarrow> (adm', \<lparr>rj_request = req, rj_state = RejectedJob error\<rparr>)
          | (adm', Inr ticket) \<Rightarrow> (adm', \<lparr>rj_request = req, rj_state = RegisteredJob ticket op\<rparr>)))"

text \<open>
  The engine is closed through a once-cell: the first close runs the engine's close, later
  ones return its result.
\<close>

definition engine_close_once ::
  "('e \<Rightarrow> 'e \<times> (server_error, unit) result) \<Rightarrow> 'e \<Rightarrow> (server_error, unit) result option
    \<Rightarrow> 'e \<times> (server_error, unit) result" where
  "engine_close_once close_engine engine cell =
    (case cell of Some res \<Rightarrow> (engine, res) | None \<Rightarrow> close_engine engine)"

section \<open>The concurrent runtime\<close>

text \<open>
  Queue slots are counted by where they are: free in the semaphore, reserved by a
  connection, held by a job, or held by a completed job whose reply is not yet written.
  \<open>rt_trace\<close> and \<open>rt_results\<close> record the executed jobs in execution order.
\<close>

record 'e concurrent_runtime =
  rt_lifecycle :: runtime_lifecycle
  rt_queue_free :: nat
  rt_queue_closed :: bool
  rt_reserved :: nat
  rt_replying :: nat
  rt_admission :: admission_state
  rt_jobs :: "runtime_job list"
  rt_engine :: 'e
  rt_close_result :: "(server_error, unit) result option"
  rt_trace :: "job list"
  rt_results :: "(nat \<times> export_result) list"

definition new_runtime :: "nat \<Rightarrow> 'e \<Rightarrow> nat \<Rightarrow> 'e concurrent_runtime" where
  "new_runtime size_bytes engine capacity =
    \<lparr>rt_lifecycle = new_lifecycle, rt_queue_free = capacity, rt_queue_closed = False, rt_reserved = 0,
     rt_replying = 0, rt_admission = new_admission size_bytes, rt_jobs = [], rt_engine = engine,
     rt_close_result = None, rt_trace = [], rt_results = []\<rparr>"

abbreviation concurrent_resource :: string where
  "concurrent_resource \<equiv> ''concurrent export runtime''"

text \<open>Reservation: an open runtime hands out a permit of the open semaphore.\<close>

definition reserve :: "'e concurrent_runtime \<Rightarrow> ('e concurrent_runtime \<times> (server_error, unit) result) option" where
  "reserve rt =
    (case ensure_open concurrent_resource (rt_lifecycle rt) of
       Inl e \<Rightarrow> Some (rt, Inl e)
     | Inr _ \<Rightarrow>
         if rt_queue_closed rt then Some (rt, Inl (RuntimeClosed concurrent_resource))
         else if rt_queue_free rt = 0 then None
         else Some (rt\<lparr>rt_queue_free := rt_queue_free rt - 1, rt_reserved := rt_reserved rt + 1\<rparr>, Inr ()))"

text \<open>Submission consumes a reserved slot; a refused job drops it.\<close>

definition submit ::
  "(export_request \<Rightarrow> (server_error, admission_op) result) \<Rightarrow> grant_env \<Rightarrow> 'e concurrent_runtime \<Rightarrow> export_request
    \<Rightarrow> 'e concurrent_runtime \<times> (server_error, unit) result" where
  "submit operation_for g rt req =
    (case begin_submit concurrent_resource (rt_lifecycle rt) of
       Inl e \<Rightarrow> (rt\<lparr>rt_reserved := rt_reserved rt - 1, rt_queue_free := rt_queue_free rt + 1\<rparr>, Inl e)
     | Inr lc \<Rightarrow>
         let (adm, prepared) = prepare_admitted_job operation_for g (rt_admission rt) req in
         (rt\<lparr>rt_lifecycle := lc, rt_reserved := rt_reserved rt - 1, rt_admission := adm,
             rt_jobs := prepared # rt_jobs rt\<rparr>, Inr ()))"

text \<open>
  The execution of a granted job by the engine, and the end of a job: its permit is
  dropped with the admitted request, the completion takes the queue slot over, and the job
  leaves the lifecycle.
\<close>

definition execute_granted ::
  "('e \<Rightarrow> export_request \<Rightarrow> 'e \<times> export_result) \<Rightarrow> 'e concurrent_runtime \<Rightarrow> nat \<Rightarrow> admission_op \<Rightarrow> export_request
    \<Rightarrow> 'e concurrent_runtime" where
  "execute_granted execute rt ticket op req =
    (let (engine, res) = execute (rt_engine rt) req in
     rt\<lparr>rt_engine := engine,
        rt_jobs := \<lparr>rj_request = req, rj_state = ExecutedJob ticket res\<rparr> #
          remove1 \<lparr>rj_request = req, rj_state = RegisteredJob ticket op\<rparr> (rt_jobs rt),
        rt_trace := rt_trace rt @ [\<lparr>jb_ticket = ticket, jb_op = op, jb_request = req\<rparr>],
        rt_results := rt_results rt @ [(ticket, res)]\<rparr>)"

definition complete_job :: "'e concurrent_runtime \<Rightarrow> runtime_job \<Rightarrow> 'e concurrent_runtime option" where
  "complete_job rt j =
    map_option (\<lambda>lc. rt\<lparr>rt_lifecycle := lc, rt_jobs := remove1 j (rt_jobs rt), rt_replying := rt_replying rt + 1\<rparr>)
      (finish_job (rt_lifecycle rt))"

definition runtime_close_begin :: "'e concurrent_runtime \<Rightarrow> 'e concurrent_runtime" where
  "runtime_close_begin rt = rt\<lparr>rt_lifecycle := lifecycle_close (rt_lifecycle rt), rt_queue_closed := True\<rparr>"

definition runtime_close_finish ::
  "('e \<Rightarrow> 'e \<times> (server_error, unit) result) \<Rightarrow> 'e concurrent_runtime
    \<Rightarrow> ('e concurrent_runtime \<times> (server_error, unit) result) option" where
  "runtime_close_finish close_engine rt =
    (if wait_empty_ready (rt_lifecycle rt) then
       let (engine, res) = engine_close_once close_engine (rt_engine rt) (rt_close_result rt) in
       Some (rt\<lparr>rt_engine := engine, rt_close_result := Some res\<rparr>, res)
     else None)"

text \<open>
  The transitions. A close runs in two steps, with other steps between them. A registered
  job whose waiter was dropped from the queue completes with an error; a task that ends
  early gives its place in the queue or its permit back.
\<close>

inductive runtime_step ::
  "(export_request \<Rightarrow> (server_error, admission_op) result) \<Rightarrow> ('e \<Rightarrow> export_request \<Rightarrow> 'e \<times> export_result)
    \<Rightarrow> ('e \<Rightarrow> 'e \<times> (server_error, unit) result) \<Rightarrow> 'e concurrent_runtime \<Rightarrow> 'e concurrent_runtime \<Rightarrow> bool"
  for operation_for execute close_engine where
  rt_reserve: "reserve rt = Some (rt', res) \<Longrightarrow> runtime_step operation_for execute close_engine rt rt'"
| rt_drop_slot: "0 < rt_reserved rt \<Longrightarrow> runtime_step operation_for execute close_engine rt
    (rt\<lparr>rt_reserved := rt_reserved rt - 1, rt_queue_free := rt_queue_free rt + 1\<rparr>)"
| rt_submit: "0 < rt_reserved rt \<Longrightarrow> runtime_step operation_for execute close_engine rt
    (fst (submit operation_for g rt req))"
| rt_execute: "\<lparr>rj_request = req, rj_state = RegisteredJob ticket op\<rparr> \<in> set (rt_jobs rt) \<Longrightarrow>
    \<lparr>ad_ticket = ticket, ad_op = op\<rparr> \<in> set (adm_active (rt_admission rt)) \<Longrightarrow>
    runtime_step operation_for execute close_engine rt (execute_granted execute rt ticket op req)"
| rt_complete_executed: "j \<in> set (rt_jobs rt) \<Longrightarrow> rj_state j = ExecutedJob ticket res \<Longrightarrow>
    complete_job (rt\<lparr>rt_admission := release g (rt_admission rt) ticket\<rparr>) j = Some rt' \<Longrightarrow>
    runtime_step operation_for execute close_engine rt rt'"
| rt_complete_rejected: "j \<in> set (rt_jobs rt) \<Longrightarrow> rj_state j = RejectedJob e \<Longrightarrow>
    complete_job rt j = Some rt' \<Longrightarrow> runtime_step operation_for execute close_engine rt rt'"
| rt_grant_lost: "j \<in> set (rt_jobs rt) \<Longrightarrow> rj_state j = RegisteredJob ticket op \<Longrightarrow>
    \<lparr>ad_ticket = ticket, ad_op = op\<rparr> \<notin> set (adm_active (rt_admission rt) @ adm_waiting (rt_admission rt)) \<Longrightarrow>
    complete_job rt j = Some rt' \<Longrightarrow> runtime_step operation_for execute close_engine rt rt'"
| rt_task_dropped_waiting: "j \<in> set (rt_jobs rt) \<Longrightarrow> rj_state j = RegisteredJob ticket op \<Longrightarrow>
    complete_job (rt\<lparr>rt_admission := cancel g (rt_admission rt) ticket\<rparr>) j = Some rt' \<Longrightarrow>
    runtime_step operation_for execute close_engine rt rt'"
| rt_task_dropped_active: "j \<in> set (rt_jobs rt) \<Longrightarrow> rj_state j = RegisteredJob ticket op \<Longrightarrow>
    complete_job (rt\<lparr>rt_admission := release g (rt_admission rt) ticket\<rparr>) j = Some rt' \<Longrightarrow>
    runtime_step operation_for execute close_engine rt rt'"
| rt_reply_done: "0 < rt_replying rt \<Longrightarrow> runtime_step operation_for execute close_engine rt
    (rt\<lparr>rt_replying := rt_replying rt - 1, rt_queue_free := rt_queue_free rt + 1\<rparr>)"
| rt_close_begin: "runtime_step operation_for execute close_engine rt (runtime_close_begin rt)"
| rt_close_finish: "lc_closed (rt_lifecycle rt) \<Longrightarrow> runtime_close_finish close_engine rt = Some (rt', res) \<Longrightarrow>
    runtime_step operation_for execute close_engine rt rt'"

inductive runtime_reachable ::
  "(export_request \<Rightarrow> (server_error, admission_op) result) \<Rightarrow> ('e \<Rightarrow> export_request \<Rightarrow> 'e \<times> export_result)
    \<Rightarrow> ('e \<Rightarrow> 'e \<times> (server_error, unit) result) \<Rightarrow> 'e concurrent_runtime \<Rightarrow> 'e concurrent_runtime \<Rightarrow> bool"
  for operation_for execute close_engine rt0 where
  rt_start: "runtime_reachable operation_for execute close_engine rt0 rt0"
| rt_next: "runtime_reachable operation_for execute close_engine rt0 rt \<Longrightarrow>
    runtime_step operation_for execute close_engine rt rt' \<Longrightarrow>
    runtime_reachable operation_for execute close_engine rt0 rt'"

section \<open>Counting jobs and slots\<close>

lemma remove1_split:
  assumes "x \<in> set xs"
  obtains ys zs where "xs = ys @ x # zs" "remove1 x xs = ys @ zs"
  using split_list_first [OF assms] by (auto simp: remove1_append)

lemma complete_job_Some:
  "complete_job rt j = Some rt' \<longleftrightarrow> 0 < lc_active_jobs (rt_lifecycle rt) \<and>
    rt' = rt\<lparr>rt_lifecycle := (rt_lifecycle rt)\<lparr>lc_active_jobs := lc_active_jobs (rt_lifecycle rt) - 1\<rparr>,
      rt_jobs := remove1 j (rt_jobs rt), rt_replying := rt_replying rt + 1\<rparr>"
  by (auto simp: complete_job_def finish_job_def checked_sub_def)

lemma reserve_Some:
  "reserve rt = Some (rt', res) \<Longrightarrow> rt' = rt \<or>
    0 < rt_queue_free rt \<and> rt' = rt\<lparr>rt_queue_free := rt_queue_free rt - 1, rt_reserved := rt_reserved rt + 1\<rparr>"
  by (auto simp: reserve_def split: sum.splits if_splits)

lemma submit_cases:
  obtains (closed) "lc_closed (rt_lifecycle rt)" "fst (submit operation_for g rt req) =
      rt\<lparr>rt_reserved := rt_reserved rt - 1, rt_queue_free := rt_queue_free rt + 1\<rparr>"
  | (accepted) adm j where "\<not> lc_closed (rt_lifecycle rt)"
      "prepare_admitted_job operation_for g (rt_admission rt) req = (adm, j)"
      "fst (submit operation_for g rt req) =
        rt\<lparr>rt_lifecycle := (rt_lifecycle rt)\<lparr>lc_active_jobs := lc_active_jobs (rt_lifecycle rt) + 1\<rparr>,
          rt_reserved := rt_reserved rt - 1, rt_admission := adm, rt_jobs := j # rt_jobs rt\<rparr>"
  by (cases "lc_closed (rt_lifecycle rt)";
      cases "prepare_admitted_job operation_for g (rt_admission rt) req")
    (auto simp: submit_def begin_submit_def)

lemma execute_granted_sel [simp]:
  "rt_lifecycle (execute_granted execute rt ticket op req) = rt_lifecycle rt"
  "rt_queue_free (execute_granted execute rt ticket op req) = rt_queue_free rt"
  "rt_reserved (execute_granted execute rt ticket op req) = rt_reserved rt"
  "rt_replying (execute_granted execute rt ticket op req) = rt_replying rt"
  "rt_admission (execute_granted execute rt ticket op req) = rt_admission rt"
  "rt_close_result (execute_granted execute rt ticket op req) = rt_close_result rt"
  "rt_engine (execute_granted execute rt ticket op req) = fst (execute (rt_engine rt) req)"
  "rt_jobs (execute_granted execute rt ticket op req) =
    \<lparr>rj_request = req, rj_state = ExecutedJob ticket (snd (execute (rt_engine rt) req))\<rparr> #
      remove1 \<lparr>rj_request = req, rj_state = RegisteredJob ticket op\<rparr> (rt_jobs rt)"
  "rt_trace (execute_granted execute rt ticket op req) =
    rt_trace rt @ [\<lparr>jb_ticket = ticket, jb_op = op, jb_request = req\<rparr>]"
  "rt_results (execute_granted execute rt ticket op req) =
    rt_results rt @ [(ticket, snd (execute (rt_engine rt) req))]"
  by (simp_all add: execute_granted_def split: prod.splits)

lemma close_finish_Some:
  "runtime_close_finish close_engine rt = Some (rt', res) \<Longrightarrow>
    lc_active_jobs (rt_lifecycle rt) = 0 \<and>
    (\<exists>engine. rt' = rt\<lparr>rt_engine := engine, rt_close_result := Some res\<rparr> \<and>
      (engine = rt_engine rt \<or> rt_close_result rt = None \<and> engine = fst (close_engine (rt_engine rt))))"
  by (auto simp: runtime_close_finish_def wait_empty_ready_def engine_close_once_def
      split: if_splits option.splits prod.splits)

text \<open>
  Every active job is counted once, every slot is in one place, and once the engine is
  closed the runtime is closed and empty.
\<close>

definition counts_ok :: "nat \<Rightarrow> 'e concurrent_runtime \<Rightarrow> bool" where
  "counts_ok capacity rt \<longleftrightarrow>
    lc_active_jobs (rt_lifecycle rt) = length (rt_jobs rt) \<and>
    rt_queue_free rt + rt_reserved rt + length (rt_jobs rt) + rt_replying rt = capacity \<and>
    (rt_close_result rt \<noteq> None \<longrightarrow> lc_closed (rt_lifecycle rt) \<and> rt_jobs rt = [])"

lemma counts_complete:
  assumes "counts_ok capacity rt" "j \<in> set (rt_jobs rt)"
    and "complete_job (rt\<lparr>rt_admission := adm\<rparr>) j = Some rt'"
  shows "counts_ok capacity rt'"
  using assms by (auto simp: counts_ok_def complete_job_Some length_remove1)

lemma counts_step:
  assumes "runtime_step operation_for execute close_engine rt rt'" "counts_ok capacity rt"
  shows "counts_ok capacity rt'"
  using assms
proof (cases rule: runtime_step.cases)
  case (rt_reserve res)
  then show ?thesis using reserve_Some [of rt rt' res] assms(2) by (auto simp: counts_ok_def)
next
  case (rt_submit g req)
  then show ?thesis
    using assms(2) by (cases rule: submit_cases [of rt operation_for g req]) (auto simp: counts_ok_def)
next
  case (rt_execute req ticket op)
  then have "0 < length (rt_jobs rt)" by (cases "rt_jobs rt") auto
  then show ?thesis using rt_execute assms(2) by (auto simp: counts_ok_def length_remove1)
next
  case (rt_complete_rejected j e)
  then show ?thesis using counts_complete [of capacity rt j "rt_admission rt"] assms(2) by simp
next
  case (rt_grant_lost j ticket op)
  then show ?thesis using counts_complete [of capacity rt j "rt_admission rt"] assms(2) by simp
next
  case (rt_close_finish res)
  then show ?thesis
    using close_finish_Some [of close_engine rt rt' res] assms(2) by (auto simp: counts_ok_def)
next
  case (rt_complete_executed j ticket res g)
  then show ?thesis using counts_complete assms(2) by blast
next
  case (rt_task_dropped_waiting j ticket op g)
  then show ?thesis using counts_complete assms(2) by blast
next
  case (rt_task_dropped_active j ticket op g)
  then show ?thesis using counts_complete assms(2) by blast
qed (use assms(2) in \<open>auto simp: counts_ok_def runtime_close_begin_def lifecycle_close_def\<close>)

lemma counts_reachable:
  assumes "runtime_reachable operation_for execute close_engine rt0 rt" "counts_ok capacity rt0"
  shows "counts_ok capacity rt"
  using assms by (induction rule: runtime_reachable.induct) (auto intro: counts_step)

lemma new_runtime_counts: "counts_ok capacity (new_runtime n engine capacity)"
  by (simp add: counts_ok_def new_runtime_def new_lifecycle_def)

section \<open>Executions are serial in ticket order\<close>

abbreviation entries :: "admission_state \<Rightarrow> admission_entry set" where
  "entries st \<equiv> set (adm_active st) \<union> set (adm_waiting st)"

lemma promote_loop_entries: "entries st \<subseteq> E \<Longrightarrow> entries (promote_loop g st index) \<subseteq> E"
proof (induction g st index rule: promote_loop.induct)
  case (1 g st index)
  let ?w = "adm_waiting st ! index" and ?st1 = "remove_waiting index st"
  let ?st2 = "?st1\<lparr>adm_active := adm_active ?st1 @ [?w]\<rparr>"
  show ?case
  proof (cases "index < length (adm_waiting st)")
    case lt: True
    have "?w \<in> E" using lt 1(5) by auto
    moreover have st1: "entries ?st1 \<subseteq> E"
      using 1(5) by (auto simp: remove_waiting_def dest: in_set_takeD in_set_dropD)
    ultimately have st2: "entries ?st2 \<subseteq> E" by auto
    then have st3: "entries (retain_active (ad_ticket ?w) ?st2) \<subseteq> E" by (auto simp: retain_active_def)
    show ?thesis
    proof (cases "is_admissible st index")
      case True
      then have "promote_loop g st index =
          (if grant_closed g (ad_ticket ?w) then promote_loop g ?st1 index
           else if grant_sent g (ad_ticket ?w) then promote_loop g ?st2 index
           else promote_loop g (retain_active (ad_ticket ?w) ?st2) index)"
        using lt by (simp add: promote_loop.simps [of g st index] Let_def)
      then show ?thesis
        using 1(2) [OF lt _ refl refl _ st1] 1(3) [OF lt _ refl refl _ refl _ st2]
          1(4) [OF lt _ refl refl _ refl _ st3] True by (simp split: if_splits)
    next
      case False
      then show ?thesis using 1(1) [OF lt False 1(5)] lt by (subst (1 2) promote_loop.simps) simp
    qed
  next
    case False
    then show ?thesis using 1(5) by (subst (1 2) promote_loop.simps) simp
  qed
qed

lemma promote_sel:
  assumes "admission_inv st"
  shows "adm_next_ticket (promote g st) = adm_next_ticket st" "adm_extent_bytes (promote g st) = adm_extent_bytes st"
    "entries (promote g st) \<subseteq> entries st"
  using promote_loop_inv [OF assms, of 0 g] promote_loop_entries [of st "entries st" g 0]
  by (simp_all add: promote_def settled_def)

lemma register_effect:
  assumes "admission_good st" "register g st op = (st', res)"
  shows "(\<exists>e. res = Inl e \<and> st' = st) \<or>
    (validate_op st op = Inr () \<and> res = Inr (adm_next_ticket st) \<and> adm_next_ticket st' = Suc (adm_next_ticket st) \<and>
     adm_extent_bytes st' = adm_extent_bytes st \<and>
     entries st' \<subseteq> insert \<lparr>ad_ticket = adm_next_ticket st, ad_op = op\<rparr> (entries st))"
proof (cases "validate_op st op")
  case (Inr u)
  let ?st = "st\<lparr>adm_next_ticket := adm_next_ticket st + 1,
      adm_waiting := adm_waiting st @ [\<lparr>ad_ticket = adm_next_ticket st, ad_op = op\<rparr>]\<rparr>"
  have "admission_inv ?st"
    using assms(1) queues_push [of "adm_active st" "adm_waiting st" "adm_next_ticket st" op]
    by (simp add: admission_good_def admission_inv_def)
  note promote_sel [OF this, of g]
  then show ?thesis using assms(2) Inr by (auto simp: register_def next_ticket_def)
qed (use assms(2) in \<open>auto simp: register_def\<close>)

lemma drop_effect:
  assumes "admission_good st"
  shows "adm_next_ticket (cancel g st t) = adm_next_ticket st" "adm_extent_bytes (cancel g st t) = adm_extent_bytes st"
    "entries (cancel g st t) \<subseteq> entries st" "admission_good (cancel g st t)"
    "adm_next_ticket (release g st t) = adm_next_ticket st" "adm_extent_bytes (release g st t) = adm_extent_bytes st"
    "entries (release g st t) \<subseteq> entries st" "admission_good (release g st t)"
proof -
  have inv: "admission_inv (st\<lparr>adm_waiting := filter (\<lambda>w. ad_ticket w \<noteq> t) (adm_waiting st)\<rparr>)"
    "admission_inv (retain_active t st)"
    using assms admission_inv_filter by (simp_all add: admission_good_def retain_active_def)
  show "adm_next_ticket (cancel g st t) = adm_next_ticket st" "adm_extent_bytes (cancel g st t) = adm_extent_bytes st"
    "entries (cancel g st t) \<subseteq> entries st" "admission_good (cancel g st t)"
    using promote_sel [OF inv(1), of g] promote_good(1) [OF inv(1), of g] by (auto simp: cancel_def)
  show "adm_next_ticket (release g st t) = adm_next_ticket st" "adm_extent_bytes (release g st t) = adm_extent_bytes st"
    "entries (release g st t) \<subseteq> entries st" "admission_good (release g st t)"
    using promote_sel [OF inv(2), of g] promote_good(1) [OF inv(2), of g]
    by (auto simp: release_def retain_active_def)
qed

fun registered :: "runtime_job list \<Rightarrow> nat list" where
  "registered [] = []"
| "registered (j # js) = (case rj_state j of RegisteredJob t op \<Rightarrow> t # registered js | _ \<Rightarrow> registered js)"

lemma registered_append: "registered (xs @ ys) = registered xs @ registered ys"
  by (induction xs) (auto split: job_state.splits)

lemma registered_remove1: "set (registered (remove1 j js)) \<subseteq> set (registered js)"
  "distinct (registered js) \<Longrightarrow> distinct (registered (remove1 j js))"
proof -
  show sub: "set (registered (remove1 j js)) \<subseteq> set (registered js)" for j js
    by (induction js) (auto split: job_state.splits)
  show "distinct (registered js) \<Longrightarrow> distinct (registered (remove1 j js))"
    by (induction js) (auto split: job_state.splits dest: subsetD [OF sub])
qed

lemma registered_mem:
  "\<lparr>rj_request = req, rj_state = RegisteredJob t op\<rparr> \<in> set js \<Longrightarrow> t \<in> set (registered js)"
  by (induction js) (auto split: job_state.splits)

lemma registered_remove1_fresh:
  assumes "\<lparr>rj_request = req, rj_state = RegisteredJob t op\<rparr> \<in> set js" "distinct (registered js)"
  shows "t \<notin> set (registered (remove1 \<lparr>rj_request = req, rj_state = RegisteredJob t op\<rparr> js))"
proof -
  obtain ys zs where "js = ys @ \<lparr>rj_request = req, rj_state = RegisteredJob t op\<rparr> # zs"
    "remove1 \<lparr>rj_request = req, rj_state = RegisteredJob t op\<rparr> js = ys @ zs"
    using remove1_split [OF assms(1)] by blast
  then show ?thesis using assms(2) by (auto simp: registered_append)
qed

text \<open>The tickets of the jobs that ran, and the order admission imposes on the others.\<close>

definition trace_ok :: "admission_state \<Rightarrow> runtime_job list \<Rightarrow> job list \<Rightarrow> bool" where
  "trace_ok adm jobs tr \<longleftrightarrow>
    admission_good adm \<and> distinct (registered jobs) \<and> distinct (map jb_ticket tr) \<and>
    (\<forall>t \<in> set (registered jobs). t < adm_next_ticket adm \<and> t \<notin> jb_ticket ` set tr) \<and>
    (\<forall>f \<in> set tr. jb_ticket f < adm_next_ticket adm \<and> job_ok f) \<and>
    sorted_wrt job_order tr \<and>
    (\<forall>f \<in> set tr. \<forall>e \<in> entries adm. ad_ticket e \<notin> jb_ticket ` set tr \<longrightarrow> ad_ticket e < jb_ticket f \<longrightarrow>
      \<not> conflicts (jb_op f) (ad_op e))"

lemma trace_ok_shrink:
  assumes "trace_ok adm jobs tr" "admission_good adm'" "adm_next_ticket adm' = adm_next_ticket adm"
    and "entries adm' \<subseteq> entries adm"
  shows "trace_ok adm' (remove1 j jobs) tr"
proof -
  note ok = assms(1) [unfolded trace_ok_def]
  note sub = registered_remove1(1) [where j = j and js = jobs] registered_remove1(2) [where j = j and js = jobs]
  have "\<forall>t \<in> set (registered (remove1 j jobs)). t < adm_next_ticket adm' \<and> t \<notin> jb_ticket ` set tr"
    using ok sub(1) assms(3) by auto
  moreover have "\<forall>f \<in> set tr. \<forall>e \<in> entries adm'. ad_ticket e \<notin> jb_ticket ` set tr \<longrightarrow> ad_ticket e < jb_ticket f \<longrightarrow>
      \<not> conflicts (jb_op f) (ad_op e)" using ok assms(4) by blast
  ultimately show ?thesis using ok sub(2) assms(2,3) unfolding trace_ok_def by simp
qed

lemma trace_ok_register:
  assumes "trace_ok adm jobs tr" "admission_good adm'" "adm_next_ticket adm' = Suc (adm_next_ticket adm)"
    and "entries adm' \<subseteq> insert \<lparr>ad_ticket = adm_next_ticket adm, ad_op = op\<rparr> (entries adm)"
  shows "trace_ok adm' (\<lparr>rj_request = req, rj_state = RegisteredJob (adm_next_ticket adm) op\<rparr> # jobs) tr"
proof -
  note ok = assms(1) [unfolded trace_ok_def]
  have "\<not> conflicts (jb_op f) (ad_op e)"
    if "f \<in> set tr" "e \<in> entries adm'" "ad_ticket e \<notin> jb_ticket ` set tr" "ad_ticket e < jb_ticket f" for f e
  proof -
    have "jb_ticket f < adm_next_ticket adm" using ok that(1) by blast
    then have "e \<in> entries adm" using that(2,4) assms(4) by auto
    then show ?thesis using ok that by blast
  qed
  moreover have "adm_next_ticket adm \<notin> set (registered jobs)" "adm_next_ticket adm \<notin> jb_ticket ` set tr"
    using ok by force+
  ultimately show ?thesis
    using ok assms(2,3) unfolding trace_ok_def by (auto simp: less_Suc_eq)
qed

lemma trace_ok_reject:
  "trace_ok adm jobs tr \<Longrightarrow> trace_ok adm (\<lparr>rj_request = req, rj_state = RejectedJob e\<rparr> # jobs) tr"
  by (simp add: trace_ok_def)

lemma admitted_before:
  assumes "queues_inv act wait n" "a \<in> set act" "e \<in> set act \<union> set wait" "ad_ticket e < ad_ticket a"
  shows "\<not> conflicts (ad_op a) (ad_op e)"
proof (cases "e \<in> set act")
  case True
  then obtain i k where ik: "i < length act" "act ! i = e" "k < length act" "act ! k = a"
    using assms(2) by (auto simp: in_set_conv_nth)
  then consider "i < k" | "k < i" using assms(4) by (cases i k rule: linorder_cases) auto
  then have "no_conflict e a \<or> no_conflict a e"
    using ik assms(1) sorted_wrt_nth_less [of no_conflict act i k] sorted_wrt_nth_less [of no_conflict act k i]
    by cases (simp_all add: queues_inv_def)
  then show ?thesis by (auto simp: no_conflict_def conflicts_commute)
next
  case False
  then have "e \<in> set wait" using assms(3) by simp
  then have "no_conflict e a" using assms(1,2,4) unfolding queues_inv_def by blast
  then show ?thesis by (auto simp: no_conflict_def conflicts_commute)
qed

lemma trace_ok_execute:
  assumes "trace_ok adm jobs tr" "\<lparr>rj_request = req, rj_state = RegisteredJob t op\<rparr> \<in> set jobs"
    and "\<lparr>ad_ticket = t, ad_op = op\<rparr> \<in> set (adm_active adm)" "op_covers op req"
  shows "trace_ok adm (\<lparr>rj_request = req, rj_state = ExecutedJob t res\<rparr> #
      remove1 \<lparr>rj_request = req, rj_state = RegisteredJob t op\<rparr> jobs)
    (tr @ [\<lparr>jb_ticket = t, jb_op = op, jb_request = req\<rparr>])"
proof -
  note ok = assms(1) [unfolded trace_ok_def]
  let ?j = "\<lparr>rj_request = req, rj_state = RegisteredJob t op\<rparr>"
  let ?a = "\<lparr>ad_ticket = t, ad_op = op\<rparr>"
  let ?new = "\<lparr>jb_ticket = t, jb_op = op, jb_request = req\<rparr>"
  have t: "t \<in> set (registered jobs)" "t < adm_next_ticket adm" "t \<notin> jb_ticket ` set tr"
    using registered_mem [OF assms(2)] ok by blast+
  have inv: "queues_inv (adm_active adm) (adm_waiting adm) (adm_next_ticket adm)"
    using ok by (simp add: admission_good_def admission_inv_def)
  have ord: "\<forall>f \<in> set tr. \<forall>e \<in> entries adm. ad_ticket e \<notin> jb_ticket ` set tr \<longrightarrow> ad_ticket e < jb_ticket f \<longrightarrow>
      \<not> conflicts (jb_op f) (ad_op e)" using ok by blast
  have active: "?a \<in> entries adm" using assms(3) by simp
  have before: "job_order f ?new" if "f \<in> set tr" for f
    using bspec [OF bspec [OF ord that] active] t(3) that by (auto simp: job_order_def not_less_iff_gr_or_eq)
  have after: "\<not> conflicts op (ad_op e)" if "e \<in> entries adm" "ad_ticket e < t" for e
    using admitted_before [OF inv assms(3)] that by simp
  have reg: "distinct (registered (remove1 ?j jobs))" "t \<notin> set (registered (remove1 ?j jobs))"
    "set (registered (remove1 ?j jobs)) \<subseteq> set (registered jobs)"
    using registered_remove1 ok registered_remove1_fresh [OF assms(2)] by blast+
  have "\<forall>f \<in> set (tr @ [?new]). \<forall>e \<in> entries adm. ad_ticket e \<notin> jb_ticket ` set (tr @ [?new]) \<longrightarrow>
      ad_ticket e < jb_ticket f \<longrightarrow> \<not> conflicts (jb_op f) (ad_op e)"
    using ord after by simp
  moreover have "\<forall>r \<in> set (registered (remove1 ?j jobs)). r < adm_next_ticket adm \<and> r \<notin> jb_ticket ` set (tr @ [?new])"
    using ok reg by auto
  moreover have "\<forall>f \<in> set (tr @ [?new]). jb_ticket f < adm_next_ticket adm \<and> job_ok f"
    using ok t(2) assms(4) by (simp add: job_ok_def)
  moreover have "sorted_wrt job_order (tr @ [?new])" using ok before by (simp add: sorted_wrt_append)
  moreover have "distinct (map jb_ticket (tr @ [?new]))" using ok t(3) by simp
  ultimately show ?thesis using ok reg(1) unfolding trace_ok_def by simp
qed

text \<open>
  An engine with an admission policy: what the policy lets through covers the request, and
  closing the engine keeps its contents.
\<close>

locale admitted_device = block_device +
  fixes operation_for :: "export_request \<Rightarrow> (server_error, admission_op) result"
    and close_engine :: "'a \<Rightarrow> 'a \<times> (server_error, unit) result"
  assumes policy_covers: "operation_for q = Inr op \<Longrightarrow> validate_op adm op = Inr () \<Longrightarrow> op_covers op q"
    and policy_accepts: "operation_for q = Inr op \<Longrightarrow> inv s \<Longrightarrow> accepts s q"
    and close_inv: "inv s \<Longrightarrow> inv (fst (close_engine s))"
    and close_contents: "inv s \<Longrightarrow> contents (fst (close_engine s)) = contents s"
begin

definition serial_inv :: "bytes \<Rightarrow> 'a concurrent_runtime \<Rightarrow> bool" where
  "serial_inv d0 rt \<longleftrightarrow>
    inv (rt_engine rt) \<and> contents (rt_engine rt) = run_jobs d0 (rt_trace rt) \<and>
    rt_results rt = job_replies d0 (rt_trace rt) \<and>
    trace_ok (rt_admission rt) (rt_jobs rt) (rt_trace rt) \<and>
    (\<forall>j \<in> set (rt_jobs rt). \<forall>t op. rj_state j = RegisteredJob t op \<longrightarrow>
      operation_for (rj_request j) = Inr op \<and> op_covers op (rj_request j))"

lemma serial_complete:
  assumes "serial_inv d0 rt" "complete_job (rt\<lparr>rt_admission := adm\<rparr>) j = Some rt'"
    and "admission_good adm" "adm_next_ticket adm = adm_next_ticket (rt_admission rt)"
    and "entries adm \<subseteq> entries (rt_admission rt)"
  shows "serial_inv d0 rt'"
  using assms trace_ok_shrink [OF _ assms(3-5)] set_remove1_subset [of j "rt_jobs rt"]
  by (auto simp: serial_inv_def complete_job_Some)

lemma serial_submit:
  assumes "serial_inv d0 rt"
  shows "serial_inv d0 (fst (submit operation_for g rt req))"
proof (cases rule: submit_cases [of rt operation_for g req])
  case closed
  then show ?thesis using assms by (simp add: serial_inv_def)
next
  case (accepted adm j)
  have good: "admission_good (rt_admission rt)" and tr: "trace_ok (rt_admission rt) (rt_jobs rt) (rt_trace rt)"
    using assms by (auto simp: serial_inv_def trace_ok_def)
  show ?thesis
  proof (cases "operation_for req")
    case (Inl e)
    then have "adm = rt_admission rt" "j = \<lparr>rj_request = req, rj_state = RejectedJob e\<rparr>"
      using accepted(2) by (auto simp: prepare_admitted_job_def)
    then show ?thesis using assms accepted(3) tr trace_ok_reject by (auto simp: serial_inv_def)
  next
    case (Inr op)
    obtain adm' res where r: "register g (rt_admission rt) op = (adm', res)" by (cases "register g (rt_admission rt) op")
    show ?thesis
    proof (cases res)
      case err: (Inl e)
      then have "adm = rt_admission rt" "j = \<lparr>rj_request = req, rj_state = RejectedJob e\<rparr>"
        using accepted(2) r Inr register_effect [OF good r] by (auto simp: prepare_admitted_job_def)
      then show ?thesis using assms accepted(3) tr trace_ok_reject by (auto simp: serial_inv_def)
    next
      case ok: (Inr t)
      then have j: "adm = adm'" "j = \<lparr>rj_request = req, rj_state = RegisteredJob t op\<rparr>"
        using accepted(2) r Inr by (auto simp: prepare_admitted_job_def)
      note eff = register_effect [OF good r]
      have t: "t = adm_next_ticket (rt_admission rt)" "validate_op (rt_admission rt) op = Inr ()"
        using eff ok by auto
      moreover have "admission_good adm'" using register_good [OF good, of g op] r by simp
      ultimately have "trace_ok adm' (j # rt_jobs rt) (rt_trace rt)"
        using eff ok trace_ok_register [OF tr] by (auto simp: j)
      then show ?thesis
        using assms accepted(3) j Inr policy_covers [OF Inr t(2)] by (auto simp: serial_inv_def)
    qed
  qed
qed

lemma serial_execute:
  assumes "serial_inv d0 rt" "\<lparr>rj_request = req, rj_state = RegisteredJob t op\<rparr> \<in> set (rt_jobs rt)"
    and "\<lparr>ad_ticket = t, ad_op = op\<rparr> \<in> set (adm_active (rt_admission rt))"
  shows "serial_inv d0 (execute_granted execute rt t op req)"
proof -
  have cov: "op_covers op req" "operation_for req = Inr op" using assms(1,2) by (force simp: serial_inv_def)+
  have inv: "inv (rt_engine rt)" "accepts (rt_engine rt) req"
    using assms(1) policy_accepts [OF cov(2)] by (auto simp: serial_inv_def)
  have "trace_ok (rt_admission rt) (rt_jobs rt) (rt_trace rt)" using assms(1) by (simp add: serial_inv_def)
  note trace_ok_execute [OF this assms(2,3) cov(1)]
  moreover have "set (remove1 \<lparr>rj_request = req, rj_state = RegisteredJob t op\<rparr> (rt_jobs rt)) \<subseteq> set (rt_jobs rt)"
    by (rule set_remove1_subset)
  ultimately show ?thesis
    using assms(1) execute_inv [OF inv] execute_contents [OF inv] execute_reply [OF inv]
    by (auto simp: serial_inv_def run_jobs_append job_replies_append)
qed

lemma serial_step:
  assumes "runtime_step operation_for execute close_engine rt rt'" "serial_inv d0 rt"
  shows "serial_inv d0 rt'"
proof -
  have good: "admission_good (rt_admission rt)" using assms(2) by (simp add: serial_inv_def trace_ok_def)
  note drop = drop_effect [OF good]
  show ?thesis
    using assms
  proof (cases rule: runtime_step.cases)
    case (rt_reserve res)
    then show ?thesis using reserve_Some [of rt rt' res] assms(2) by (auto simp: serial_inv_def)
  next
    case (rt_submit g req)
    then show ?thesis using serial_submit [OF assms(2)] by simp
  next
    case (rt_execute req ticket op)
    then show ?thesis using serial_execute [OF assms(2)] by simp
  next
    case (rt_complete_executed j ticket res g)
    show ?thesis by (rule serial_complete [OF assms(2) rt_complete_executed(3) drop(8,5,7)])
  next
    case (rt_complete_rejected j e)
    then show ?thesis using serial_complete [OF assms(2), of "rt_admission rt"] good by simp
  next
    case (rt_grant_lost j ticket op)
    then show ?thesis using serial_complete [OF assms(2), of "rt_admission rt"] good by simp
  next
    case (rt_task_dropped_waiting j ticket op g)
    show ?thesis by (rule serial_complete [OF assms(2) rt_task_dropped_waiting(3) drop(4,1,3)])
  next
    case (rt_task_dropped_active j ticket op g)
    show ?thesis by (rule serial_complete [OF assms(2) rt_task_dropped_active(3) drop(8,5,7)])
  next
    case (rt_close_finish res)
    then show ?thesis
      using close_finish_Some [of close_engine rt rt' res] assms(2) close_inv close_contents
      by (auto simp: serial_inv_def)
  qed (use assms(2) in \<open>auto simp: serial_inv_def runtime_close_begin_def\<close>)
qed

lemma serial_start:
  assumes "inv e"
  shows "serial_inv (contents e) (new_runtime n e capacity)"
  using assms by (simp add: serial_inv_def new_runtime_def trace_ok_def admission_good_def admission_inv_def
      queues_inv_def settled_def new_admission_def)

lemma runtime_serializable:
  assumes "inv e" "runtime_reachable operation_for execute close_engine (new_runtime n e capacity) rt"
  shows "contents (rt_engine rt) = run_jobs (contents e) (sort_key jb_ticket (rt_trace rt))"
    "set (rt_results rt) = set (job_replies (contents e) (sort_key jb_ticket (rt_trace rt)))"
    "distinct (map jb_ticket (rt_trace rt))"
proof -
  have "serial_inv (contents e) rt"
    using assms(2) by (induction rule: runtime_reachable.induct) (auto intro: serial_start serial_step assms(1))
  then have *: "contents (rt_engine rt) = run_jobs (contents e) (rt_trace rt)"
    "rt_results rt = job_replies (contents e) (rt_trace rt)" "sorted_wrt job_order (rt_trace rt)"
    "distinct (map jb_ticket (rt_trace rt))" "\<And>j. j \<in> set (rt_trace rt) \<Longrightarrow> job_ok j"
    by (auto simp: serial_inv_def trace_ok_def)
  from reorder_by_ticket [OF *(5,4,3), of "contents e"] *
  show "contents (rt_engine rt) = run_jobs (contents e) (sort_key jb_ticket (rt_trace rt))"
    "set (rt_results rt) = set (job_replies (contents e) (sort_key jb_ticket (rt_trace rt)))"
    "distinct (map jb_ticket (rt_trace rt))" by simp_all
qed

end

section \<open>Properties\<close>


definition reserved_runtime :: "unit concurrent_runtime" where
  "reserved_runtime = (new_runtime 100 () 4)\<lparr>rt_queue_free := 3, rt_reserved := 1\<rparr>"

lemma reserved_runtime_reachable:
  "runtime_reachable operation_for execute close_engine (new_runtime 100 () 4) reserved_runtime"
proof (rule rt_next [OF rt_start rt_reserve])
  show "reserve (new_runtime 100 () 4) = Some (reserved_runtime, Inr ())"
    by (simp add: reserve_def new_runtime_def reserved_runtime_def ensure_open_def new_lifecycle_def)
qed


text \<open>
  C29. Closing the engine is the last thing that happens to it: once the engine has been
  closed the runtime is closed and has no job, and no later step executes a request,
  changes the engine or closes it again.
\<close>

theorem engine_close_is_last:
  assumes "runtime_reachable operation_for execute close_engine (new_runtime n engine capacity) rt"
    and "rt_close_result rt \<noteq> None" "runtime_step operation_for execute close_engine rt rt'"
  shows "lc_closed (rt_lifecycle rt) \<and> rt_jobs rt = [] \<and> rt_engine rt' = rt_engine rt \<and>
    rt_trace rt' = rt_trace rt \<and> rt_close_result rt' = rt_close_result rt"
proof -
  have closed: "lc_closed (rt_lifecycle rt)" "rt_jobs rt = []"
    using counts_reachable [OF assms(1) new_runtime_counts] assms(2) by (auto simp: counts_ok_def)
  have "rt_engine rt' = rt_engine rt \<and> rt_trace rt' = rt_trace rt \<and> rt_close_result rt' = rt_close_result rt"
    using assms(3)
  proof (cases rule: runtime_step.cases)
    case (rt_reserve res)
    then show ?thesis using reserve_Some [of rt rt' res] by auto
  next
    case (rt_submit g req)
    then show ?thesis using closed by (cases rule: submit_cases [of rt operation_for g req]) auto
  next
    case (rt_close_finish res)
    then show ?thesis
      using assms(2) by (auto simp: runtime_close_finish_def engine_close_once_def wait_empty_ready_def split: if_splits)
  qed (use closed in \<open>auto simp: runtime_close_begin_def\<close>)
  with closed show ?thesis by blast
qed

definition closed_runtime :: "nat concurrent_runtime" where
  "closed_runtime = (runtime_close_begin (new_runtime 100 7 4))\<lparr>rt_engine := 8, rt_close_result := Some (Inr ())\<rparr>"

theorem engine_close_is_last_witness:
  "rt_engine closed_runtime = 8 \<and> lc_closed (rt_lifecycle closed_runtime) \<and> rt_jobs closed_runtime = []"
proof -
  let ?policy = "\<lambda>_ :: export_request. Inr FlushOp :: (server_error, admission_op) result"
  let ?exec = "\<lambda>(e :: nat) (_ :: export_request). (e, Inr ReplyDone :: export_result)"
  let ?close = "\<lambda>e :: nat. (Suc e, Inr () :: (server_error, unit) result)"
  have "runtime_close_finish ?close (runtime_close_begin (new_runtime 100 7 4)) = Some (closed_runtime, Inr ())"
    by (simp add: runtime_close_finish_def wait_empty_ready_def runtime_close_begin_def lifecycle_close_def
        new_runtime_def new_lifecycle_def engine_close_once_def closed_runtime_def)
  moreover have "lc_closed (rt_lifecycle (runtime_close_begin (new_runtime 100 7 4)))"
    by (simp add: runtime_close_begin_def lifecycle_close_def)
  ultimately have "runtime_reachable ?policy ?exec ?close (new_runtime 100 7 4) closed_runtime"
    by (blast intro: rt_next rt_start rt_close_begin rt_close_finish)
  from engine_close_is_last [OF this _ rt_close_begin] show ?thesis
    by (simp add: closed_runtime_def)
qed

end
