(* ===== verification/Memory_Engine.thy ===== *)
theory Memory_Engine
  imports Export_Runtime
begin

text \<open>
  The volatile memory engine, from \<open>nbd-server/src/engines/memory.rs\<close>: a fixed-size buffer
  behind range checks, with the admission policy that names the exact ranges. It refines
  the byte array of an export, so the concurrent runtime over it is serializable in ticket
  order.
\<close>

section \<open>Definitions\<close>

definition MAX_MEMORY_EXPORT_BYTES :: nat where
  "MAX_MEMORY_EXPORT_BYTES = 64 * 1024 * 1024"

record memory_export_engine =
  me_name :: export_name
  me_size_bytes :: nat
  me_block_size :: nat
  me_data :: bytes

definition memory_storage_new :: "nat \<Rightarrow> bytes" where
  "memory_storage_new size_bytes = replicate size_bytes 0"

definition memory_storage_read :: "bytes \<Rightarrow> nat \<Rightarrow> nat \<Rightarrow> bytes" where
  "memory_storage_read data start len = (if len = 0 then [] else slice data start len)"

definition memory_storage_write :: "bytes \<Rightarrow> nat \<Rightarrow> bytes \<Rightarrow> bytes" where
  "memory_storage_write data start bs = (if bs = [] then data else copy_at data start bs)"

fun memory_operation_for :: "nat \<Rightarrow> export_request \<Rightarrow> (server_error, admission_op) result" where
  "memory_operation_for size_bytes (ExportRead off len) = Inr (ReadOp (new_range off len))"
| "memory_operation_for size_bytes (ExportWrite off data) =
    and_then (ok_or (OutOfBounds ''write'' off (length data) size_bytes) (try_u32 (length data))) (\<lambda>len.
      Inr (WriteOp (new_range off len)))"
| "memory_operation_for size_bytes ExportFlush = Inr FlushOp"

definition memory_from_export_head ::
  "export_name \<Rightarrow> nat \<Rightarrow> export_head \<Rightarrow> (server_error, memory_export_engine) result" where
  "memory_from_export_head name block_size head =
    (if head_layout_kind head \<noteq> MemoryEmpty then Inl (Catalog None)
     else
       let size_bytes = head_size_bytes head in
       if size_bytes > MAX_MEMORY_EXPORT_BYTES
       then Inl (ExportTooLarge name size_bytes MAX_MEMORY_EXPORT_BYTES)
       else Inr \<lparr>me_name = name, me_size_bytes = size_bytes, me_block_size = block_size,
                 me_data = memory_storage_new size_bytes\<rparr>)"

definition memory_validate_range ::
  "memory_export_engine \<Rightarrow> string \<Rightarrow> nat \<Rightarrow> nat \<Rightarrow> (server_error, nat) result" where
  "memory_validate_range m operation off len =
    (let err = OutOfBounds operation off len (me_size_bytes m) in
     and_then (ok_or err (checked_add off len)) (\<lambda>stop.
       if stop > me_size_bytes m then Inl err else Inr off))"

definition memory_read :: "memory_export_engine \<Rightarrow> nat \<Rightarrow> nat \<Rightarrow> (server_error, bytes) result" where
  "memory_read m off len =
    and_then (memory_validate_range m ''read'' off len) (\<lambda>start.
      Inr (memory_storage_read (me_data m) start len))"

definition memory_write ::
  "memory_export_engine \<Rightarrow> nat \<Rightarrow> bytes \<Rightarrow> memory_export_engine \<times> (server_error, unit) result" where
  "memory_write m off data =
    then_st (m, memory_validate_range m ''write'' off (length data)) (\<lambda>m start.
      (m\<lparr>me_data := memory_storage_write (me_data m) start data\<rparr>, Inr ()))"

definition memory_flush :: "memory_export_engine \<Rightarrow> (server_error, unit) result" where
  "memory_flush m = Inr ()"

fun memory_execute :: "memory_export_engine \<Rightarrow> export_request \<Rightarrow> memory_export_engine \<times> export_result" where
  "memory_execute m (ExportRead off len) =
    then_st (m, memory_read m off len) (\<lambda>m data. (m, Inr (ReplyRead data)))"
| "memory_execute m (ExportWrite off data) =
    then_st (memory_write m off data) (\<lambda>m _. (m, Inr ReplyDone))"
| "memory_execute m ExportFlush = then_st (m, memory_flush m) (\<lambda>m _. (m, Inr ReplyDone))"

definition memory_close :: "memory_export_engine \<Rightarrow> memory_export_engine \<times> (server_error, unit) result" where
  "memory_close m = (m, Inr ())"

section \<open>Refinement of the byte array\<close>

definition memory_inv :: "memory_export_engine \<Rightarrow> bool" where
  "memory_inv m \<longleftrightarrow> length (me_data m) = me_size_bytes m \<and> me_size_bytes m \<le> MAX_MEMORY_EXPORT_BYTES"

lemma memory_validate_range_eq:
  assumes "memory_inv m"
  shows "memory_validate_range m operation off len =
    (if off + len \<le> me_size_bytes m then Inr off else Inl (OutOfBounds operation off len (me_size_bytes m)))"
proof -
  have "me_size_bytes m \<le> u64_max"
    using assms by (simp add: memory_inv_def MAX_MEMORY_EXPORT_BYTES_def u64_max_def)
  then show ?thesis by (auto simp: memory_validate_range_def checked_add_def Let_def)
qed

lemma memory_execute_disk:
  assumes "memory_inv m"
  shows "memory_inv (fst (memory_execute m q))"
    "me_data (fst (memory_execute m q)) = fst (disk_exec (me_data m) q)"
    "snd (memory_execute m q) = snd (disk_exec (me_data m) q)"
proof -
  have len: "length (me_data m) = me_size_bytes m" using assms by (simp add: memory_inv_def)
  show "memory_inv (fst (memory_execute m q))"
    "me_data (fst (memory_execute m q)) = fst (disk_exec (me_data m) q)"
    "snd (memory_execute m q) = snd (disk_exec (me_data m) q)"
    using assms len
    by (cases q; auto simp: memory_read_def memory_write_def memory_flush_def memory_validate_range_eq
        memory_storage_read_def memory_storage_write_def memory_inv_def slice_simps slice_def)+
qed

lemma try_u32_covers:
  assumes "memory_operation_for n q = Inr op" "validate_op adm op = Inr ()"
  shows "op_covers op q"
  using assms
  by (cases q) (auto simp: validate_op_def and_then_Inr_iff Let_def checked_arith range_bytes_def split: if_splits)

interpretation memory: admitted_device memory_execute memory_inv me_data "\<lambda>_ _. True" "memory_operation_for n" memory_close
proof
  show "op_covers op q" if "memory_operation_for n q = Inr op" "validate_op adm op = Inr ()" for q op adm
    using try_u32_covers that by blast
qed (simp_all add: memory_execute_disk memory_close_def)

section \<open>Properties\<close>

text \<open>
  C1. The memory export is serializable in ticket order: whatever the interleaving of
  submissions, admissions, executions, cancellations and the close, the buffer holds what
  executing the requests one after the other in ticket order on a zeroed buffer gives, and
  every reply is the one that serial execution gives.
\<close>

theorem memory_export_serializable:
  assumes "memory_from_export_head name block_size head = Inr m"
    and "runtime_reachable (memory_operation_for (head_size_bytes head)) memory_execute memory_close
      (new_runtime (head_size_bytes head) m capacity) rt"
  shows "me_data (rt_engine rt) =
      run_jobs (replicate (head_size_bytes head) 0) (sort_key jb_ticket (rt_trace rt)) \<and>
    set (rt_results rt) = set (job_replies (replicate (head_size_bytes head) 0) (sort_key jb_ticket (rt_trace rt)))"
proof -
  have m: "memory_inv m" "me_data m = replicate (head_size_bytes head) 0"
    using assms(1) by (auto simp: memory_from_export_head_def memory_inv_def memory_storage_new_def Let_def split: if_splits)
  from memory.runtime_serializable [OF m(1) assms(2)] show ?thesis by (simp add: m(2))
qed

definition sample_memory :: memory_export_engine where
  "sample_memory = \<lparr>me_name = ''disk'', me_size_bytes = 6, me_block_size = 1, me_data = replicate 6 0\<rparr>"

definition sample_submitted :: "memory_export_engine concurrent_runtime" where
  "sample_submitted = fst (submit (memory_operation_for 6) grants_ok
    ((new_runtime 6 sample_memory 2)\<lparr>rt_queue_free := 1, rt_reserved := 1\<rparr>) (ExportWrite 2 [7, 8]))"

definition sample_executed :: "memory_export_engine concurrent_runtime" where
  "sample_executed = execute_granted memory_execute sample_submitted 0 (WriteOp (new_range 2 2)) (ExportWrite 2 [7, 8])"

lemmas sample_eval = sample_submitted_def submit_def begin_submit_def new_runtime_def new_lifecycle_def
  prepare_admitted_job_def try_u32_def u32_max_def register_def new_admission_def validate_op_def checked_end_def
  checked_add_def u64_max_def next_ticket_def promote_def promote_loop.simps is_admissible_def remove_waiting_def
  grants_ok_def

lemma sample_executed_reachable:
  "runtime_reachable (memory_operation_for 6) memory_execute memory_close (new_runtime 6 sample_memory 2) sample_executed"
proof -
  let ?rt1 = "(new_runtime 6 sample_memory 2)\<lparr>rt_queue_free := 1, rt_reserved := 1\<rparr>"
  have "reserve (new_runtime 6 sample_memory 2) = Some (?rt1, Inr ())"
    by (simp add: reserve_def new_runtime_def ensure_open_def new_lifecycle_def)
  then have "runtime_reachable (memory_operation_for 6) memory_execute memory_close (new_runtime 6 sample_memory 2) ?rt1"
    by (blast intro: rt_next rt_start rt_reserve)
  moreover have "runtime_step (memory_operation_for 6) memory_execute memory_close ?rt1 sample_submitted"
    unfolding sample_submitted_def by (rule rt_submit) simp
  moreover have "runtime_step (memory_operation_for 6) memory_execute memory_close sample_submitted sample_executed"
    unfolding sample_executed_def
  proof (rule rt_execute)
    show "\<lparr>rj_request = ExportWrite 2 [7, 8], rj_state = RegisteredJob 0 (WriteOp (new_range 2 2))\<rparr>
        \<in> set (rt_jobs sample_submitted)" by (simp add: sample_eval)
    show "\<lparr>ad_ticket = 0, ad_op = WriteOp (new_range 2 2)\<rparr> \<in> set (adm_active (rt_admission sample_submitted))"
      by (simp add: sample_eval)
  qed
  ultimately show ?thesis by (blast intro: rt_next)
qed

theorem memory_export_serializable_witness:
  "me_data (rt_engine sample_executed) = [0, 0, 7, 8, 0, 0]"
proof -
  have "memory_from_export_head ''disk'' 1 (MemoryHead \<lparr>mh_size_bytes = 6\<rparr>) = Inr sample_memory"
    by (simp add: memory_from_export_head_def sample_memory_def MAX_MEMORY_EXPORT_BYTES_def memory_storage_new_def Let_def)
  from memory_export_serializable [OF this, of 2 sample_executed] sample_executed_reachable
  have "me_data (rt_engine sample_executed) = run_jobs (replicate 6 0) (sort_key jb_ticket (rt_trace sample_executed))"
    by simp
  moreover have "rt_trace sample_executed = [\<lparr>jb_ticket = 0, jb_op = WriteOp (new_range 2 2), jb_request = ExportWrite 2 [7, 8]\<rparr>]"
    by (simp add: sample_executed_def sample_eval)
  ultimately show ?thesis by (simp add: copy_at_def eval_nat_numeral)
qed

end
