(* ===== verification/Ordered_Map.thy ===== *)
theory Ordered_Map
  imports Prelude
begin

text \<open>
  The standard library's \<open>BTreeMap\<close>, as an association list in strictly ascending key
  order: the order \<open>iter\<close> and \<open>range\<close> yield. The locale states the map laws the
  components rely on.
\<close>

fun bt_insert :: "'k :: linorder \<Rightarrow> 'v \<Rightarrow> ('k \<times> 'v) list \<Rightarrow> ('k \<times> 'v) list" where
  "bt_insert k v [] = [(k, v)]"
| "bt_insert k v ((a, b) # m) =
    (if k < a then (k, v) # (a, b) # m
     else if k = a then (k, v) # m
     else (a, b) # bt_insert k v m)"

fun bt_remove :: "'k :: linorder \<Rightarrow> ('k \<times> 'v) list \<Rightarrow> ('k \<times> 'v) list" where
  "bt_remove k [] = []"
| "bt_remove k ((a, b) # m) = (if k = a then m else (a, b) # bt_remove k m)"

definition bt_get :: "('k \<times> 'v) list \<Rightarrow> 'k \<Rightarrow> 'v option" where
  "bt_get m k = map_of m k"

definition bt_upto :: "('k :: linorder \<times> 'v) list \<Rightarrow> 'k \<Rightarrow> ('k \<times> 'v) list" where
  "bt_upto m k = filter (\<lambda>(a, _). a \<le> k) m"

definition bt_from :: "('k :: linorder \<times> 'v) list \<Rightarrow> 'k \<Rightarrow> ('k \<times> 'v) list" where
  "bt_from m k = filter (\<lambda>(a, _). k \<le> a) m"

definition bt_sorted :: "('k :: linorder \<times> 'v) list \<Rightarrow> bool" where
  "bt_sorted m \<longleftrightarrow> sorted_wrt (<) (map fst m)"

locale ordered_map =
  fixes lookup :: "'m \<Rightarrow> 'k \<Rightarrow> 'v option"
    and insert :: "'k \<Rightarrow> 'v \<Rightarrow> 'm \<Rightarrow> 'm"
    and remove :: "'k \<Rightarrow> 'm \<Rightarrow> 'm"
    and ok :: "'m \<Rightarrow> bool"
  assumes insert_ok: "ok m \<Longrightarrow> ok (insert k v m)"
    and remove_ok: "ok m \<Longrightarrow> ok (remove k m)"
    and lookup_insert: "ok m \<Longrightarrow> lookup (insert k v m) = (lookup m)(k \<mapsto> v)"
    and lookup_remove: "ok m \<Longrightarrow> lookup (remove k m) = (lookup m)(k := None)"
begin

lemma insert_twice: "ok m \<Longrightarrow> lookup (insert k v (insert k u m)) = lookup (insert k v m)"
  by (simp add: lookup_insert insert_ok)

lemma remove_insert: "ok m \<Longrightarrow> lookup m k = None \<Longrightarrow> lookup (remove k (insert k v m)) = lookup m"
  by (auto simp: lookup_insert lookup_remove insert_ok)

lemma fold_inserts:
  "ok m \<Longrightarrow> ok (foldl (\<lambda>m (k, v). insert k v m) m kvs) \<and>
    lookup (foldl (\<lambda>m (k, v). insert k v m) m kvs) = lookup m ++ map_of (rev kvs)"
proof (induction kvs rule: rev_induct)
  case (snoc kv kvs)
  then show ?case by (cases kv) (auto simp: insert_ok lookup_insert map_add_def fun_eq_iff)
qed simp

end

lemma set_bt_insert: "fst ` set (bt_insert k v m) = Set.insert k (fst ` set m)"
  by (induction k v m rule: bt_insert.induct) auto

lemma set_bt_remove: "fst ` set (bt_remove k m) \<subseteq> fst ` set m"
  by (induction k m rule: bt_remove.induct) auto

lemma bt_sorted_Cons:
  "bt_sorted ((a, b) # m) \<longleftrightarrow> (\<forall>k \<in> fst ` set m. a < k) \<and> bt_sorted m"
  by (auto simp: bt_sorted_def)

lemma bt_sorted_insert: "bt_sorted m \<Longrightarrow> bt_sorted (bt_insert k v m)"
proof (induction k v m rule: bt_insert.induct)
  case (2 k v a b m)
  then show ?case
    by (auto simp: bt_sorted_Cons set_bt_insert)
qed (simp add: bt_sorted_def)

lemma bt_sorted_remove: "bt_sorted m \<Longrightarrow> bt_sorted (bt_remove k m)"
proof (induction k m rule: bt_remove.induct)
  case (2 k a b m)
  then show ?case using set_bt_remove [of k m] by (auto simp: bt_sorted_Cons subset_iff image_iff) force
qed simp

lemma bt_get_insert: "bt_get (bt_insert k v m) = (bt_get m)(k \<mapsto> v)"
  by (induction k v m rule: bt_insert.induct) (auto simp: bt_get_def fun_eq_iff)

lemma bt_get_remove: "bt_sorted m \<Longrightarrow> bt_get (bt_remove k m) = (bt_get m)(k := None)"
proof (induction k m rule: bt_remove.induct)
  case (2 k a b m)
  then have "map_of m a = None" "bt_sorted m"
    by (auto simp: bt_sorted_Cons map_of_eq_None_iff)
  with 2 show ?case by (auto simp: bt_get_def fun_eq_iff)
qed (simp add: bt_get_def fun_eq_iff)

interpretation bt: ordered_map bt_get bt_insert bt_remove bt_sorted
  by unfold_locales (simp_all add: bt_sorted_insert bt_sorted_remove bt_get_insert bt_get_remove)

lemma bt_insert_between:
  assumes "\<forall>(a, _) \<in> set xs. a < k" "\<forall>(b, _) \<in> set ys. k < b"
  shows "bt_insert k v (xs @ ys) = xs @ (k, v) # ys"
  using assms
proof (induction xs)
  case Nil
  then show ?case by (cases ys) auto
next
  case (Cons x xs)
  then show ?case by (cases x) auto
qed

lemma bt_remove_middle:
  assumes "\<forall>(a, _) \<in> set xs. a \<noteq> k"
  shows "bt_remove k (xs @ (k, v) # ys) = xs @ ys"
  using assms by (induction xs) auto

end
