(* ===== verification/Extent_Map.thy ===== *)
theory Extent_Map
  imports Ordered_Map Server_Error
begin

text \<open>
  The extent map of the WAL-durable engine, from \<open>nbd-server/src/engines/wal_durable/
  extent_map.rs\<close>: non-overlapping half-open extents keyed by their start in a
  \<open>BTreeMap\<close>, with overwriting insertion and range removal that split the extents
  they cut. The lemmas give the map after each operation explicitly and its meaning byte
  by byte, for every splitting function that shifts the value by the given distance.
\<close>

section \<open>Operations\<close>

record 'v extent =
  ext_end :: nat
  ext_value :: 'v

record 'v extent_entry =
  ee_start :: nat
  ee_end :: nat
  ee_value :: 'v

type_synonym 'v extent_map = "(nat \<times> 'v extent) list"

definition invalid_extent :: server_error where
  "invalid_extent = Wal ''extent map''"

definition validate_extent :: "nat \<Rightarrow> nat \<Rightarrow> (server_error, unit) result" where
  "validate_extent start stop = (if start \<ge> stop then Inl invalid_extent else Inr ())"

definition new_extent_entry :: "nat \<Rightarrow> nat \<Rightarrow> 'v \<Rightarrow> (server_error, 'v extent_entry) result" where
  "new_extent_entry start stop v =
    and_then (validate_extent start stop) (\<lambda>_. Inr \<lparr>ee_start = start, ee_end = stop, ee_value = v\<rparr>)"

definition extent_ref :: "nat \<times> 'v extent \<Rightarrow> 'v extent_entry" where
  "extent_ref p = \<lparr>ee_start = fst p, ee_end = ext_end (snd p), ee_value = ext_value (snd p)\<rparr>"

definition em_new :: "'v extent_map" where "em_new = []"

definition em_is_empty :: "'v extent_map \<Rightarrow> bool" where "em_is_empty m \<longleftrightarrow> m = []"

definition em_iter :: "'v extent_map \<Rightarrow> 'v extent_entry list" where
  "em_iter m = map extent_ref m"

definition em_get :: "'v extent_map \<Rightarrow> nat \<Rightarrow> 'v extent_entry option" where
  "em_get m start = map_option (\<lambda>e. extent_ref (start, e)) (bt_get m start)"

fun overlap_loop :: "nat \<Rightarrow> (nat \<times> 'v extent) list \<Rightarrow> 'v extent_entry list \<Rightarrow> 'v extent_entry list" where
  "overlap_loop stop [] refs = refs"
| "overlap_loop stop (p # ps) refs =
    (if fst p \<ge> stop then refs
     else if refs \<noteq> [] \<and> ee_start (last refs) = fst p then overlap_loop stop ps refs
     else overlap_loop stop ps (refs @ [extent_ref p]))"

definition overlapping :: "'v extent_map \<Rightarrow> nat \<Rightarrow> nat \<Rightarrow> (server_error, 'v extent_entry list) result" where
  "overlapping m start stop =
    (if start = stop then Inr []
     else and_then (validate_extent start stop) (\<lambda>_.
       let refs = (case rev (bt_upto m start) of
             [] \<Rightarrow> []
           | p # _ \<Rightarrow> if ext_end (snd p) > start then [extent_ref p] else [])
       in Inr (overlap_loop stop (bt_from m start) refs)))"

definition ensure_no_overlap :: "'v extent_map \<Rightarrow> nat \<Rightarrow> nat \<Rightarrow> (server_error, unit) result" where
  "ensure_no_overlap m start stop =
    and_then (case rev (bt_upto m start) of
        [] \<Rightarrow> Inr ()
      | p # _ \<Rightarrow> if ext_end (snd p) > start then Inl invalid_extent else Inr ()) (\<lambda>_.
      case bt_from m start of
        [] \<Rightarrow> Inr ()
      | p # _ \<Rightarrow> if fst p < stop then Inl invalid_extent else Inr ())"

definition insert_exact ::
  "'v extent_map \<Rightarrow> nat \<Rightarrow> nat \<Rightarrow> 'v \<Rightarrow> 'v extent_map \<times> (server_error, unit) result" where
  "insert_exact m start stop v =
    then_st (m, validate_extent start stop) (\<lambda>m _.
      then_st (m, ensure_no_overlap m start stop) (\<lambda>m _.
        (bt_insert start \<lparr>ext_end = stop, ext_value = v\<rparr> m, Inr ())))"

fun remove_keys :: "'v extent_map \<Rightarrow> nat list \<Rightarrow> 'v extent_map \<times> (server_error, 'v extent_entry list) result" where
  "remove_keys m [] = (m, Inr [])"
| "remove_keys m (key # keys) =
    (case bt_get m key of
       None \<Rightarrow> (m, Inl invalid_extent)
     | Some e \<Rightarrow>
         then_st (bt_remove key m, new_extent_entry key (ext_end e) (ext_value e)) (\<lambda>m entry.
           then_st (remove_keys m keys) (\<lambda>m entries. (m, Inr (entry # entries)))))"

definition remove_overlapping ::
  "'v extent_map \<Rightarrow> nat \<Rightarrow> nat \<Rightarrow> 'v extent_map \<times> (server_error, 'v extent_entry list) result" where
  "remove_overlapping m start stop =
    then_st (m, overlapping m start stop) (\<lambda>m refs. remove_keys m (map ee_start refs))"

fun reinsert_tails ::
  "('v \<Rightarrow> nat \<Rightarrow> 'v) \<Rightarrow> 'v extent_map \<Rightarrow> nat \<Rightarrow> nat \<Rightarrow> 'v extent_entry list
    \<Rightarrow> 'v extent_map \<times> (server_error, unit) result" where
  "reinsert_tails split_value m start stop [] = (m, Inr ())"
| "reinsert_tails split_value m start stop (e # es) =
    then_st (if ee_start e < start then insert_exact m (ee_start e) start (split_value (ee_value e) 0)
             else (m, Inr ())) (\<lambda>m _.
      then_st (if ee_end e > stop then
                 then_st (m, ok_or invalid_extent (checked_sub stop (ee_start e))) (\<lambda>m delta.
                   insert_exact m stop (ee_end e) (split_value (ee_value e) delta))
               else (m, Inr ())) (\<lambda>m _.
        reinsert_tails split_value m start stop es))"

definition insert_overwrite_with_split ::
  "('v \<Rightarrow> nat \<Rightarrow> 'v) \<Rightarrow> 'v extent_map \<Rightarrow> nat \<Rightarrow> nat \<Rightarrow> 'v
    \<Rightarrow> 'v extent_map \<times> (server_error, 'v extent_entry list) result" where
  "insert_overwrite_with_split split_value m start stop v =
    then_st (m, validate_extent start stop) (\<lambda>m _.
      then_st (remove_overlapping m start stop) (\<lambda>m removed.
        then_st (reinsert_tails split_value m start stop removed) (\<lambda>m _.
          then_st (insert_exact m start stop v) (\<lambda>m _. (m, Inr removed)))))"

definition remove_range_with_split ::
  "('v \<Rightarrow> nat \<Rightarrow> 'v) \<Rightarrow> 'v extent_map \<Rightarrow> nat \<Rightarrow> nat
    \<Rightarrow> 'v extent_map \<times> (server_error, 'v extent_entry list) result" where
  "remove_range_with_split split_value m start stop =
    (if start = stop then (m, Inr [])
     else then_st (m, validate_extent start stop) (\<lambda>m _.
       then_st (remove_overlapping m start stop) (\<lambda>m removed.
         then_st (reinsert_tails split_value m start stop removed) (\<lambda>m _. (m, Inr removed)))))"

fun validate_loop :: "nat option \<Rightarrow> 'v extent_map \<Rightarrow> (server_error, unit) result" where
  "validate_loop previous_end [] = Inr ()"
| "validate_loop previous_end ((start, e) # m) =
    and_then (validate_extent start (ext_end e)) (\<lambda>_.
      case previous_end of
        Some stop \<Rightarrow> if start < stop then Inl invalid_extent else validate_loop (Some (ext_end e)) m
      | None \<Rightarrow> validate_loop (Some (ext_end e)) m)"

definition em_validate :: "'v extent_map \<Rightarrow> (server_error, unit) result" where
  "em_validate m = validate_loop None m"

section \<open>The invariant\<close>

definition em_inv :: "'v extent_map \<Rightarrow> bool" where
  "em_inv m \<longleftrightarrow> (\<forall>p \<in> set m. fst p < ext_end (snd p)) \<and>
    sorted_wrt (\<lambda>p q. ext_end (snd p) \<le> fst q) m"

lemma extent_ref_sel [simp]:
  "ee_start (extent_ref p) = fst p" "ee_end (extent_ref p) = ext_end (snd p)"
  "ee_value (extent_ref p) = ext_value (snd p)"
  by (simp_all add: extent_ref_def)

lemma validate_extent_simps [simp]:
  "validate_extent a b = Inr u \<longleftrightarrow> a < b" "a < b \<Longrightarrow> validate_extent a b = Inr ()"
  by (auto simp: validate_extent_def)

lemma em_inv_simps [simp]:
  "em_inv []"
  "em_inv (p # m) \<longleftrightarrow> fst p < ext_end (snd p) \<and> (\<forall>q \<in> set m. ext_end (snd p) \<le> fst q) \<and> em_inv m"
  "em_inv (m @ n) \<longleftrightarrow> em_inv m \<and> em_inv n \<and> (\<forall>p \<in> set m. \<forall>q \<in> set n. ext_end (snd p) \<le> fst q)"
  by (auto simp: em_inv_def sorted_wrt_append)

lemma em_inv_mem: "em_inv m \<Longrightarrow> p \<in> set m \<Longrightarrow> fst p < ext_end (snd p)"
  by (auto simp: em_inv_def)

lemma validate_loop_iff:
  "validate_loop prev m = Inr () \<longleftrightarrow> em_inv m \<and> (\<forall>e p. prev = Some e \<longrightarrow> p \<in> set m \<longrightarrow> e \<le> fst p)"
proof (induction prev m rule: validate_loop.induct)
  case (2 prev start e m)
  show ?case
  proof (cases "start < ext_end e \<and> (\<forall>x. prev = Some x \<longrightarrow> x \<le> start)")
    case True
    then have "validate_loop prev ((start, e) # m) = validate_loop (Some (ext_end e)) m"
      by (auto split: option.splits)
    with 2 True show ?thesis by (cases prev) fastforce+
  next
    case False
    then show ?thesis by (cases prev) (auto simp: and_then_Inr_iff)
  qed
qed simp

lemma em_validate_iff: "em_validate m = Inr () \<longleftrightarrow> em_inv m"
  by (simp add: em_validate_def validate_loop_iff)

lemma em_inv_sorted: "em_inv m \<Longrightarrow> bt_sorted m"
proof (induction m)
  case (Cons p m)
  then show ?case by (cases p) (force simp: bt_sorted_Cons)
qed (simp add: bt_sorted_def)

section \<open>The three parts of a map around a range\<close>

definition parts :: "nat \<Rightarrow> nat \<Rightarrow> 'v extent_map \<Rightarrow> 'v extent_map \<Rightarrow> 'v extent_map \<Rightarrow> bool" where
  "parts s e L M R \<longleftrightarrow> s < e \<and> em_inv (L @ M @ R) \<and> (\<forall>p \<in> set L. ext_end (snd p) \<le> s) \<and>
    (\<forall>p \<in> set M. s < ext_end (snd p) \<and> fst p < e) \<and> (\<forall>p \<in> set R. e \<le> fst p)"

lemma em_parts:
  assumes "em_inv m" "s < e"
  obtains L M R where "m = L @ M @ R" "parts s e L M R"
proof -
  have "\<exists>L M R. m = L @ M @ R \<and> parts s e L M R"
    using assms(1)
  proof (induction m)
    case Nil
    then show ?case using assms(2) by (auto simp: parts_def)
  next
    case (Cons p m)
    then obtain L M R where IH: "m = L @ M @ R" "parts s e L M R" by auto
    have p: "fst p < ext_end (snd p)" "\<forall>q \<in> set m. ext_end (snd p) \<le> fst q" using Cons.prems by auto
    have q: "fst q < ext_end (snd q)" if "q \<in> set m" for q using Cons.prems that by (auto simp: em_inv_def)
    consider "ext_end (snd p) \<le> s" | "s < ext_end (snd p)" "fst p < e" | "s < ext_end (snd p)" "e \<le> fst p"
      by linarith
    then show ?case
    proof cases
      case 1
      then show ?thesis using Cons.prems IH by (intro exI [of _ "p # L"] exI [of _ M] exI [of _ R]) (auto simp: parts_def)
    next
      case 2
      have "L = []"
      proof (rule ccontr)
        assume "L \<noteq> []"
        then obtain x where "x \<in> set L" by (cases L) auto
        then have "ext_end (snd p) \<le> fst x" "fst x < ext_end (snd x)" "ext_end (snd x) \<le> s"
          using IH p(2) q [of x] by (auto simp: parts_def)
        with 2 show False by linarith
      qed
      then show ?thesis using 2 Cons.prems IH by (intro exI [of _ "[]"] exI [of _ "p # M"] exI [of _ R]) (auto simp: parts_def)
    next
      case 3
      have "L @ M = []"
      proof (rule ccontr)
        assume "L @ M \<noteq> []"
        then obtain x where "x \<in> set (L @ M)" by (cases "L @ M") auto
        then have "ext_end (snd p) \<le> fst x" "fst x < ext_end (snd x)" "ext_end (snd x) \<le> s \<or> fst x < e"
          using IH p(2) q [of x] by (auto simp: parts_def)
        with 3 p(1) show False by linarith
      qed
      then show ?thesis using 3 Cons.prems IH by (intro exI [of _ "[]"] exI [of _ "[]"] exI [of _ "p # R"]) (auto simp: parts_def)
    qed
  qed
  then show thesis using that by blast
qed

lemma parts_bounds:
  assumes "parts s e L M R"
  shows "\<forall>p \<in> set L. fst p < s" "\<forall>p \<in> set R. s < fst p" "em_inv M" "em_inv (L @ R)"
proof -
  show "\<forall>p \<in> set L. fst p < s"
  proof
    fix p assume "p \<in> set L"
    then have "fst p < ext_end (snd p)" "ext_end (snd p) \<le> s"
      using assms by (auto simp: parts_def em_inv_def)
    then show "fst p < s" by linarith
  qed
qed (use assms in \<open>auto simp: parts_def\<close>)

lemma em_inv_ascending: "em_inv (p # m) \<Longrightarrow> q \<in> set m \<Longrightarrow> fst p < fst q"
  using order.strict_trans2 by auto

lemma overlap_loop_ascending:
  assumes "em_inv (M @ R)" "\<forall>p \<in> set M. fst p < e" "\<forall>p \<in> set R. e \<le> fst p"
    and "\<forall>p \<in> set M. refs \<noteq> [] \<longrightarrow> ee_start (last refs) < fst p"
  shows "overlap_loop e (M @ R) refs = refs @ map extent_ref M"
  using assms
proof (induction M arbitrary: refs)
  case Nil
  then show ?case by (cases R) auto
next
  case (Cons p M)
  have "\<forall>q \<in> set M. fst p < fst q" using em_inv_ascending [of p "M @ R"] Cons.prems(1) by auto
  with Cons show ?case by (auto simp: extent_ref_def)
qed

lemma filter_all_none: "\<forall>x \<in> set xs. P x \<Longrightarrow> filter P xs = xs" "\<forall>x \<in> set xs. \<not> P x \<Longrightarrow> filter P xs = []"
  by (auto simp: filter_id_conv filter_empty_conv)

lemma bt_ranges_append [simp]:
  "bt_upto (xs @ ys) k = bt_upto xs k @ bt_upto ys k" "bt_from (xs @ ys) k = bt_from xs k @ bt_from ys k"
  by (simp_all add: bt_upto_def bt_from_def)

lemma parts_ranges:
  assumes "parts s e L M R"
  shows "bt_upto L s = L" "bt_from L s = []" "bt_upto R s = []" "bt_from R s = R"
  using parts_bounds(1,2) [OF assms] by (auto simp: bt_upto_def bt_from_def intro!: filter_all_none)

lemma overlapping_parts:
  assumes "parts s e L M R"
  shows "overlapping (L @ M @ R) s e = Inr (map extent_ref M)"
proof -
  note b = parts_bounds [OF assms]
  have se: "s < e" using assms by (simp add: parts_def)
  note LR = parts_ranges [OF assms]
  have lastL: "(case rev L of [] \<Rightarrow> [] | p # _ \<Rightarrow> if ext_end (snd p) > s then [extent_ref p] else []) = []"
    using assms by (cases L rule: rev_cases) (auto simp: parts_def)
  have MR: "em_inv (M @ R)" "\<forall>p \<in> set M. fst p < e" "\<forall>p \<in> set R. e \<le> fst p" using assms by (auto simp: parts_def)
  show ?thesis
  proof (cases "M \<noteq> [] \<and> fst (hd M) \<le> s")
    case False
    have "\<forall>p \<in> set M. s < fst p"
    proof (cases M)
      case (Cons p M')
      then have "s < fst p" "\<forall>q \<in> set M'. fst p < fst q"
        using False b(3) em_inv_ascending [of p M'] by auto
      then show ?thesis using Cons order.strict_trans by auto
    qed simp
    then have "bt_upto M s = []" "bt_from M s = M"
      by (auto simp: bt_upto_def bt_from_def intro!: filter_all_none)
    then show ?thesis using se lastL overlap_loop_ascending [OF MR, of "[]"]
      by (simp add: overlapping_def LR)
  next
    case True
    then obtain p M' where M: "M = p # M'" "fst p \<le> s" by (cases M) auto
    have "s < ext_end (snd p)" using assms M by (simp add: parts_def)
    then have M': "\<forall>q \<in> set M'. s < fst q" using b(3) M order.strict_trans2 by auto
    then have M2: "bt_upto M s = [p]" "bt_from M s = (if fst p = s then [p] else []) @ M'"
      using M by (auto simp: bt_upto_def bt_from_def intro!: filter_all_none)
    have "bt_upto (L @ M @ R) s = L @ [p]" "bt_from (L @ M @ R) s = (if fst p = s then [p] else []) @ M' @ R"
      by (simp_all add: LR M2)
    moreover have "\<forall>q \<in> set M'. fst p < fst q" using em_inv_ascending [of p M'] b(3) M by auto
    then have "overlap_loop e (M' @ R) [extent_ref p] = extent_ref p # map extent_ref M'"
      using overlap_loop_ascending [of M' R e "[extent_ref p]"] MR M by simp
    moreover have "map extent_ref M = extent_ref p # map extent_ref M'" by (simp add: M)
    ultimately show ?thesis using se M(2) \<open>s < ext_end (snd p)\<close>
      by (auto simp: overlapping_def simp del: bt_ranges_append)
  qed
qed

section \<open>The operations on the three parts\<close>

lemma remove_keys_parts:
  assumes "em_inv (L @ M @ R)"
  shows "remove_keys (L @ M @ R) (map fst M) = (L @ R, Inr (map extent_ref M))"
  using assms
proof (induction M)
  case (Cons p M)
  obtain k x where p: "p = (k, x)" by (cases p)
  have ne: "\<forall>(a, _) \<in> set L. a \<noteq> k"
  proof (clarify)
    fix y assume "(k, y) \<in> set L"
    then have "ext_end y \<le> k" "k < ext_end y"
      using Cons.prems em_inv_mem [OF Cons.prems, of "(k, y)"] by (auto simp: p)
    then show False by simp
  qed
  then have "map_of L k = None" by (auto simp: map_of_eq_None_iff)
  then have "bt_get (L @ p # M @ R) k = Some x" by (simp add: bt_get_def p map_add_def)
  moreover have "bt_remove k (L @ p # M @ R) = L @ M @ R"
    using bt_remove_middle [OF ne] by (simp add: p)
  moreover have "k < ext_end x" "em_inv (L @ M @ R)" using Cons.prems by (auto simp: p)
  ultimately show ?case using Cons.IH by (simp add: p new_extent_entry_def extent_ref_def)
qed simp

lemma insert_exact_between:
  assumes "em_inv (L @ R)" "s < e" "\<forall>p \<in> set L. ext_end (snd p) \<le> s" "\<forall>p \<in> set R. e \<le> fst p"
  shows "insert_exact (L @ R) s e v = (L @ (s, \<lparr>ext_end = e, ext_value = v\<rparr>) # R, Inr ())"
    "em_inv (L @ (s, \<lparr>ext_end = e, ext_value = v\<rparr>) # R)"
proof -
  have pt: "parts s e L [] R" using assms by (simp add: parts_def)
  note b = parts_bounds [OF pt]
  have "bt_upto (L @ R) s = L" "bt_from (L @ R) s = R"
    using parts_ranges [OF pt] by simp_all
  moreover have "\<forall>p. last L = p \<longrightarrow> L \<noteq> [] \<longrightarrow> ext_end (snd p) \<le> s" using assms(3) by auto
  ultimately have "ensure_no_overlap (L @ R) s e = Inr ()"
    using assms(4) by (cases L rule: rev_cases; cases R) (auto simp: ensure_no_overlap_def)
  moreover have "bt_insert s \<lparr>ext_end = e, ext_value = v\<rparr> (L @ R) = L @ (s, \<lparr>ext_end = e, ext_value = v\<rparr>) # R"
    using b(1,2) by (intro bt_insert_between) auto
  ultimately show "insert_exact (L @ R) s e v = (L @ (s, \<lparr>ext_end = e, ext_value = v\<rparr>) # R, Inr ())"
    using assms(2) by (simp add: insert_exact_def)
  show "em_inv (L @ (s, \<lparr>ext_end = e, ext_value = v\<rparr>) # R)"
    using assms by auto
qed

definition left_tail :: "('v \<Rightarrow> nat \<Rightarrow> 'v) \<Rightarrow> nat \<Rightarrow> 'v extent_map \<Rightarrow> 'v extent_map" where
  "left_tail sp s M = (case M of [] \<Rightarrow> []
    | (a, x) # _ \<Rightarrow> if a < s then [(a, \<lparr>ext_end = s, ext_value = sp (ext_value x) 0\<rparr>)] else [])"

definition right_tail :: "('v \<Rightarrow> nat \<Rightarrow> 'v) \<Rightarrow> nat \<Rightarrow> 'v extent_map \<Rightarrow> 'v extent_map" where
  "right_tail sp e M = (case rev M of [] \<Rightarrow> []
    | (a, x) # _ \<Rightarrow> if e < ext_end x
        then [(e, \<lparr>ext_end = ext_end x, ext_value = sp (ext_value x) (e - a)\<rparr>)] else [])"

lemma right_tail_Cons: "M \<noteq> [] \<Longrightarrow> right_tail sp e (p # M) = right_tail sp e M"
  by (cases M rule: rev_cases) (auto simp: right_tail_def)

lemma right_tail_bounds:
  assumes "q \<in> set (right_tail sp e M)"
  shows "fst q = e" "\<exists>p \<in> set M. ext_end (snd q) = ext_end (snd p) \<and> e < ext_end (snd p)"
  using assms by (cases M rule: rev_cases; auto simp: right_tail_def split: if_splits)+

lemma reinsert_right:
  assumes "em_inv (L @ R)" "s < e" "em_inv M" "\<forall>p \<in> set M. s \<le> fst p \<and> fst p < e"
    and "\<forall>p \<in> set L. ext_end (snd p) \<le> s" "\<forall>p \<in> set R. e \<le> fst p"
    and "\<forall>p \<in> set M. \<forall>q \<in> set R. ext_end (snd p) \<le> fst q"
  shows "reinsert_tails sp (L @ R) s e (map extent_ref M) = (L @ right_tail sp e M @ R, Inr ())"
  using assms
proof (induction M)
  case (Cons p M)
  obtain a x where p: "p = (a, x)" by (cases p)
  show ?case
  proof (cases "M = []")
    case True
    have "insert_exact (L @ R) e (ext_end x) w = (L @ (e, \<lparr>ext_end = ext_end x, ext_value = w\<rparr>) # R, Inr ())"
      if "e < ext_end x" for w
      using Cons.prems that p order.trans by (intro insert_exact_between(1)) fastforce+
    then show ?thesis using True Cons.prems
      by (auto simp: p extent_ref_def right_tail_def checked_sub_def)
  next
    case False
    then obtain q M' where "M = q # M'" by (cases M) auto
    then have "ext_end x \<le> e" using Cons.prems p by fastforce
    then have "reinsert_tails sp (L @ R) s e (map extent_ref (p # M)) =
        reinsert_tails sp (L @ R) s e (map extent_ref M)"
      using Cons.prems by (auto simp: p extent_ref_def)
    then show ?thesis using False Cons by (simp add: right_tail_Cons)
  qed
qed (simp add: right_tail_def)

lemma tails_inv:
  assumes "parts s e L M R"
  shows "em_inv ((L @ left_tail sp s M) @ right_tail sp e M @ R)"
    "\<forall>p \<in> set (L @ left_tail sp s M). ext_end (snd p) \<le> s"
    "\<forall>p \<in> set (right_tail sp e M @ R). e \<le> fst p"
proof -
  have l: "left_tail sp s M = [] \<or> (\<exists>q v. left_tail sp s M = [(fst q, \<lparr>ext_end = s, ext_value = v\<rparr>)] \<and>
      fst q < s \<and> q \<in> set M)"
    by (cases M) (auto simp: left_tail_def, blast)
  have r: "right_tail sp e M = [] \<or> (\<exists>q v. right_tail sp e M = [(e, \<lparr>ext_end = ext_end (snd q), ext_value = v\<rparr>)] \<and>
      e < ext_end (snd q) \<and> q \<in> set M)"
    by (cases M rule: rev_cases) (fastforce simp: right_tail_def)+
  show "\<forall>p \<in> set (L @ left_tail sp s M). ext_end (snd p) \<le> s"
    using l assms by (auto simp: parts_def)
  show "\<forall>p \<in> set (right_tail sp e M @ R). e \<le> fst p"
    using r assms by (auto simp: parts_def)
  have "em_inv (L @ R)" "s < e" using assms by (auto simp: parts_def)
  moreover have "ext_end (snd p) \<le> fst q" if "p \<in> set L" "q \<in> set M" for p q
    using assms that by (simp add: parts_def)
  moreover have "ext_end (snd p) \<le> fst q" if "p \<in> set M" "q \<in> set R" for p q
    using assms that by (simp add: parts_def)
  moreover have "ext_end (snd p) \<le> e" if "p \<in> set L" for p
    using assms that order.trans less_imp_le by (auto simp: parts_def)
  moreover have "s \<le> fst q" if "q \<in> set R" for q
    using assms that order.trans less_imp_le by (auto simp: parts_def)
  ultimately show "em_inv ((L @ left_tail sp s M) @ right_tail sp e M @ R)"
    using l r by (elim disjE exE conjE) auto
qed

lemma reinsert_parts:
  assumes "parts s e L M R"
  shows "reinsert_tails sp (L @ R) s e (map extent_ref M) =
    (L @ left_tail sp s M @ right_tail sp e M @ R, Inr ())"
proof (cases "M \<noteq> [] \<and> fst (hd M) < s")
  case False
  then have "left_tail sp s M = []" by (cases M) (auto simp: left_tail_def)
  moreover have "\<forall>p \<in> set M. s \<le> fst p"
  proof (cases M)
    case (Cons p M')
    then have "s \<le> fst p" "\<forall>q \<in> set M'. fst p < fst q"
      using False parts_bounds(3) [OF assms] em_inv_ascending [of p M'] by auto
    then show ?thesis using Cons order.trans by auto
  qed simp
  ultimately show ?thesis
    using assms by (auto simp: parts_def intro!: reinsert_right)
next
  case True
  then obtain a x M' where M: "M = (a, x) # M'" "a < s" by (cases M) auto
  let ?l = "(a, \<lparr>ext_end = s, ext_value = sp (ext_value x) 0\<rparr>)"
  have lt: "left_tail sp s M = [?l]" using M by (simp add: left_tail_def)
  have se: "s < e" "s < ext_end x" using assms M by (auto simp: parts_def)
  have Rs: "\<forall>p \<in> set R. s \<le> fst p"
    using parts_bounds(2) [OF assms] less_imp_le by blast
  have ins: "insert_exact (L @ R) a s (sp (ext_value x) 0) = ((L @ [?l]) @ R, Inr ())"
    "em_inv ((L @ [?l]) @ R)"
    using insert_exact_between [of L R a s "sp (ext_value x) 0"] assms M se Rs by (auto simp: parts_def)
  show ?thesis
  proof (cases "M' = []")
    case True
    have "insert_exact ((L @ [?l]) @ R) e (ext_end x) w = ((L @ [?l]) @ (e, \<lparr>ext_end = ext_end x, ext_value = w\<rparr>) # R, Inr ())"
      if "e < ext_end x" for w
      using assms that M se ins(2) by (intro insert_exact_between(1)) (auto simp: parts_def)
    then show ?thesis using True M se ins(1)
      by (auto simp: left_tail_def right_tail_def checked_sub_def)
  next
    case False
    then obtain q M'' where q: "M' = q # M''" by (cases M') auto
    then have "ext_end x \<le> e" using assms M by (auto simp: parts_def)
    then have "reinsert_tails sp (L @ R) s e (map extent_ref M) =
        reinsert_tails sp ((L @ [?l]) @ R) s e (map extent_ref M')"
      using M ins(1) by auto
    also have "\<dots> = ((L @ [?l]) @ right_tail sp e M' @ R, Inr ())"
    proof (rule reinsert_right)
      show "\<forall>p \<in> set M'. s \<le> fst p \<and> fst p < e"
      proof
        fix p assume p: "p \<in> set M'"
        then have "ext_end x \<le> fst p" "fst p < e" using assms M by (simp_all add: parts_def)
        then show "s \<le> fst p \<and> fst p < e" using se(2) by simp
      qed
      show "\<forall>p \<in> set (L @ [?l]). ext_end (snd p) \<le> s"
        using assms by (auto simp: parts_def)
    qed (use assms M ins(2) se in \<open>simp_all add: parts_def\<close>)
    finally show ?thesis using False by (simp add: M(1) right_tail_Cons) (simp add: lt [unfolded M(1)])
  qed
qed

lemma remove_overlapping_parts:
  "parts s e L M R \<Longrightarrow> remove_overlapping (L @ M @ R) s e = (L @ R, Inr (map extent_ref M))"
proof -
  assume p: "parts s e L M R"
  have "map ee_start (map extent_ref M) = map fst M" by simp
  then show ?thesis
    using overlapping_parts [OF p] remove_keys_parts [of L M R] p
    by (simp add: remove_overlapping_def parts_def del: map_map)
qed

lemma insert_overwrite_parts:
  assumes "parts s e L M R"
  shows "insert_overwrite_with_split sp (L @ M @ R) s e v =
    (L @ left_tail sp s M @ (s, \<lparr>ext_end = e, ext_value = v\<rparr>) # right_tail sp e M @ R, Inr (map extent_ref M))"
    "em_inv (L @ left_tail sp s M @ (s, \<lparr>ext_end = e, ext_value = v\<rparr>) # right_tail sp e M @ R)"
proof -
  have "s < e" using assms by (simp add: parts_def)
  note ins = insert_exact_between [OF tails_inv(1) [OF assms] \<open>s < e\<close> tails_inv(2,3) [OF assms], of sp v]
  show "insert_overwrite_with_split sp (L @ M @ R) s e v =
    (L @ left_tail sp s M @ (s, \<lparr>ext_end = e, ext_value = v\<rparr>) # right_tail sp e M @ R, Inr (map extent_ref M))"
    using ins(1) \<open>s < e\<close>
    by (simp add: insert_overwrite_with_split_def remove_overlapping_parts [OF assms] reinsert_parts [OF assms])
  show "em_inv (L @ left_tail sp s M @ (s, \<lparr>ext_end = e, ext_value = v\<rparr>) # right_tail sp e M @ R)"
    using ins(2) by simp
qed

lemma remove_range_parts:
  assumes "parts s e L M R"
  shows "remove_range_with_split sp (L @ M @ R) s e =
    (L @ left_tail sp s M @ right_tail sp e M @ R, Inr (map extent_ref M))"
    "em_inv (L @ left_tail sp s M @ right_tail sp e M @ R)"
  using assms tails_inv(1) [OF assms, of sp]
  by (simp_all add: remove_range_with_split_def remove_overlapping_parts [OF assms]
      reinsert_parts [OF assms] parts_def)

section \<open>Meaning, byte by byte\<close>

text \<open>
  \<open>em_at at m x\<close> is what the map holds at position \<open>x\<close>, where \<open>at v i\<close> is what the
  value \<open>v\<close> holds at distance \<open>i\<close> from the start of its extent. The client of the map
  supplies the splitting function; its contract is that splitting shifts the value.
\<close>

fun em_at :: "('v \<Rightarrow> nat \<Rightarrow> 'b) \<Rightarrow> 'v extent_map \<Rightarrow> nat \<Rightarrow> 'b option" where
  "em_at at [] x = None"
| "em_at at (p # m) x =
    (if fst p \<le> x \<and> x < ext_end (snd p) then Some (at (ext_value (snd p)) (x - fst p)) else em_at at m x)"

lemma em_at_None_iff: "em_at at m x = None \<longleftrightarrow> (\<forall>p \<in> set m. \<not> (fst p \<le> x \<and> x < ext_end (snd p)))"
  by (induction m) auto

lemma em_at_append: "em_at at (m @ n) x = (case em_at at m x of None \<Rightarrow> em_at at n x | Some b \<Rightarrow> Some b)"
  by (induction m) auto

lemma em_at_mem:
  "em_inv m \<Longrightarrow> p \<in> set m \<Longrightarrow> fst p \<le> x \<Longrightarrow> x < ext_end (snd p) \<Longrightarrow>
    em_at at m x = Some (at (ext_value (snd p)) (x - fst p))"
proof (induction m)
  case (Cons q m)
  show ?case
  proof (cases "p = q")
    case False
    then have "p \<in> set m" using Cons.prems by simp
    moreover from this have "ext_end (snd q) \<le> fst p" using Cons.prems by simp
    moreover have "em_inv m" using Cons.prems by simp
    ultimately show ?thesis using Cons.IH Cons.prems(3,4) by auto
  qed (use Cons.prems in simp)
qed simp

locale splitting =
  fixes split_value :: "'v \<Rightarrow> nat \<Rightarrow> 'v"
    and at :: "'v \<Rightarrow> nat \<Rightarrow> 'b"
  assumes at_split: "at (split_value v d) i = at v (d + i)"
begin

lemma em_at_left_tail:
  assumes "parts s e L M R" "x < s"
  shows "em_at at (left_tail split_value s M) x = em_at at M x"
proof (cases M)
  case (Cons p M')
  have "em_at at M' x = None"
    unfolding em_at_None_iff
  proof
    fix q assume "q \<in> set M'"
    then have "ext_end (snd p) \<le> fst q" "s < ext_end (snd p)"
      using assms Cons by (auto simp: parts_def)
    then show "\<not> (fst q \<le> x \<and> x < ext_end (snd q))" using assms(2) by simp
  qed
  moreover have "s < ext_end (snd p)" using assms Cons by (auto simp: parts_def)
  ultimately show ?thesis
    using assms(2) Cons by (cases p) (auto simp: left_tail_def at_split)
qed (simp add: left_tail_def)

lemma em_at_right_tail:
  assumes "parts s e L M R" "e \<le> x"
  shows "em_at at (right_tail split_value e M) x = em_at at M x"
proof (cases M rule: rev_cases)
  case (snoc M' p)
  have "em_at at M' x = None"
    unfolding em_at_None_iff
  proof
    fix q assume "q \<in> set M'"
    then have "ext_end (snd q) \<le> fst p" "fst p < e"
      using assms snoc by (auto simp: parts_def)
    then show "\<not> (fst q \<le> x \<and> x < ext_end (snd q))" using assms(2) by simp
  qed
  moreover have "fst p < e" using assms snoc by (auto simp: parts_def)
  ultimately show ?thesis
    using assms(2) snoc by (cases p) (auto simp: right_tail_def at_split em_at_append)
qed (simp add: right_tail_def)

lemma em_at_tails:
  assumes "parts s e L M R"
  shows "em_at at (left_tail split_value s M @ right_tail split_value e M) x =
    (if s \<le> x \<and> x < e then None else em_at at M x)"
proof -
  have l: "em_at at (left_tail split_value s M) x = None" if "s \<le> x"
    using that tails_inv(2) [OF assms, of split_value] by (force simp: em_at_None_iff)
  have r: "em_at at (right_tail split_value e M) x = None" if "x < e"
    using that tails_inv(3) [OF assms, of split_value] by (force simp: em_at_None_iff)
  have "s < e" using assms by (simp add: parts_def)
  then consider "x < s" "x < e" | "s \<le> x" "x < e" | "s \<le> x" "e \<le> x" by linarith
  then show ?thesis
    using l r em_at_left_tail [OF assms] em_at_right_tail [OF assms]
    by cases (auto simp: em_at_append split: option.splits)
qed

lemma em_at_outside:
  assumes "parts s e L M R" "s \<le> x" "x < e"
  shows "em_at at L x = None" "em_at at R x = None"
  using assms by (force simp: em_at_None_iff parts_def)+

lemma insert_overwrite_at:
  assumes "em_inv m" "s < e"
  obtains m' removed where "insert_overwrite_with_split split_value m s e v = (m', Inr removed)" "em_inv m'"
    "\<And>x. em_at at m' x = (if s \<le> x \<and> x < e then Some (at v (x - s)) else em_at at m x)"
proof -
  obtain L M R where m: "m = L @ M @ R" and p: "parts s e L M R"
    using em_parts [OF assms] by blast
  have "em_at at (L @ left_tail split_value s M @ (s, \<lparr>ext_end = e, ext_value = v\<rparr>) # right_tail split_value e M @ R) x =
      (if s \<le> x \<and> x < e then Some (at v (x - s)) else em_at at m x)" for x
    using em_at_tails [OF p, of x] em_at_outside [OF p, of x]
    by (auto simp: m em_at_append split: option.splits if_splits)
  then show thesis
    using that insert_overwrite_parts [OF p, of split_value v] m by blast
qed

lemma remove_range_at:
  assumes "em_inv m" "s \<le> e"
  obtains m' removed where "remove_range_with_split split_value m s e = (m', Inr removed)" "em_inv m'"
    "\<And>x. em_at at m' x = (if s \<le> x \<and> x < e then None else em_at at m x)"
proof (cases "s = e")
  case True
  then show thesis using assms(1) by (intro that [of m "[]"]) (auto simp: remove_range_with_split_def)
next
  case False
  then obtain L M R where m: "m = L @ M @ R" and p: "parts s e L M R"
    using em_parts [OF assms(1), of s e] assms(2) by auto
  have "em_at at (L @ left_tail split_value s M @ right_tail split_value e M @ R) x =
      (if s \<le> x \<and> x < e then None else em_at at m x)" for x
    using em_at_tails [OF p, of x] em_at_outside [OF p, of x]
    by (auto simp: m em_at_append split: option.splits if_splits)
  then show thesis
    using that remove_range_parts [OF p, of split_value] m by blast
qed

end

text \<open>The extents that meet a range, cut to it.\<close>

definition clip :: "('v \<Rightarrow> nat \<Rightarrow> 'v) \<Rightarrow> nat \<Rightarrow> nat \<Rightarrow> 'v extent_map \<Rightarrow> 'v extent_map" where
  "clip sp s e m = map (\<lambda>p. (max s (fst p), \<lparr>ext_end = min e (ext_end (snd p)),
      ext_value = sp (ext_value (snd p)) (max s (fst p) - fst p)\<rparr>))
    (filter (\<lambda>p. fst p < e \<and> s < ext_end (snd p) \<and> s < e) m)"

lemma clip_simps [simp]:
  "clip sp s e [] = []"
  "clip sp s e (p # m) = (if fst p < e \<and> s < ext_end (snd p) \<and> s < e then
      (max s (fst p), \<lparr>ext_end = min e (ext_end (snd p)),
        ext_value = sp (ext_value (snd p)) (max s (fst p) - fst p)\<rparr>) # clip sp s e m
     else clip sp s e m)"
  by (auto simp: clip_def)

lemma clip_mem:
  assumes "q \<in> set (clip sp s e m)"
  obtains p where "p \<in> set m" "fst p < e" "s < ext_end (snd p)" "s < e" "fst q = max s (fst p)"
    "ext_end (snd q) = min e (ext_end (snd p))" "ext_value (snd q) = sp (ext_value (snd p)) (fst q - fst p)"
  using assms by (auto simp: clip_def)

lemma clip_bounds: "q \<in> set (clip sp s e m) \<Longrightarrow> s \<le> fst q \<and> ext_end (snd q) \<le> e"
  by (erule clip_mem) simp

lemma em_inv_clip: "em_inv m \<Longrightarrow> em_inv (clip sp s e m)"
proof (induction m)
  case (Cons p m)
  have "min e (ext_end (snd p)) \<le> fst q" if "q \<in> set (clip sp s e m)" for q
    using that Cons.prems by (auto elim!: clip_mem)
  then show ?case using Cons by auto
qed simp

context splitting
begin

lemma em_at_clip: "em_at at (clip split_value s e m) x = (if s \<le> x \<and> x < e then em_at at m x else None)"
  by (induction m) (auto simp: at_split)

end

text \<open>
  \<open>overlapping\<close> returns, in order, exactly the extents that share a byte with the
  queried range, whatever the values are.
\<close>

lemma overlapping_filter:
  assumes "em_inv m" "s \<le> e"
  shows "overlapping m s e = Inr (map extent_ref (filter (\<lambda>p. fst p < e \<and> s < ext_end (snd p) \<and> s < e) m))"
proof (cases "s = e")
  case False
  then obtain L M R where m: "m = L @ M @ R" and p: "parts s e L M R"
    using em_parts [OF assms(1), of s e] assms(2) by auto
  have "filter (\<lambda>p. fst p < e \<and> s < ext_end (snd p) \<and> s < e) L = []"
       "filter (\<lambda>p. fst p < e \<and> s < ext_end (snd p) \<and> s < e) R = []"
       "filter (\<lambda>p. fst p < e \<and> s < ext_end (snd p) \<and> s < e) M = M"
    using p by (auto simp: parts_def filter_empty_conv filter_id_conv)
  then show ?thesis using overlapping_parts [OF p] m by simp
qed (simp add: overlapping_def)

end
