(* ===== verification/Overlay.thy ===== *)
theory Overlay
  imports Extent_Map Wal_Codec "HOL-Library.Product_Lexorder"
begin

text \<open>
  The overlay of retained WAL records, from \<open>nbd-server/src/engines/wal_durable/
  overlay.rs\<close>: an extent map whose extents point into the payload of a record. The lemmas
  show that the overlay gives, byte by byte, the latest record that covers the byte, that
  a read returns exactly those bytes, and that retiring extents up to a sequence number
  leaves the newer ones as they are.
\<close>

section \<open>Operations\<close>

record overlay_extent =
  oe_seq :: wal_seq
  oe_record :: wal_record
  oe_offset :: nat

type_synonym overlay_extent_map = "overlay_extent extent_map"

record overlay_read_slice =
  os_start :: nat
  os_end :: nat
  os_record :: wal_record
  os_offset :: nat

record retired_overlay_extent =
  re_start :: nat
  re_end :: nat
  re_seq :: wal_seq
  re_record :: wal_record
  re_offset :: nat

definition split_at :: "overlay_extent \<Rightarrow> nat \<Rightarrow> overlay_extent" where
  "split_at v delta = v\<lparr>oe_offset := oe_offset v + delta\<rparr>"

definition overlay_new :: overlay_extent_map where "overlay_new = em_new"

definition insert_record ::
  "overlay_extent_map \<Rightarrow> wal_record \<Rightarrow> overlay_extent_map \<times> (server_error, unit) result" where
  "insert_record m record =
    (let rng = wrec_range record; start = br_start rng; stop = range_end rng in
     then_st (insert_overwrite_with_split split_at m start stop
         \<lparr>oe_seq = wrec_seq record, oe_record = record, oe_offset = 0\<rparr>)
       (\<lambda>m _. (m, Inr ())))"

definition overlay_is_empty :: "overlay_extent_map \<Rightarrow> bool" where
  "overlay_is_empty m = em_is_empty m"

definition read_slices :: "overlay_extent_map \<Rightarrow> byte_range \<Rightarrow> (server_error, overlay_read_slice list) result" where
  "read_slices m rng =
    (let read_start = br_start rng; read_end = range_end rng in
     and_then (overlapping m read_start read_end) (\<lambda>extents.
       try_map (\<lambda>ext.
         let start = max read_start (ee_start ext); stop = min read_end (ee_end ext) in
         and_then (ok_or (Wal ''read overlay extent'')
             (checked_add (oe_offset (ee_value ext)) (start - ee_start ext))) (\<lambda>off.
           Inr \<lparr>os_start = start, os_end = stop, os_record = oe_record (ee_value ext), os_offset = off\<rparr>)) extents))"

definition all_slices :: "overlay_extent_map \<Rightarrow> overlay_read_slice list" where
  "all_slices m = map (\<lambda>ext. \<lparr>os_start = ee_start ext, os_end = ee_end ext,
    os_record = oe_record (ee_value ext), os_offset = oe_offset (ee_value ext)\<rparr>) (em_iter m)"

definition visible_through :: "overlay_extent_map \<Rightarrow> wal_seq \<Rightarrow> retired_overlay_extent list" where
  "visible_through m seq =
    sort_key (\<lambda>e. (re_seq e, re_start e))
      (List.map_filter (\<lambda>ext.
        if oe_seq (ee_value ext) \<le> seq
        then Some \<lparr>re_start = ee_start ext, re_end = ee_end ext, re_seq = oe_seq (ee_value ext),
               re_record = oe_record (ee_value ext), re_offset = oe_offset (ee_value ext)\<rparr>
        else None) (em_iter m))"

definition remove_retired ::
  "overlay_extent_map \<Rightarrow> retired_overlay_extent list \<Rightarrow> overlay_extent_map \<times> (server_error, unit) result" where
  "remove_retired m retired =
    loop_st (\<lambda>m e. then_st (remove_range_with_split split_at m (re_start e) (re_end e)) (\<lambda>m _. (m, Inr ())))
      m retired"

section \<open>The overlay, byte by byte\<close>

definition value_at :: "overlay_extent \<Rightarrow> nat \<Rightarrow> wal_seq \<times> wal_record \<times> nat" where
  "value_at v i = (oe_seq v, oe_record v, oe_offset v + i)"

abbreviation overlay_at :: "overlay_extent_map \<Rightarrow> nat \<Rightarrow> (wal_seq \<times> wal_record \<times> nat) option" where
  "overlay_at m \<equiv> em_at value_at m"

interpretation overlay: splitting split_at value_at
  by unfold_locales (simp add: value_at_def split_at_def add.assoc)

definition rec_ok :: "wal_record \<Rightarrow> bool" where
  "rec_ok r \<longleftrightarrow> wrec_data r \<noteq> [] \<and> length (wrec_data r) = br_len (wrec_range r) \<and>
    br_start (wrec_range r) + br_len (wrec_range r) \<le> u64_max"

definition covers :: "wal_record \<Rightarrow> nat \<Rightarrow> bool" where
  "covers r x \<longleftrightarrow> x \<in> range_bytes (wrec_range r)"

text \<open>
  The invariant: the map is a well-formed extent map, and every byte it holds points into
  the payload of a well-formed record at the byte's own position.
\<close>

definition overlay_inv :: "overlay_extent_map \<Rightarrow> bool" where
  "overlay_inv m \<longleftrightarrow> em_inv m \<and>
    (\<forall>x s r k. overlay_at m x = Some (s, r, k) \<longrightarrow>
      s = wrec_seq r \<and> rec_ok r \<and> covers r x \<and> x = br_start (wrec_range r) + k)"

lemma overlay_new_inv [simp]: "overlay_inv overlay_new"
  by (simp add: overlay_inv_def overlay_new_def em_new_def)

lemma range_end_rec: "rec_ok r \<Longrightarrow> range_end (wrec_range r) = br_start (wrec_range r) + br_len (wrec_range r)"
  by (simp add: rec_ok_def range_end_def saturating_add_def)

lemma insert_record_at:
  assumes "overlay_inv m" "rec_ok r"
  obtains m' where "insert_record m r = (m', Inr ())" "overlay_inv m'"
    "\<And>x. overlay_at m' x =
      (if covers r x then Some (wrec_seq r, r, x - br_start (wrec_range r)) else overlay_at m x)"
proof -
  let ?s = "br_start (wrec_range r)" and ?e = "range_end (wrec_range r)"
  have "0 < br_len (wrec_range r)" using assms(2) by (auto simp: rec_ok_def simp flip: length_greater_0_conv)
  then have se: "?s < ?e" using assms(2) by (simp add: range_end_rec)
  have c: "covers r x \<longleftrightarrow> ?s \<le> x \<and> x < ?e" for x
    using assms(2) by (auto simp: covers_def range_bytes_def range_end_rec)
  from assms(1) have "em_inv m" by (simp add: overlay_inv_def)
  from overlay.insert_overwrite_at [OF this se, of "\<lparr>oe_seq = wrec_seq r, oe_record = r, oe_offset = 0\<rparr>"]
  obtain m' removed where ins: "insert_overwrite_with_split split_at m ?s ?e
      \<lparr>oe_seq = wrec_seq r, oe_record = r, oe_offset = 0\<rparr> = (m', Inr removed)" "em_inv m'"
    and at': "\<And>x. overlay_at m' x = (if ?s \<le> x \<and> x < ?e
      then Some (value_at \<lparr>oe_seq = wrec_seq r, oe_record = r, oe_offset = 0\<rparr> (x - ?s)) else overlay_at m x)"
    by blast
  then have at: "overlay_at m' x = (if covers r x then Some (wrec_seq r, r, x - ?s) else overlay_at m x)" for x
    by (simp add: c value_at_def)
  have "overlay_inv m'"
    using assms ins(2) by (auto simp: overlay_inv_def at c split: if_splits)
  with ins at show thesis by (intro that [of m']) (auto simp: insert_record_def Let_def)
qed

definition slice_of :: "nat \<times> overlay_extent extent \<Rightarrow> overlay_read_slice" where
  "slice_of p = \<lparr>os_start = fst p, os_end = ext_end (snd p), os_record = oe_record (ext_value (snd p)),
    os_offset = oe_offset (ext_value (snd p))\<rparr>"

lemma overlay_inv_mem:
  assumes "overlay_inv m" "p \<in> set m"
  shows "rec_ok (oe_record (ext_value (snd p)))" "oe_seq (ext_value (snd p)) = wrec_seq (oe_record (ext_value (snd p)))"
    "fst p = br_start (wrec_range (oe_record (ext_value (snd p)))) + oe_offset (ext_value (snd p))"
    "oe_offset (ext_value (snd p)) + (ext_end (snd p) - fst p) \<le> length (wrec_data (oe_record (ext_value (snd p))))"
proof -
  let ?o = "ext_value (snd p)"
  have inv: "em_inv m" using assms(1) by (simp add: overlay_inv_def)
  have lt: "fst p < ext_end (snd p)" using em_inv_mem [OF inv assms(2)] .
  have "overlay_at m x = Some (value_at ?o (x - fst p))" if "fst p \<le> x" "x < ext_end (snd p)" for x
    using em_at_mem [OF inv assms(2) that] .
  from this [of "fst p"] this [of "ext_end (snd p) - 1"] lt
  have *: "overlay_at m (fst p) = Some (oe_seq ?o, oe_record ?o, oe_offset ?o)"
    "overlay_at m (ext_end (snd p) - 1) = Some (oe_seq ?o, oe_record ?o, oe_offset ?o + (ext_end (snd p) - 1 - fst p))"
    by (simp_all add: value_at_def)
  from assms(1) *(1) show "rec_ok (oe_record ?o)" "oe_seq ?o = wrec_seq (oe_record ?o)"
    "fst p = br_start (wrec_range (oe_record ?o)) + oe_offset ?o"
    unfolding overlay_inv_def by blast+
  from assms(1) *(2) have "covers (oe_record ?o) (ext_end (snd p) - 1)"
    "ext_end (snd p) - 1 = br_start (wrec_range (oe_record ?o)) + (oe_offset ?o + (ext_end (snd p) - 1 - fst p))"
    unfolding overlay_inv_def by blast+
  with lt \<open>rec_ok (oe_record ?o)\<close>
  show "oe_offset ?o + (ext_end (snd p) - fst p) \<le> length (wrec_data (oe_record ?o))"
    by (auto simp: covers_def range_bytes_def rec_ok_def)
qed

lemma read_slices_clip:
  assumes "overlay_inv m" "br_start rng \<le> range_end rng"
  shows "read_slices m rng = Inr (map slice_of (clip split_at (br_start rng) (range_end rng) m))"
proof -
  let ?s = "br_start rng" and ?e = "range_end rng"
  let ?f = "\<lambda>ext. let start = max ?s (ee_start ext); stop = min ?e (ee_end ext) in
       and_then (ok_or (Wal ''read overlay extent'')
           (checked_add (oe_offset (ee_value ext)) (start - ee_start ext))) (\<lambda>off.
         Inr \<lparr>os_start = start, os_end = stop, os_record = oe_record (ee_value ext), os_offset = off\<rparr>)"
  let ?g = "\<lambda>ext. \<lparr>os_start = max ?s (ee_start ext), os_end = min ?e (ee_end ext),
      os_record = oe_record (ee_value ext), os_offset = oe_offset (ee_value ext) + (max ?s (ee_start ext) - ee_start ext)\<rparr>"
  let ?M = "filter (\<lambda>p. fst p < ?e \<and> ?s < ext_end (snd p) \<and> ?s < ?e) m"
  have "?f (extent_ref p) = Inr (?g (extent_ref p))" if "p \<in> set ?M" for p
  proof -
    have p: "p \<in> set m" "?s < ext_end (snd p)" using that by auto
    have "oe_offset (ext_value (snd p)) + (max ?s (fst p) - fst p) \<le> u64_max"
      using overlay_inv_mem [OF assms(1) p(1)] p(2) by (auto simp: rec_ok_def)
    then show ?thesis by (simp add: Let_def checked_add_def)
  qed
  then have "try_map ?f (map extent_ref ?M) = Inr (map ?g (map extent_ref ?M))"
    by (intro try_map_map) auto
  moreover have "map ?g (map extent_ref ?M) = map slice_of (clip split_at ?s ?e m)"
    by (simp add: clip_def slice_of_def split_at_def)
  ultimately show ?thesis
    using overlapping_filter [OF _ assms(2), of m] assms(1)
    by (simp add: read_slices_def overlay_inv_def Let_def)
qed

lemma all_slices_eq: "all_slices m = map slice_of m"
  by (simp add: all_slices_def em_iter_def slice_of_def)

text \<open>Retiring extents removes the bytes they hold and nothing else.\<close>

lemma remove_retired_at:
  assumes "overlay_inv m" "\<And>e. e \<in> set retired \<Longrightarrow> re_start e \<le> re_end e"
  obtains m' where "remove_retired m retired = (m', Inr ())" "overlay_inv m'"
    "\<And>x. overlay_at m' x =
      (if \<exists>e \<in> set retired. re_start e \<le> x \<and> x < re_end e then None else overlay_at m x)"
proof -
  let ?P = "\<lambda>done m'. overlay_inv m' \<and> (\<forall>x. overlay_at m' x =
      (if \<exists>e \<in> set done. re_start e \<le> x \<and> x < re_end e then None else overlay_at m x))"
  have "\<exists>m'. remove_retired m retired = (m', Inr ()) \<and> ?P retired m'"
    unfolding remove_retired_def
  proof (rule loop_st_ok)
    fix ys y zs n assume r: "retired = ys @ y # zs" and P: "?P ys n"
    have "em_inv n" "re_start y \<le> re_end y" using P assms(2) r by (auto simp: overlay_inv_def)
    from overlay.remove_range_at [OF this] obtain n' removed
      where n': "remove_range_with_split split_at n (re_start y) (re_end y) = (n', Inr removed)" "em_inv n'"
        "\<And>x. overlay_at n' x = (if re_start y \<le> x \<and> x < re_end y then None else overlay_at n x)" by blast
    then have "?P (ys @ [y]) n'" using P by (auto simp: overlay_inv_def split: if_splits)
    then show "\<exists>n'. then_st (remove_range_with_split split_at n (re_start y) (re_end y)) (\<lambda>m _. (m, Inr ())) = (n', Inr ())
        \<and> ?P (ys @ [y]) n'"
      using n'(1) by simp
  qed (use assms in simp)
  then show thesis using that by blast
qed

definition retired_of :: "nat \<times> overlay_extent extent \<Rightarrow> retired_overlay_extent" where
  "retired_of p = \<lparr>re_start = fst p, re_end = ext_end (snd p), re_seq = oe_seq (ext_value (snd p)),
    re_record = oe_record (ext_value (snd p)), re_offset = oe_offset (ext_value (snd p))\<rparr>"

lemma visible_through_eq:
  "visible_through m seq = sort_key (\<lambda>e. (re_seq e, re_start e))
    (map retired_of (filter (\<lambda>p. oe_seq (ext_value (snd p)) \<le> seq) m))"
proof -
  have "List.map_filter (\<lambda>ext.
        if oe_seq (ee_value ext) \<le> seq
        then Some \<lparr>re_start = ee_start ext, re_end = ee_end ext, re_seq = oe_seq (ee_value ext),
               re_record = oe_record (ee_value ext), re_offset = oe_offset (ee_value ext)\<rparr>
        else None) (em_iter m) = map retired_of (filter (\<lambda>p. oe_seq (ext_value (snd p)) \<le> seq) m)"
    by (induction m) (simp_all add: em_iter_def List.map_filter_simps retired_of_def)
  then show ?thesis by (simp add: visible_through_def)
qed

lemma visible_through_mem:
  "e \<in> set (visible_through m seq) \<longleftrightarrow> (\<exists>p \<in> set m. oe_seq (ext_value (snd p)) \<le> seq \<and> e = retired_of p)"
  by (auto simp: visible_through_eq simp del: split_paired_Ex split_paired_All)

lemma visible_through_at:
  assumes "overlay_inv m"
  shows "(\<exists>e \<in> set (visible_through m seq). re_start e \<le> x \<and> x < re_end e) \<longleftrightarrow>
    (\<exists>s r k. overlay_at m x = Some (s, r, k) \<and> s \<le> seq)"
proof -
  have "em_inv m" using assms by (simp add: overlay_inv_def)
  then have "(\<exists>p \<in> set m. oe_seq (ext_value (snd p)) \<le> seq \<and> fst p \<le> x \<and> x < ext_end (snd p)) \<longleftrightarrow>
      (\<exists>s r k. overlay_at m x = Some (s, r, k) \<and> s \<le> seq)"
  proof (induction m)
    case (Cons p m)
    then show ?case by (auto simp: value_at_def)
  qed simp
  then show ?thesis
    unfolding Bex_def visible_through_mem retired_of_def by (auto simp del: split_paired_Ex split_paired_All)
qed

section \<open>Properties\<close>

text \<open>What a list of slices says about a byte, and the latest record covering it.\<close>

definition slice_byte :: "overlay_read_slice list \<Rightarrow> nat \<Rightarrow> u8 option" where
  "slice_byte sl x = map_option (\<lambda>s. wrec_data (os_record s) ! (os_offset s + (x - os_start s)))
    (find (\<lambda>s. os_start s \<le> x \<and> x < os_end s) sl)"

fun latest :: "wal_record list \<Rightarrow> nat \<Rightarrow> wal_record option" where
  "latest [] x = None"
| "latest (r # rs) x =
    (case latest rs x of Some q \<Rightarrow> Some q | None \<Rightarrow> if covers r x then Some r else None)"

definition record_byte :: "wal_record \<Rightarrow> nat \<Rightarrow> u8" where
  "record_byte r x = wrec_data r ! (x - br_start (wrec_range r))"

lemma slice_byte_slices:
  "slice_byte (map slice_of m) x = map_option (\<lambda>(s, r, k). wrec_data r ! k) (overlay_at m x)"
  by (induction m) (auto simp: slice_byte_def slice_of_def value_at_def)

lemma latest_snoc: "latest (rs @ [r]) x = (if covers r x then Some r else latest rs x)"
  by (induction rs) auto

lemma insert_records_at:
  assumes "\<And>r. r \<in> set rs \<Longrightarrow> rec_ok r"
  obtains m where "loop_st insert_record overlay_new rs = (m, Inr ())" "overlay_inv m"
    "\<And>x. overlay_at m x = map_option (\<lambda>r. (wrec_seq r, r, x - br_start (wrec_range r))) (latest rs x)"
proof -
  let ?P = "\<lambda>done m. overlay_inv m \<and>
    (\<forall>x. overlay_at m x = map_option (\<lambda>r. (wrec_seq r, r, x - br_start (wrec_range r))) (latest done x))"
  have "\<exists>m. loop_st insert_record overlay_new rs = (m, Inr ()) \<and> ?P rs m"
  proof (rule loop_st_ok)
    show "?P [] overlay_new" by simp (simp add: overlay_new_def em_new_def)
    fix ys y zs n assume "rs = ys @ y # zs" and P: "?P ys n"
    then have "rec_ok y" "overlay_inv n" using assms by auto
    then obtain n' where "insert_record n y = (n', Inr ())" "overlay_inv n'"
      "\<And>x. overlay_at n' x =
        (if covers y x then Some (wrec_seq y, y, x - br_start (wrec_range y)) else overlay_at n x)"
      using insert_record_at by blast
    then show "\<exists>n'. insert_record n y = (n', Inr ()) \<and> ?P (ys @ [y]) n'"
      using P by (auto simp: latest_snoc)
  qed
  then show thesis using that by blast
qed

text \<open>
  C24. The overlay serves the latest write: after inserting records in log order into an
  empty overlay, the slices a read returns hold, for every byte of the range, the byte of
  the last record that covers it, and no byte outside the range or covered by no record.
\<close>

theorem overlay_reads_latest:
  assumes "\<And>r. r \<in> set rs \<Longrightarrow> rec_ok r" "checked_end rng \<noteq> None"
  shows "\<exists>m sl. loop_st insert_record overlay_new rs = (m, Inr ()) \<and> read_slices m rng = Inr sl \<and>
    (\<forall>x. slice_byte sl x =
      (if x \<in> range_bytes rng then map_option (\<lambda>r. record_byte r x) (latest rs x) else None))"
proof -
  obtain m where m: "loop_st insert_record overlay_new rs = (m, Inr ())" "overlay_inv m"
    "\<And>x. overlay_at m x = map_option (\<lambda>r. (wrec_seq r, r, x - br_start (wrec_range r))) (latest rs x)"
    using insert_records_at assms(1) by blast
  have e: "range_end rng = br_start rng + br_len rng"
    using assms(2) by (auto simp: checked_arith range_end_def saturating_add_def)
  then have "read_slices m rng = Inr (map slice_of (clip split_at (br_start rng) (range_end rng) m))"
    using read_slices_clip [OF m(2)] by simp
  moreover have "slice_byte (map slice_of (clip split_at (br_start rng) (range_end rng) m)) x =
      (if x \<in> range_bytes rng then map_option (\<lambda>r. record_byte r x) (latest rs x) else None)" for x
    by (simp add: slice_byte_slices overlay.em_at_clip m(3) e range_bytes_def record_byte_def option.map_comp comp_def)
  ultimately show ?thesis using m(1) by blast
qed

definition overlay_sample :: "wal_record list" where
  "overlay_sample = [\<lparr>wrec_seq = 1, wrec_range = new_range 0 3, wrec_data = [1, 2, 3]\<rparr>,
    \<lparr>wrec_seq = 2, wrec_range = new_range 1 1, wrec_data = [9]\<rparr>]"

lemma overlay_sample_ok: "r \<in> set overlay_sample \<Longrightarrow> rec_ok r"
  by (auto simp: overlay_sample_def rec_ok_def u64_max_def)

theorem overlay_reads_latest_witness:
  "\<exists>m sl. loop_st insert_record overlay_new overlay_sample = (m, Inr ()) \<and>
    read_slices m (new_range 0 4) = Inr sl \<and>
    map (slice_byte sl) [0, 1, 2, 3, 4] = [Some 1, Some 9, Some 3, None, None]"
proof -
  have "checked_end (new_range 0 4) \<noteq> None" by (simp add: checked_end_def checked_add_def u64_max_def)
  from overlay_reads_latest [OF overlay_sample_ok this] obtain m sl
    where *: "loop_st insert_record overlay_new overlay_sample = (m, Inr ())" "read_slices m (new_range 0 4) = Inr sl"
      "\<And>x. slice_byte sl x = (if x \<in> range_bytes (new_range 0 4)
        then map_option (\<lambda>r. record_byte r x) (latest overlay_sample x) else None)" by blast
  then have "map (slice_byte sl) [0, 1, 2, 3, 4] = [Some 1, Some 9, Some 3, None, None]"
    by (simp add: range_bytes_def overlay_sample_def covers_def record_byte_def)
  with *(1,2) show ?thesis by (intro exI conjI)
qed

text \<open>
  C25. Retiring is exact: removing the extents visible through a sequence number succeeds,
  keeps the overlay well formed, removes every byte written at or before that sequence
  number and leaves every byte of a newer record.
\<close>

theorem retire_keeps_newer:
  assumes "overlay_inv m"
  shows "\<exists>m'. remove_retired m (visible_through m seq) = (m', Inr ()) \<and> overlay_inv m' \<and>
    (\<forall>x. overlay_at m' x = (case overlay_at m x of
        None \<Rightarrow> None
      | Some (s, r, k) \<Rightarrow> if s \<le> seq then None else Some (s, r, k)))"
proof -
  have "re_start e \<le> re_end e" if "e \<in> set (visible_through m seq)" for e
  proof -
    obtain p where "p \<in> set m" "e = retired_of p" using \<open>e \<in> set (visible_through m seq)\<close> unfolding visible_through_mem by blast
    then show ?thesis
      using assms em_inv_mem [of m p] by (simp add: retired_of_def overlay_inv_def)
  qed
  from remove_retired_at [OF assms this] obtain m' where
    m': "remove_retired m (visible_through m seq) = (m', Inr ())" "overlay_inv m'"
    "\<And>x. overlay_at m' x = (if \<exists>e \<in> set (visible_through m seq). re_start e \<le> x \<and> x < re_end e
      then None else overlay_at m x)" by blast
  then show ?thesis by (auto simp: visible_through_at [OF assms] split: option.splits)
qed

theorem retire_keeps_newer_witness:
  "\<exists>m m'. loop_st insert_record overlay_new overlay_sample = (m, Inr ()) \<and>
    remove_retired m (visible_through m 1) = (m', Inr ()) \<and>
    map (\<lambda>x. overlay_at m' x = None) [0, 1, 2] = [True, False, True]"
proof -
  obtain m where m: "loop_st insert_record overlay_new overlay_sample = (m, Inr ())" "overlay_inv m"
    "\<And>x. overlay_at m x = map_option (\<lambda>r. (wrec_seq r, r, x - br_start (wrec_range r))) (latest overlay_sample x)"
    using insert_records_at [OF overlay_sample_ok] by blast
  obtain m' where m': "remove_retired m (visible_through m 1) = (m', Inr ())"
    "\<And>x. overlay_at m' x = (case overlay_at m x of
        None \<Rightarrow> None | Some (s, r, k) \<Rightarrow> if s \<le> 1 then None else Some (s, r, k))"
    using retire_keeps_newer [OF m(2), of 1] by blast
  have "map (\<lambda>x. overlay_at m' x = None) [0, 1, 2] = [True, False, True]"
    by (simp add: m'(2) m(3) overlay_sample_def covers_def range_bytes_def)
  with m(1) m'(1) show ?thesis by (intro exI conjI)
qed

end
