(* ===== verification/Read_Cache.thy ===== *)
theory Read_Cache
  imports Overlay
begin

text \<open>
  The read cache of the WAL-durable engine, from \<open>nbd-server/src/engines/wal_durable/
  read_cache.rs\<close>: extents that point into reference-counted objects, merged per cache
  block of 2 MiB, with least-recently-used eviction to a byte budget. Object ids are natural
  numbers; the counter of the source is 64 bits wide. The lemmas give the cache byte by byte:
  a read returns what is cached, an insertion only adds the inserted bytes and may forget
  others, trimming forgets exactly the range, and the budget holds after every insertion.
\<close>

section \<open>Data\<close>

definition CACHE_BLOCK_BYTES :: nat where "CACHE_BLOCK_BYTES = 2 * 1024 * 1024"

datatype cache_insert_placement = Hot | Cold

datatype cache_payload = PayloadBytes bytes | PayloadWal wal_record

record cache_extent =
  cx_object_id :: nat
  cx_object_offset :: nat

record cache_object =
  co_logical_start :: nat
  co_len :: nat
  co_payload :: cache_payload
  co_extent_starts :: "nat list"
  co_charged_bytes :: nat

record read_cache =
  rc_extents :: "cache_extent extent_map"
  rc_objects :: "(nat \<times> cache_object) list"
  rc_lru :: "nat list"
  rc_max_bytes :: nat
  rc_charged_bytes :: nat
  rc_next_object_id :: nat

record cache_read_slice =
  cs_start :: nat
  cs_end :: nat
  cs_object_id :: nat
  cs_object_offset :: nat
  cs_payload :: cache_payload

record existing_source =
  es_start :: nat
  es_end :: nat
  es_object_id :: nat
  es_object_offset :: nat
  es_payload :: cache_payload

definition cache_error :: server_error where "cache_error = Wal ''read cache''"

section \<open>Payloads and slices\<close>

fun payload_data :: "cache_payload \<Rightarrow> bytes" where
  "payload_data (PayloadBytes bs) = bs"
| "payload_data (PayloadWal r) = wrec_data r"

definition payload_charged_bytes :: "cache_payload \<Rightarrow> nat" where
  "payload_charged_bytes p = length (payload_data p)"

text \<open>Copying from a payload into a buffer from a given position on.\<close>

definition payload_copy_to :: "cache_payload \<Rightarrow> nat \<Rightarrow> nat \<Rightarrow> bytes \<Rightarrow> nat \<Rightarrow> bytes" where
  "payload_copy_to p off len dst dst_start = copy_at dst dst_start (slice (payload_data p) off len)"

definition cache_split_at :: "cache_extent \<Rightarrow> nat \<Rightarrow> cache_extent" where
  "cache_split_at v delta = v\<lparr>cx_object_offset := cx_object_offset v + delta\<rparr>"

definition slice_copy_to :: "cache_read_slice \<Rightarrow> byte_range \<Rightarrow> bytes \<Rightarrow> (server_error, bytes) result" where
  "slice_copy_to s read_range data =
    (let start = max (br_start read_range) (cs_start s); stop = min (range_end read_range) (cs_end s) in
     if start \<ge> stop then Inr data
     else and_then (ok_or cache_error (checked_add (cs_object_offset s) (start - cs_start s))) (\<lambda>src_start.
       Inr (payload_copy_to (cs_payload s) src_start (stop - start) data (start - br_start read_range))))"

section \<open>The LRU order\<close>

definition lru_remove :: "nat \<Rightarrow> nat list \<Rightarrow> nat list" where
  "lru_remove i order = remove1 i order"

definition lru_insert_at :: "nat \<Rightarrow> nat \<Rightarrow> nat list \<Rightarrow> nat list" where
  "lru_insert_at position i order = (let position = min position (length order) in take position order @ i # drop position order)"

definition lru_promote :: "nat \<Rightarrow> nat list \<Rightarrow> nat list" where
  "lru_promote i order = (if i \<in> set order then i # lru_remove i order else order)"

definition lru_tail :: "nat list \<Rightarrow> nat option" where
  "lru_tail order = (if order = [] then None else Some (last order))"

fun lru_position :: "nat \<Rightarrow> nat list \<Rightarrow> nat option" where
  "lru_position i [] = None"
| "lru_position i (j # js) = (if i = j then Some 0 else map_option Suc (lru_position i js))"

definition coldest_position :: "nat list \<Rightarrow> nat list \<Rightarrow> nat option" where
  "coldest_position ids order =
    (case List.map_filter (\<lambda>i. lru_position i order) ids of [] \<Rightarrow> None | p # ps \<Rightarrow> Some (foldl max p ps))"

section \<open>Cache blocks and coverage\<close>

definition cache_block_start :: "nat \<Rightarrow> nat" where
  "cache_block_start off = (off div CACHE_BLOCK_BYTES) * CACHE_BLOCK_BYTES"

definition cache_block_end :: "nat \<Rightarrow> (server_error, nat) result" where
  "cache_block_end off = ok_or cache_error (checked_add (cache_block_start off) CACHE_BLOCK_BYTES)"

fun coverage_loop :: "nat \<Rightarrow> (nat \<times> nat) list \<Rightarrow> (server_error, nat) result" where
  "coverage_loop covered [] = Inr covered"
| "coverage_loop covered ((s, e) # spans) =
    (if e \<le> covered then coverage_loop covered spans
     else if s > covered then Inl cache_error
     else coverage_loop (max covered e) spans)"

definition validate_coverage :: "nat \<Rightarrow> nat \<Rightarrow> (nat \<times> nat) list \<Rightarrow> (server_error, unit) result" where
  "validate_coverage start stop spans =
    and_then (coverage_loop start (sort_key fst spans)) (\<lambda>covered.
      if covered \<noteq> stop then Inl cache_error else Inr ())"

text \<open>
  One pass over the sources, selecting those that touch the component and extending it, and
  the loop that repeats passes until one selects nothing.
\<close>

fun connect_pass :: "existing_source list \<Rightarrow> bool list \<Rightarrow> nat \<Rightarrow> nat \<Rightarrow> bool list \<times> nat \<times> nat \<times> bool" where
  "connect_pass (s # ss) (sel # sels) cs ce =
    (if sel then
       (let (sels', cs', ce', changed) = connect_pass ss sels cs ce in (True # sels', cs', ce', changed))
     else if es_start s \<le> ce \<and> es_end s \<ge> cs then
       (let (sels', cs', ce', changed) = connect_pass ss sels (min cs (es_start s)) (max ce (es_end s))
        in (True # sels', cs', ce', True))
     else
       (let (sels', cs', ce', changed) = connect_pass ss sels cs ce in (False # sels', cs', ce', changed)))"
| "connect_pass _ _ cs ce = ([], cs, ce, False)"

lemma connect_pass_count:
  "connect_pass ss sels cs ce = (sels', cs', ce', changed) \<Longrightarrow> length ss = length sels \<Longrightarrow>
    length sels' = length sels \<and> length (filter Not sels') \<le> length (filter Not sels) \<and>
    (changed \<longrightarrow> length (filter Not sels') < length (filter Not sels))"
proof (induction ss sels cs ce arbitrary: sels' cs' ce' changed rule: connect_pass.induct)
  case (1 s ss sel sels cs ce)
  then show ?case by (auto split: if_splits prod.splits)
qed auto

function connect_loop :: "existing_source list \<Rightarrow> bool list \<Rightarrow> nat \<Rightarrow> nat \<Rightarrow> bool list" where
  "connect_loop ss sels cs ce =
    (case connect_pass ss sels cs ce of
       (sels', cs', ce', changed) \<Rightarrow>
         if changed \<and> length ss = length sels then connect_loop ss sels' cs' ce' else sels')"
  by pat_completeness auto
termination
  by (relation "measure (\<lambda>(ss, sels, cs, ce). length (filter Not sels))") (auto dest!: connect_pass_count [OF sym])

declare connect_loop.simps [simp del]

definition connected_sources :: "nat \<Rightarrow> nat \<Rightarrow> existing_source list \<Rightarrow> existing_source list" where
  "connected_sources start stop sources =
    map fst (filter snd (zip sources (connect_loop sources (replicate (length sources) False) start stop)))"

definition copy_source :: "nat \<Rightarrow> existing_source \<Rightarrow> bytes \<Rightarrow> bytes" where
  "copy_source component_start s merged =
    payload_copy_to (es_payload s) (es_object_offset s) (es_end s - es_start s) merged (es_start s - component_start)"

definition copy_bytes_source :: "nat \<Rightarrow> nat \<Rightarrow> nat \<Rightarrow> nat \<Rightarrow> bytes \<Rightarrow> bytes \<Rightarrow> bytes" where
  "copy_bytes_source component_start source_start source_end source_offset bs merged =
    copy_at merged (source_start - component_start) (slice bs source_offset (source_end - source_start))"

definition copy_wal_source :: "nat \<Rightarrow> nat \<Rightarrow> nat \<Rightarrow> nat \<Rightarrow> wal_record \<Rightarrow> bytes \<Rightarrow> bytes" where
  "copy_wal_source component_start source_start source_end record_offset r merged =
    copy_at merged (source_start - component_start) (slice (wrec_data r) record_offset (source_end - source_start))"

definition materialize_merged_bytes ::
  "nat \<Rightarrow> nat \<Rightarrow> nat \<Rightarrow> nat \<Rightarrow> bytes \<Rightarrow> existing_source list \<Rightarrow> (server_error, bytes) result" where
  "materialize_merged_bytes component_start component_end new_start new_end new_bytes existing =
    (let merged = foldl (\<lambda>m s. copy_source component_start s m) (replicate (component_end - component_start) 0) existing;
         merged = copy_bytes_source component_start new_start new_end 0 new_bytes merged
     in and_then (validate_coverage component_start component_end
          (map (\<lambda>s. (es_start s, es_end s)) existing @ [(new_start, new_end)])) (\<lambda>_. Inr merged))"

definition materialize_merged_wal_bytes ::
  "nat \<Rightarrow> nat \<Rightarrow> nat \<Rightarrow> nat \<Rightarrow> nat \<Rightarrow> wal_record \<Rightarrow> existing_source list \<Rightarrow> (server_error, bytes) result" where
  "materialize_merged_wal_bytes component_start component_end new_start new_end record_offset r existing =
    (let merged = foldl (\<lambda>m s. copy_source component_start s m) (replicate (component_end - component_start) 0) existing;
         merged = copy_wal_source component_start new_start new_end record_offset r merged
     in and_then (validate_coverage component_start component_end
          (map (\<lambda>s. (es_start s, es_end s)) existing @ [(new_start, new_end)])) (\<lambda>_. Inr merged))"

section \<open>Objects\<close>

definition cache_new :: "nat \<Rightarrow> read_cache" where
  "cache_new max_bytes = \<lparr>rc_extents = em_new, rc_objects = [], rc_lru = [], rc_max_bytes = max_bytes,
    rc_charged_bytes = 0, rc_next_object_id = 1\<rparr>"

definition with_extents :: "read_cache \<Rightarrow> cache_extent extent_map \<times> ('e, 'a) result \<Rightarrow> read_cache \<times> ('e, 'a) result" where
  "with_extents c mr = (c\<lparr>rc_extents := fst mr\<rparr>, snd mr)"

definition upd_object :: "nat \<Rightarrow> (cache_object \<Rightarrow> cache_object) \<Rightarrow> (nat \<times> cache_object) list \<Rightarrow> (nat \<times> cache_object) list" where
  "upd_object i f objs = map (\<lambda>(j, ob). (j, if j = i then f ob else ob)) objs"

definition remove_object :: "read_cache \<Rightarrow> nat \<Rightarrow> read_cache" where
  "remove_object c i =
    (let c = (case bt_get (rc_objects c) i of
         None \<Rightarrow> c
       | Some ob \<Rightarrow> c\<lparr>rc_objects := bt_remove i (rc_objects c), rc_charged_bytes := rc_charged_bytes c - co_charged_bytes ob\<rparr>)
     in c\<lparr>rc_lru := lru_remove i (rc_lru c)\<rparr>)"

definition insert_object ::
  "read_cache \<Rightarrow> nat \<Rightarrow> nat \<Rightarrow> cache_payload \<Rightarrow> cache_insert_placement \<Rightarrow> read_cache \<times> nat" where
  "insert_object c start stop payload placement =
    (let i = rc_next_object_id c; charged = payload_charged_bytes payload in
     (c\<lparr>rc_next_object_id := rc_next_object_id c + 1, rc_charged_bytes := rc_charged_bytes c + charged,
        rc_objects := bt_insert i \<lparr>co_logical_start = start, co_len = stop - start, co_payload = payload,
          co_extent_starts = [], co_charged_bytes = charged\<rparr> (rc_objects c),
        rc_lru := (case placement of Hot \<Rightarrow> i # rc_lru c | Cold \<Rightarrow> rc_lru c @ [i])\<rparr>, i))"

definition rebuild_backrefs_and_gc_with_inherited_lru ::
  "read_cache \<Rightarrow> nat \<Rightarrow> nat option \<Rightarrow> cache_insert_placement \<Rightarrow> read_cache" where
  "rebuild_backrefs_and_gc_with_inherited_lru c inherited_id inherited_position placement =
    (let cleared = map (\<lambda>(i, ob). (i, ob\<lparr>co_extent_starts := []\<rparr>)) (rc_objects c);
         filled = foldl (\<lambda>objs e. upd_object (cx_object_id (ee_value e))
             (\<lambda>ob. ob\<lparr>co_extent_starts := insort_insert (ee_start e) (co_extent_starts ob)\<rparr>) objs)
           cleared (em_iter (rc_extents c));
         empty_objects = map fst (filter (\<lambda>(i, ob). co_extent_starts ob = []) filled);
         c = foldl remove_object (c\<lparr>rc_objects := filled\<rparr>) empty_objects
     in if bt_get (rc_objects c) inherited_id \<noteq> None then
          let order = lru_remove inherited_id (rc_lru c) in
          c\<lparr>rc_lru := (case inherited_position of
              Some position \<Rightarrow> lru_insert_at position inherited_id order
            | None \<Rightarrow> (case placement of Hot \<Rightarrow> inherited_id # order | Cold \<Rightarrow> order @ [inherited_id]))\<rparr>
        else c)"

definition rebuild_backrefs_and_gc :: "read_cache \<Rightarrow> read_cache" where
  "rebuild_backrefs_and_gc c = rebuild_backrefs_and_gc_with_inherited_lru c 0 None Hot"

definition evict_object :: "read_cache \<Rightarrow> nat \<Rightarrow> read_cache \<times> (server_error, unit) result" where
  "evict_object c i =
    (case bt_get (rc_objects c) i of
       None \<Rightarrow> (c\<lparr>rc_lru := lru_remove i (rc_lru c)\<rparr>, Inr ())
     | Some ob \<Rightarrow>
         then_st (loop_st (\<lambda>c start.
             case em_get (rc_extents c) start of
               None \<Rightarrow> (c, Inr ())
             | Some e \<Rightarrow> then_st (with_extents c (remove_range_with_split cache_split_at (rc_extents c) (ee_start e) (ee_end e)))
                 (\<lambda>c _. (c, Inr ()))) c (co_extent_starts ob)) (\<lambda>c _.
           (remove_object c i, Inr ())))"

lemma remove_object_lru [simp]: "rc_lru (remove_object c i) = lru_remove i (rc_lru c)"
  by (simp add: remove_object_def Let_def split: option.splits)

lemma loop_st_keeps:
  assumes "\<And>s x. f (fst (g s x)) = f s"
  shows "f (fst (loop_st g s xs)) = f s"
proof (induction xs arbitrary: s)
  case (Cons x xs)
  obtain s' r where gs: "g s x = (s', r)" by (cases "g s x")
  then have "f s' = f s" using assms [of s x] by simp
  then show ?case using gs Cons [of s'] by (cases r) auto
qed simp

lemma evict_loop_lru:
  "rc_lru (fst (loop_st (\<lambda>c start.
     case em_get (rc_extents c) start of
       None \<Rightarrow> (c, Inr ())
     | Some e \<Rightarrow> then_st (with_extents c (remove_range_with_split cache_split_at (rc_extents c) (ee_start e) (ee_end e)))
         (\<lambda>c _. (c, Inr ()))) c xs)) = rc_lru c"
proof (rule loop_st_keeps)
  fix s x
  show "rc_lru (fst (case em_get (rc_extents s) x of None \<Rightarrow> (s, Inr ())
     | Some e \<Rightarrow> then_st (with_extents s (remove_range_with_split cache_split_at (rc_extents s) (ee_start e) (ee_end e)))
         (\<lambda>c _. (c, Inr ())))) = rc_lru s"
    by (cases "em_get (rc_extents s) x", simp,
        cases "snd (remove_range_with_split cache_split_at (rc_extents s) (ee_start (the (em_get (rc_extents s) x)))
          (ee_end (the (em_get (rc_extents s) x))))") (simp_all add: with_extents_def)
qed

lemma evict_object_lru:
  assumes "evict_object c i = (c', Inr u)"
  shows "rc_lru c' = lru_remove i (rc_lru c)"
proof (cases "bt_get (rc_objects c) i")
  case (Some ob)
  let ?loop = "loop_st (\<lambda>c start.
     case em_get (rc_extents c) start of
       None \<Rightarrow> (c, Inr ())
     | Some e \<Rightarrow> then_st (with_extents c (remove_range_with_split cache_split_at (rc_extents c) (ee_start e) (ee_end e)))
         (\<lambda>c _. (c, Inr ()))) c (co_extent_starts ob)"
  obtain c1 r where loop: "?loop = (c1, r)" by (cases ?loop)
  have "rc_lru c1 = rc_lru c" using evict_loop_lru [of c "co_extent_starts ob"] loop by simp
  then show ?thesis using assms Some loop by (cases r) (auto simp: evict_object_def)
qed (use assms in \<open>auto simp: evict_object_def\<close>)

text \<open>Eviction ends because every evicted object leaves the order.\<close>

function evict_to_budget :: "read_cache \<Rightarrow> read_cache \<times> (server_error, unit) result" where
  "evict_to_budget c =
    (if rc_charged_bytes c > rc_max_bytes c then
       (case lru_tail (rc_lru c) of
          None \<Rightarrow> (c, Inr ())
        | Some i \<Rightarrow> then_st (evict_object c i) (\<lambda>c _. evict_to_budget c))
     else (c, Inr ()))"
  by pat_completeness auto
termination
proof (relation "measure (\<lambda>c. length (rc_lru c))", simp)
  fix c i c' u
  assume "lru_tail (rc_lru c) = Some i" "evict_object c i = (c', Inr u)"
  then have "rc_lru c' = lru_remove i (rc_lru c)" "i \<in> set (rc_lru c)"
    by (auto simp: evict_object_lru lru_tail_def split: if_splits)
  then show "(c', c) \<in> measure (\<lambda>c. length (rc_lru c))"
    by (auto simp: lru_remove_def length_remove1 length_pos_if_in_set intro: diff_less)
qed

declare evict_to_budget.simps [simp del]

section \<open>Operations\<close>

definition cache_read_slices :: "read_cache \<Rightarrow> byte_range \<Rightarrow> (server_error, cache_read_slice list) result" where
  "cache_read_slices c rng =
    (let start = br_start rng; stop = range_end rng in
     and_then (overlapping (rc_extents c) start stop) (\<lambda>extents.
       try_map (\<lambda>ext.
         let slice_start = max start (ee_start ext); slice_end = min stop (ee_end ext) in
         and_then (ok_or cache_error (bt_get (rc_objects c) (cx_object_id (ee_value ext)))) (\<lambda>ob.
         and_then (ok_or cache_error (checked_add (cx_object_offset (ee_value ext)) (slice_start - ee_start ext))) (\<lambda>off.
           Inr \<lparr>cs_start = slice_start, cs_end = slice_end, cs_object_id = cx_object_id (ee_value ext),
                cs_object_offset = off, cs_payload = co_payload ob\<rparr>))) extents))"

definition existing_sources_for_window :: "read_cache \<Rightarrow> nat \<Rightarrow> (server_error, existing_source list) result" where
  "existing_sources_for_window c start =
    (let window_start = cache_block_start start in
     and_then (ok_or cache_error (checked_add window_start CACHE_BLOCK_BYTES)) (\<lambda>window_end.
     and_then (overlapping (rc_extents c) window_start window_end) (\<lambda>extents.
       try_map (\<lambda>ext.
         and_then (ok_or cache_error (bt_get (rc_objects c) (cx_object_id (ee_value ext)))) (\<lambda>ob.
           Inr \<lparr>es_start = ee_start ext, es_end = ee_end ext, es_object_id = cx_object_id (ee_value ext),
                es_object_offset = cx_object_offset (ee_value ext), es_payload = co_payload ob\<rparr>)) extents)))"

definition component_start :: "nat \<Rightarrow> existing_source list \<Rightarrow> nat" where
  "component_start start connected = foldl min start (map es_start connected)"

definition component_end :: "nat \<Rightarrow> existing_source list \<Rightarrow> nat" where
  "component_end stop connected = foldl max stop (map es_end connected)"

text \<open>The common end of both insertions: replace the component by one object.\<close>

definition replace_component ::
  "read_cache \<Rightarrow> nat \<Rightarrow> nat \<Rightarrow> cache_payload \<Rightarrow> nat option \<Rightarrow> cache_insert_placement
    \<Rightarrow> read_cache \<times> (server_error, unit) result" where
  "replace_component c cstart cend payload inherited placement =
    then_st (with_extents c (remove_range_with_split cache_split_at (rc_extents c) cstart cend)) (\<lambda>c _.
      let (c, i) = insert_object c cstart cend payload placement in
      then_st (with_extents c (insert_exact (rc_extents c) cstart cend \<lparr>cx_object_id = i, cx_object_offset = 0\<rparr>)) (\<lambda>c _.
        (rebuild_backrefs_and_gc_with_inherited_lru c i inherited placement, Inr ())))"

definition insert_window_bytes ::
  "read_cache \<Rightarrow> nat \<Rightarrow> nat \<Rightarrow> bytes \<Rightarrow> cache_insert_placement \<Rightarrow> read_cache \<times> (server_error, unit) result" where
  "insert_window_bytes c start stop bs placement =
    then_st (c, existing_sources_for_window c start) (\<lambda>c sources.
      let connected = connected_sources start stop sources;
          cstart = component_start start connected; cend = component_end stop connected;
          inherited = coldest_position (map es_object_id connected) (rc_lru c)
      in then_st (c, if connected = [] \<and> cstart = start \<and> cend = stop then Inr (PayloadBytes bs)
             else and_then (materialize_merged_bytes cstart cend start stop bs connected) (\<lambda>m. Inr (PayloadBytes m)))
           (\<lambda>c payload. replace_component c cstart cend payload inherited placement))"

definition insert_window_wal_record ::
  "read_cache \<Rightarrow> nat \<Rightarrow> nat \<Rightarrow> wal_record \<Rightarrow> nat \<Rightarrow> cache_insert_placement \<Rightarrow> read_cache \<times> (server_error, unit) result" where
  "insert_window_wal_record c start stop r record_offset placement =
    then_st (c, existing_sources_for_window c start) (\<lambda>c sources.
      let connected = connected_sources start stop sources;
          cstart = component_start start connected; cend = component_end stop connected;
          inherited = coldest_position (map es_object_id connected) (rc_lru c);
          keep_wal_record = connected = [] \<and> record_offset = 0 \<and> stop - start = length (wrec_data r) \<and>
            length (wrec_data r) \<le> CACHE_BLOCK_BYTES
      in then_st (c, if keep_wal_record then Inr (PayloadWal r)
             else and_then (materialize_merged_wal_bytes cstart cend start stop record_offset r connected)
               (\<lambda>m. Inr (PayloadBytes m)))
           (\<lambda>c payload. replace_component c cstart cend payload inherited placement))"

text \<open>
  The loop over the cache blocks of a range; \<open>insert_window\<close> inserts the part of one block. A
  block always ends after the position it is computed from, which bounds the recursion.
\<close>

function window_loop :: "(read_cache \<Rightarrow> nat \<Rightarrow> nat \<Rightarrow> read_cache \<times> (server_error, unit) result) \<Rightarrow> nat \<Rightarrow> nat
    \<Rightarrow> read_cache \<Rightarrow> read_cache \<times> (server_error, unit) result" where
  "window_loop insert_window start stop c =
    (if start < stop then
       then_st (c, cache_block_end start) (\<lambda>c window_end.
         let e = min stop window_end in
         then_st (insert_window c start e) (\<lambda>c _. window_loop insert_window e stop c))
     else (c, Inr ()))"
  by pat_completeness auto
termination
proof (relation "measure (\<lambda>(f, start, stop, c). stop - start)", simp)
  fix f :: "read_cache \<Rightarrow> nat \<Rightarrow> nat \<Rightarrow> read_cache \<times> (server_error, unit) result"
    and start stop :: nat and c c1 c2 :: read_cache and w u e
  assume "start < stop" "(c, cache_block_end start) = (c1, Inr w)" "e = min stop w"
  moreover from this have "start < w"
    using div_mult_mod_eq [of start CACHE_BLOCK_BYTES] mod_less_divisor [of CACHE_BLOCK_BYTES start]
    by (auto simp: cache_block_end_def cache_block_start_def checked_arith CACHE_BLOCK_BYTES_def)
  ultimately show "((f, e, stop, c2), (f, start, stop, c)) \<in> measure (\<lambda>(f, start, stop, c). stop - start)"
    by (auto simp: min_def intro: diff_less_mono2)
qed

declare window_loop.simps [simp del]

definition insert_bytes ::
  "read_cache \<Rightarrow> byte_range \<Rightarrow> bytes \<Rightarrow> cache_insert_placement \<Rightarrow> read_cache \<times> (server_error, unit) result" where
  "insert_bytes c rng bs placement =
    (if length bs \<noteq> br_len rng then (c, Inl (Wal ''insert read cache bytes''))
     else if range_is_empty rng then (c, Inr ())
     else
       then_st (window_loop (\<lambda>c start e. insert_window_bytes c start e (slice bs (start - br_start rng) (e - start)) placement)
           (br_start rng) (range_end rng) c) (\<lambda>c _.
         evict_to_budget c))"

definition insert_wal_record_slice ::
  "read_cache \<Rightarrow> byte_range \<Rightarrow> wal_record \<Rightarrow> nat \<Rightarrow> cache_insert_placement \<Rightarrow> read_cache \<times> (server_error, unit) result" where
  "insert_wal_record_slice c rng r record_offset placement =
    then_st (c, ok_or (Wal ''insert read cache WAL record'') (checked_add record_offset (br_len rng))) (\<lambda>c record_end.
      if record_end > length (wrec_data r) then (c, Inl (Wal ''insert read cache WAL record''))
      else if range_is_empty rng then (c, Inr ())
      else
        then_st (window_loop (\<lambda>c start e.
              then_st (c, ok_or (Wal ''insert read cache WAL record'') (checked_add record_offset (start - br_start rng)))
                (\<lambda>c off. insert_window_wal_record c start e r off placement))
            (br_start rng) (range_end rng) c) (\<lambda>c _.
          evict_to_budget c))"

definition trim_range :: "read_cache \<Rightarrow> byte_range \<Rightarrow> read_cache \<times> (server_error, unit) result" where
  "trim_range c rng =
    (if range_is_empty rng then (c, Inr ())
     else then_st (with_extents c (remove_range_with_split cache_split_at (rc_extents c) (br_start rng) (range_end rng)))
       (\<lambda>c _. (rebuild_backrefs_and_gc c, Inr ())))"

definition promote_hits :: "read_cache \<Rightarrow> nat list \<Rightarrow> read_cache" where
  "promote_hits c hits =
    foldl (\<lambda>c i. if bt_get (rc_objects c) i \<noteq> None then c\<lparr>rc_lru := lru_promote i (rc_lru c)\<rparr> else c) c hits"

section \<open>The cache, byte by byte\<close>

definition cached_at :: "cache_extent \<Rightarrow> nat \<Rightarrow> nat \<times> nat" where
  "cached_at v d = (cx_object_id v, cx_object_offset v + d)"

interpretation cached: splitting cache_split_at cached_at
  by unfold_locales (simp add: cached_at_def cache_split_at_def add.assoc)

definition cache_byte :: "read_cache \<Rightarrow> nat \<Rightarrow> u8 option" where
  "cache_byte c x =
    (case em_at cached_at (rc_extents c) x of
       None \<Rightarrow> None
     | Some (i, off) \<Rightarrow> map_option (\<lambda>ob. payload_data (co_payload ob) ! off) (bt_get (rc_objects c) i))"

text \<open>
  The invariant: every cached byte points into an object; the charge is the sum over the
  objects; the order lists the objects once each; every object knows its extents.
\<close>

definition refs_ok :: "read_cache \<Rightarrow> bool" where
  "refs_ok c \<longleftrightarrow> em_inv (rc_extents c) \<and> (\<forall>p \<in> set (rc_extents c). ext_end (snd p) \<le> u64_max) \<and>
    (\<forall>x i off. em_at cached_at (rc_extents c) x = Some (i, off) \<longrightarrow>
      (\<exists>ob. bt_get (rc_objects c) i = Some ob \<and> off < length (payload_data (co_payload ob))))"

definition objects_ok :: "read_cache \<Rightarrow> bool" where
  "objects_ok c \<longleftrightarrow> bt_sorted (rc_objects c) \<and> 0 < rc_next_object_id c \<and>
    (\<forall>p \<in> set (rc_objects c). 0 < fst p \<and> fst p < rc_next_object_id c \<and>
      co_charged_bytes (snd p) = length (payload_data (co_payload (snd p))) \<and>
      length (payload_data (co_payload (snd p))) \<le> u64_max) \<and>
    rc_charged_bytes c = sum_list (map (co_charged_bytes \<circ> snd) (rc_objects c)) \<and>
    distinct (rc_lru c) \<and> set (rc_lru c) = fst ` set (rc_objects c)"

definition starts_ok :: "read_cache \<Rightarrow> bool" where
  "starts_ok c \<longleftrightarrow> (\<forall>p \<in> set (rc_objects c). \<forall>q \<in> set (rc_extents c).
    cx_object_id (ext_value (snd q)) = fst p \<longrightarrow> fst q \<in> set (co_extent_starts (snd p)))"

definition cache_inv :: "read_cache \<Rightarrow> bool" where
  "cache_inv c \<longleftrightarrow> refs_ok c \<and> objects_ok c \<and> starts_ok c"

lemma cache_new_inv [simp]: "cache_inv (cache_new n)" "cache_byte (cache_new n) x = None"
  by (simp_all add: cache_inv_def refs_ok_def objects_ok_def starts_ok_def cache_new_def em_new_def
      bt_sorted_def cache_byte_def)

lemma bt_sorted_distinct: "bt_sorted m \<Longrightarrow> distinct (map fst m)"
  by (simp add: bt_sorted_def strict_sorted_iff)

lemma bt_get_mem: "bt_sorted m \<Longrightarrow> bt_get m k = Some v \<longleftrightarrow> (k, v) \<in> set m"
  by (simp add: bt_get_def bt_sorted_distinct)

lemma bt_remove_filter: "bt_sorted m \<Longrightarrow> bt_remove k m = filter (\<lambda>p. fst p \<noteq> k) m"
proof (induction m)
  case (Cons p m)
  then show ?case
    by (cases p) (auto simp: bt_sorted_Cons intro!: filter_True [symmetric])
qed simp

lemma bt_sorted_filter: "bt_sorted m \<Longrightarrow> bt_sorted (filter P m)"
  by (induction m) (auto simp: bt_sorted_Cons)

lemma bt_get_filter: "bt_sorted m \<Longrightarrow> bt_get (filter (\<lambda>p. P (fst p)) m) k = (if P k then bt_get m k else None)"
  by (induction m) (auto simp: bt_get_def bt_sorted_Cons)

lemma em_at_SomeE:
  assumes "em_at at m x = Some b"
  obtains p where "p \<in> set m" "fst p \<le> x" "x < ext_end (snd p)" "b = at (ext_value (snd p)) (x - fst p)"
  using assms by (induction m) (auto split: if_splits)

lemma extent_at_start:
  "em_inv m \<Longrightarrow> p \<in> set m \<Longrightarrow> fst p \<le> x \<Longrightarrow> x < ext_end (snd p) \<Longrightarrow>
    em_at cached_at m x = Some (cx_object_id (ext_value (snd p)), cx_object_offset (ext_value (snd p)) + (x - fst p))"
  by (simp add: em_at_mem cached_at_def)

lemma refs_okD:
  "refs_ok c \<Longrightarrow> em_at cached_at (rc_extents c) x = Some (i, off) \<Longrightarrow>
    \<exists>ob. bt_get (rc_objects c) i = Some ob \<and> off < length (payload_data (co_payload ob))"
  by (simp add: refs_ok_def)

lemma refs_ok_objects:
  assumes "refs_ok c" "rc_extents c' = rc_extents c"
    and "\<And>x i off. em_at cached_at (rc_extents c) x = Some (i, off) \<Longrightarrow>
      map_option co_payload (bt_get (rc_objects c') i) = map_option co_payload (bt_get (rc_objects c) i)"
  shows "refs_ok c'"
  unfolding refs_ok_def assms(2)
proof (intro conjI allI impI)
  fix x i off assume at: "em_at cached_at (rc_extents c) x = Some (i, off)"
  obtain ob where "bt_get (rc_objects c) i = Some ob" "off < length (payload_data (co_payload ob))"
    using refs_okD [OF assms(1) at] by blast
  then show "\<exists>ob. bt_get (rc_objects c') i = Some ob \<and> off < length (payload_data (co_payload ob))"
    using assms(3) [OF at] by (cases "bt_get (rc_objects c') i") auto
qed (use assms(1) in \<open>simp_all add: refs_ok_def\<close>)

text \<open>What an extent refers to: an object whose payload the extent lies in.\<close>

lemma refs_okE:
  assumes "refs_ok c" "p \<in> set (rc_extents c)"
  obtains ob where "bt_get (rc_objects c) (cx_object_id (ext_value (snd p))) = Some ob"
    "cx_object_offset (ext_value (snd p)) + (ext_end (snd p) - fst p) \<le> length (payload_data (co_payload ob))"
    "\<And>x. fst p \<le> x \<Longrightarrow> x < ext_end (snd p) \<Longrightarrow>
      cache_byte c x = Some (payload_data (co_payload ob) ! (cx_object_offset (ext_value (snd p)) + (x - fst p)))"
proof -
  have inv: "em_inv (rc_extents c)" and lt: "fst p < ext_end (snd p)"
    using assms em_inv_mem [of "rc_extents c" p] by (auto simp: refs_ok_def)
  note at = extent_at_start [OF inv assms(2)]
  obtain ob where ob: "bt_get (rc_objects c) (cx_object_id (ext_value (snd p))) = Some ob"
    using refs_okD [OF assms(1) at [of "fst p"]] lt by auto
  have "cx_object_offset (ext_value (snd p)) + (ext_end (snd p) - 1 - fst p) < length (payload_data (co_payload ob))"
    using refs_okD [OF assms(1) at [of "ext_end (snd p) - 1"]] lt ob by auto
  then have "cx_object_offset (ext_value (snd p)) + (ext_end (snd p) - fst p) \<le> length (payload_data (co_payload ob))"
    using lt by linarith
  then show thesis using that ob at by (simp add: cache_byte_def)
qed

lemma cache_byte_objects:
  assumes "rc_extents c' = rc_extents c"
    and "\<And>x i off. em_at cached_at (rc_extents c) x = Some (i, off) \<Longrightarrow>
      map_option co_payload (bt_get (rc_objects c') i) = map_option co_payload (bt_get (rc_objects c) i)"
  shows "cache_byte c' x = cache_byte c x"
  using assms(2) [of x]
  by (cases "em_at cached_at (rc_extents c) x", simp add: cache_byte_def assms(1),
      cases "bt_get (rc_objects c) (fst (the (em_at cached_at (rc_extents c) x)))";
      cases "bt_get (rc_objects c') (fst (the (em_at cached_at (rc_extents c) x)))")
    (auto simp: cache_byte_def assms(1))

section \<open>Objects\<close>

lemma lru_remove_set: "distinct xs \<Longrightarrow> set (lru_remove i xs) = set xs - {i} \<and> distinct (lru_remove i xs)"
  by (simp add: lru_remove_def)

lemma lru_insert_at_set:
  "set (lru_insert_at k i xs) = insert i (set xs)"
  "distinct (lru_insert_at k i xs) \<longleftrightarrow> i \<notin> set xs \<and> distinct xs"
proof -
  have "set (take n xs) \<union> set (drop n xs) = set xs" for n
    by (metis append_take_drop_id set_append)
  then show "set (lru_insert_at k i xs) = insert i (set xs)" by (auto simp: lru_insert_at_def Let_def)
  have "distinct (a @ i # b) \<longleftrightarrow> i \<notin> set (a @ b) \<and> distinct (a @ b)" for a b by auto
  from this [of "take (min k (length xs)) xs" "drop (min k (length xs)) xs"]
  show "distinct (lru_insert_at k i xs) \<longleftrightarrow> i \<notin> set xs \<and> distinct xs"
    unfolding lru_insert_at_def Let_def append_take_drop_id .
qed

lemma charge_split:
  fixes objs :: "(nat \<times> cache_object) list"
  assumes "bt_sorted objs" "bt_get objs i = Some ob"
  shows "sum_list (map (co_charged_bytes \<circ> snd) objs) =
    co_charged_bytes ob + sum_list (map (co_charged_bytes \<circ> snd) (filter (\<lambda>p. fst p \<noteq> i) objs))"
  using assms
proof (induction objs)
  case (Cons p objs)
  obtain j ob' where p: "p = (j, ob')" by (cases p)
  show ?case
  proof (cases "j = i")
    case True
    have "filter (\<lambda>p. fst p \<noteq> i) objs = objs"
      using Cons.prems(1) p True by (auto simp: bt_sorted_Cons intro!: filter_True)
    then show ?thesis using Cons.prems(2) p True by (simp add: bt_get_def)
  qed (use Cons p in \<open>auto simp: bt_sorted_Cons bt_get_def\<close>)
qed (simp add: bt_get_def)

lemma remove_object_fields [simp]:
  "rc_extents (remove_object c i) = rc_extents c" "rc_max_bytes (remove_object c i) = rc_max_bytes c"
  "rc_next_object_id (remove_object c i) = rc_next_object_id c"
  by (simp_all add: remove_object_def Let_def split: option.splits)

lemma remove_object_objects:
  assumes "objects_ok c"
  shows "rc_objects (remove_object c i) = filter (\<lambda>p. fst p \<noteq> i) (rc_objects c)" "objects_ok (remove_object c i)"
proof -
  have srt: "bt_sorted (rc_objects c)" using assms by (simp add: objects_ok_def)
  have none: "filter (\<lambda>p. fst p \<noteq> i) (rc_objects c) = rc_objects c" if "bt_get (rc_objects c) i = None"
    using that by (auto simp: bt_get_def map_of_eq_None_iff image_iff intro!: filter_True)
  show objs: "rc_objects (remove_object c i) = filter (\<lambda>p. fst p \<noteq> i) (rc_objects c)"
    using none srt by (simp add: remove_object_def Let_def bt_remove_filter split: option.splits)
  have "rc_charged_bytes (remove_object c i) =
      sum_list (map (co_charged_bytes \<circ> snd) (filter (\<lambda>p. fst p \<noteq> i) (rc_objects c)))"
    using charge_split [OF srt, of i] none assms
    by (simp add: remove_object_def Let_def objects_ok_def split: option.splits)
  moreover have "set (lru_remove i (rc_lru c)) = fst ` set (filter (\<lambda>p. fst p \<noteq> i) (rc_objects c))"
    "distinct (lru_remove i (rc_lru c))"
    using assms lru_remove_set [of "rc_lru c" i] by (auto simp: objects_ok_def)
  ultimately show "objects_ok (remove_object c i)"
    using assms srt by (simp add: objects_ok_def objs bt_sorted_filter)
qed

lemma remove_objects:
  assumes "objects_ok c"
  shows "objects_ok (foldl remove_object c is) \<and>
    rc_objects (foldl remove_object c is) = filter (\<lambda>p. fst p \<notin> set is) (rc_objects c) \<and>
    rc_extents (foldl remove_object c is) = rc_extents c \<and>
    rc_max_bytes (foldl remove_object c is) = rc_max_bytes c"
  using assms
proof (induction "is" arbitrary: c)
  case (Cons i "is")
  have "objects_ok (remove_object c i)" by (rule remove_object_objects) (rule Cons.prems)
  from Cons.IH [OF this] show ?case
    using remove_object_objects(1) [OF Cons.prems, of i] by (auto intro: filter_cong)
qed simp

text \<open>The back references computed from the extents.\<close>

definition starts_of :: "cache_extent extent_map \<Rightarrow> nat \<Rightarrow> nat set" where
  "starts_of m i = {fst q | q. q \<in> set m \<and> cx_object_id (ext_value (snd q)) = i}"

definition fill_starts :: "cache_extent extent_map \<Rightarrow> (nat \<times> cache_object) list \<Rightarrow> (nat \<times> cache_object) list" where
  "fill_starts m objs = foldl (\<lambda>objs e. upd_object (cx_object_id (ee_value e))
       (\<lambda>ob. ob\<lparr>co_extent_starts := insort_insert (ee_start e) (co_extent_starts ob)\<rparr>) objs) objs (em_iter m)"

definition filled_with :: "cache_extent extent_map \<Rightarrow> nat \<times> cache_object \<Rightarrow> nat \<times> cache_object \<Rightarrow> bool" where
  "filled_with m p q \<longleftrightarrow> fst p = fst q \<and> co_payload (snd p) = co_payload (snd q) \<and>
     co_charged_bytes (snd p) = co_charged_bytes (snd q) \<and>
     set (co_extent_starts (snd q)) = set (co_extent_starts (snd p)) \<union> starts_of m (fst p)"

lemma filled_with_trans: "filled_with [e] p q \<Longrightarrow> filled_with m q r \<Longrightarrow> filled_with (e # m) p r"
  by (auto simp: filled_with_def starts_of_def)

lemma fill_starts_rel: "list_all2 (filled_with m) objs (fill_starts m objs)"
proof (induction m arbitrary: objs)
  case Nil
  then show ?case by (simp add: fill_starts_def em_iter_def starts_of_def filled_with_def list_all2_refl)
next
  case (Cons e m)
  let ?objs = "upd_object (cx_object_id (ext_value (snd e)))
       (\<lambda>ob. ob\<lparr>co_extent_starts := insort_insert (fst e) (co_extent_starts ob)\<rparr>) objs"
  have step: "fill_starts (e # m) objs = fill_starts m ?objs" by (simp add: fill_starts_def em_iter_def)
  have "filled_with [e] p (case p of (j, ob) \<Rightarrow> (j, if j = cx_object_id (ext_value (snd e))
      then ob\<lparr>co_extent_starts := insort_insert (fst e) (co_extent_starts ob)\<rparr> else ob))" for p
    by (cases e; cases p) (auto simp: filled_with_def starts_of_def set_insort_insert)
  then have "list_all2 (filled_with [e]) objs ?objs"
    unfolding upd_object_def list.rel_map(2) by (intro list.rel_refl_strong)
  from list_all2_trans [OF _ this Cons.IH, where ?P3.0 = "filled_with (e # m)"]
  show ?case unfolding step using filled_with_trans by blast
qed

lemma filled_same:
  assumes "list_all2 (filled_with m) objs objs'"
  shows "map fst objs' = map fst objs"
    "map (co_charged_bytes \<circ> snd) objs' = map (co_charged_bytes \<circ> snd) objs"
    "map_option co_payload (bt_get objs' i) = map_option co_payload (bt_get objs i)"
    "q \<in> set objs' \<Longrightarrow> \<exists>p \<in> set objs. filled_with m p q"
  using assms by (induction rule: list_all2_induct) (auto simp: filled_with_def bt_get_def)

definition cleared :: "(nat \<times> cache_object) list \<Rightarrow> (nat \<times> cache_object) list" where
  "cleared objs = map (\<lambda>(i, ob). (i, ob\<lparr>co_extent_starts := []\<rparr>)) objs"

lemma cleared_same:
  "map fst (cleared objs) = map fst objs"
  "map (co_charged_bytes \<circ> snd) (cleared objs) = map (co_charged_bytes \<circ> snd) objs"
  "map_option co_payload (bt_get (cleared objs) i) = map_option co_payload (bt_get objs i)"
  "q \<in> set (cleared objs) \<Longrightarrow> co_extent_starts (snd q) = [] \<and>
     (\<exists>p \<in> set objs. fst p = fst q \<and> co_payload (snd p) = co_payload (snd q) \<and> co_charged_bytes (snd p) = co_charged_bytes (snd q))"
proof -
  show "map_option co_payload (bt_get (cleared objs) i) = map_option co_payload (bt_get objs i)"
    by (induction objs) (auto simp: cleared_def bt_get_def)
  show "q \<in> set (cleared objs) \<Longrightarrow> co_extent_starts (snd q) = [] \<and>
     (\<exists>p \<in> set objs. fst p = fst q \<and> co_payload (snd p) = co_payload (snd q) \<and> co_charged_bytes (snd p) = co_charged_bytes (snd q))"
    by (force simp: cleared_def)
qed (simp_all add: cleared_def split_def)

lemma objects_ok_same:
  assumes "objects_ok c" "map fst objs' = map fst (rc_objects c)"
    "map (co_charged_bytes \<circ> snd) objs' = map (co_charged_bytes \<circ> snd) (rc_objects c)"
    "\<And>q. q \<in> set objs' \<Longrightarrow> \<exists>p \<in> set (rc_objects c). fst p = fst q \<and> co_payload (snd p) = co_payload (snd q) \<and>
      co_charged_bytes (snd p) = co_charged_bytes (snd q)"
  shows "objects_ok (c\<lparr>rc_objects := objs'\<rparr>)"
proof -
  have "fst ` set objs' = fst ` set (rc_objects c)" using assms(2) by (metis list.set_map)
  moreover have "0 < fst q \<and> fst q < rc_next_object_id c \<and>
      co_charged_bytes (snd q) = length (payload_data (co_payload (snd q))) \<and>
      length (payload_data (co_payload (snd q))) \<le> u64_max" if "q \<in> set objs'" for q
    using assms(1) assms(4) [OF that] by (force simp: objects_ok_def)
  ultimately show ?thesis using assms(1-3) by (simp add: objects_ok_def bt_sorted_def)
qed

text \<open>Rebuilding keeps the cached bytes and restores the back references.\<close>

lemma rebuild:
  assumes "refs_ok c" "objects_ok c"
  shows "cache_inv (rebuild_backrefs_and_gc_with_inherited_lru c i pos placement)"
    "cache_byte (rebuild_backrefs_and_gc_with_inherited_lru c i pos placement) x = cache_byte c x"
    "rc_max_bytes (rebuild_backrefs_and_gc_with_inherited_lru c i pos placement) = rc_max_bytes c"
proof -
  let ?c' = "rebuild_backrefs_and_gc_with_inherited_lru c i pos placement"
  define filled where "filled = fill_starts (rc_extents c) (cleared (rc_objects c))"
  define empties where "empties = map fst (filter (\<lambda>(i, ob). co_extent_starts ob = []) filled)"
  define c1 where "c1 = foldl remove_object (c\<lparr>rc_objects := filled\<rparr>) empties"
  note rel = fill_starts_rel [of "rc_extents c" "cleared (rc_objects c)", folded filled_def]
  note same = filled_same [OF rel] and csame = cleared_same [where objs = "rc_objects c"]
  have mem: "\<exists>p \<in> set (rc_objects c). fst p = fst q \<and> co_payload (snd p) = co_payload (snd q) \<and>
      co_charged_bytes (snd p) = co_charged_bytes (snd q)"
    and starts: "set (co_extent_starts (snd q)) = starts_of (rc_extents c) (fst q)" if "q \<in> set filled" for q
    using same(4) [OF that] csame(4) by (fastforce simp: filled_with_def)+
  have "objects_ok (c\<lparr>rc_objects := filled\<rparr>)"
    using assms(2) same(1,2) csame(1,2) mem by (intro objects_ok_same) auto
  from remove_objects [OF this, of empties]
  have c1: "objects_ok c1" "rc_objects c1 = filter (\<lambda>p. fst p \<notin> set empties) filled"
    "rc_extents c1 = rc_extents c" "rc_max_bytes c1 = rc_max_bytes c" by (simp_all add: c1_def)
  have lru: "\<exists>order. ?c' = c1\<lparr>rc_lru := order\<rparr> \<and> set order = set (rc_lru c1) \<and> distinct order"
  proof -
    have d: "distinct (rc_lru c1)" "set (rc_lru c1) = fst ` set (rc_objects c1)" using c1(1) by (auto simp: objects_ok_def)
    have "i \<in> set (rc_lru c1)" if "bt_get (rc_objects c1) i = Some ob" for ob
      using that d(2) by (force simp: bt_get_def dest: map_of_SomeD)
    moreover have "?c' = (if bt_get (rc_objects c1) i \<noteq> None then
          let order = lru_remove i (rc_lru c1) in
          c1\<lparr>rc_lru := (case pos of
              Some position \<Rightarrow> lru_insert_at position i order
            | None \<Rightarrow> (case placement of Hot \<Rightarrow> i # order | Cold \<Rightarrow> order @ [i]))\<rparr>
        else c1)"
      unfolding rebuild_backrefs_and_gc_with_inherited_lru_def Let_def c1_def empties_def filled_def fill_starts_def
        cleared_def ..
    ultimately show ?thesis
      using d lru_remove_set [OF d(1), of i]
      by (intro exI [of _ "rc_lru ?c'"], cases "bt_get (rc_objects c1) i"; cases pos; cases placement)
        (auto simp: Let_def lru_insert_at_set)
  qed
  then obtain order where c': "?c' = c1\<lparr>rc_lru := order\<rparr>" "set order = set (rc_lru c1)" "distinct order" by blast
  have srt: "bt_sorted filled" using \<open>objects_ok (c\<lparr>rc_objects := filled\<rparr>)\<close> by (simp add: objects_ok_def)
  have kept: "map_option co_payload (bt_get (rc_objects c1) j) = map_option co_payload (bt_get (rc_objects c) j)"
    if here: "em_at cached_at (rc_extents c) x = Some (j, off)" for x j off
  proof -
    obtain p where p: "p \<in> set (rc_extents c)" "cx_object_id (ext_value (snd p)) = j"
      using here by (rule em_at_SomeE) (auto simp: cached_at_def)
    have "j \<notin> set empties"
    proof
      assume "j \<in> set empties"
      then obtain q where "q \<in> set filled" "fst q = j" "co_extent_starts (snd q) = []" by (auto simp: empties_def)
      then show False using starts [of q] p by (cases p) (auto simp: starts_of_def)
    qed
    then show ?thesis
      using same(3) [of j] csame(3) [of j] bt_get_filter [OF srt, of "\<lambda>k. k \<notin> set empties" j] c1(2) by simp
  qed
  show "rc_max_bytes ?c' = rc_max_bytes c" using c'(1) c1(4) by simp
  show "cache_byte ?c' x = cache_byte c x"
    by (rule cache_byte_objects) (use c'(1) c1(3) kept in auto)
  have "objects_ok ?c'" using c1(1) c' by (simp add: objects_ok_def)
  moreover have "starts_ok ?c'"
    using c1 c'(1) starts by (fastforce simp: starts_ok_def starts_of_def)
  moreover have "refs_ok ?c'"
    by (rule refs_ok_objects [OF assms(1)]) (use c'(1) c1(3) kept in auto)
  ultimately show "cache_inv ?c'" by (simp add: cache_inv_def)
qed

section \<open>Eviction\<close>

lemma remove_exact_extent:
  assumes "em_inv m" "p \<in> set m"
  shows "remove_range_with_split sp m (fst p) (ext_end (snd p)) =
    (filter (\<lambda>q. fst q \<noteq> fst p) m, Inr [extent_ref p])"
proof -
  obtain L R where m: "m = L @ p # R" using split_list [OF assms(2)] by blast
  have L: "ext_end (snd q) \<le> fst p" "fst q < fst p" if "q \<in> set L" for q
    using assms(1) m that em_inv_mem [OF assms(1), of q] by auto
  have R: "ext_end (snd p) \<le> fst q" "fst p < fst q" if "q \<in> set R" for q
    using assms(1) m that em_inv_mem [OF assms] by auto
  have pt: "parts (fst p) (ext_end (snd p)) L [p] R"
    using assms em_inv_mem [OF assms] m L R by (auto simp: parts_def)
  have "filter (\<lambda>q. fst q \<noteq> fst p) L = L" "filter (\<lambda>q. fst q \<noteq> fst p) R = R"
    using L(2) R(2) by (force intro!: filter_True)+
  then show ?thesis
    using remove_range_parts(1) [OF pt, of sp] m by (cases p) (simp add: left_tail_def right_tail_def)
qed

lemma em_inv_filter: "em_inv m \<Longrightarrow> em_inv (filter P m)"
  by (auto simp: em_inv_def intro: sorted_wrt_filter)

lemma em_at_filter:
  "em_inv m \<Longrightarrow> em_at at (filter P m) x = None \<or> em_at at (filter P m) x = em_at at m x"
proof (cases "em_at at (filter P m) x")
  case (Some b)
  assume "em_inv m"
  from Some obtain p where "p \<in> set (filter P m)" "fst p \<le> x" "x < ext_end (snd p)"
    "b = at (ext_value (snd p)) (x - fst p)" by (rule em_at_SomeE)
  moreover from this(1) have "p \<in> set m" by simp
  ultimately show ?thesis using Some em_at_mem [OF \<open>em_inv m\<close>] by metis
qed simp

definition forgets :: "read_cache \<Rightarrow> read_cache \<Rightarrow> bool" where
  "forgets c c' \<longleftrightarrow> (\<forall>x. cache_byte c' x = None \<or> cache_byte c' x = cache_byte c x)"

lemma evict_loop:
  assumes "em_inv (rc_extents c)"
  shows "loop_st (\<lambda>c start.
     case em_get (rc_extents c) start of
       None \<Rightarrow> (c, Inr ())
     | Some e \<Rightarrow> then_st (with_extents c (remove_range_with_split cache_split_at (rc_extents c) (ee_start e) (ee_end e)))
         (\<lambda>c _. (c, Inr ()))) c starts =
    (c\<lparr>rc_extents := filter (\<lambda>p. fst p \<notin> set starts) (rc_extents c)\<rparr>, Inr () :: (server_error, unit) result)"
  using assms
proof (induction starts arbitrary: c)
  case (Cons s starts)
  let ?m = "filter (\<lambda>q. fst q \<noteq> s) (rc_extents c)"
  have "(case em_get (rc_extents c) s of
       None \<Rightarrow> (c, Inr ())
     | Some e \<Rightarrow> then_st (with_extents c (remove_range_with_split cache_split_at (rc_extents c) (ee_start e) (ee_end e)))
         (\<lambda>c _. (c, Inr ()))) = (c\<lparr>rc_extents := ?m\<rparr>, Inr ())"
  proof (cases "bt_get (rc_extents c) s")
    case None
    then have "?m = rc_extents c" by (auto simp: bt_get_def map_of_eq_None_iff image_iff intro!: filter_True)
    then show ?thesis using None by (simp add: em_get_def)
  next
    case (Some e)
    then have "(s, e) \<in> set (rc_extents c)" by (auto simp: bt_get_def dest: map_of_SomeD)
    from remove_exact_extent [OF Cons.prems this] show ?thesis
      using Some by (simp add: em_get_def with_extents_def)
  qed
  moreover have "em_inv ?m" using Cons.prems by (rule em_inv_filter)
  ultimately show ?case
    using Cons.IH [of "c\<lparr>rc_extents := ?m\<rparr>"] by (simp add: conj_commute)
qed simp

lemma evict_object_ok:
  assumes "cache_inv c"
  obtains c' where "evict_object c i = (c', Inr ())" "cache_inv c'" "forgets c c'" "rc_max_bytes c' = rc_max_bytes c"
proof (cases "bt_get (rc_objects c) i")
  case None
  have "i \<notin> set (rc_lru c)"
    using assms None by (auto simp: cache_inv_def objects_ok_def bt_get_def map_of_eq_None_iff)
  then have "evict_object c i = (c, Inr ())"
    using None by (simp add: evict_object_def lru_remove_def remove1_idem)
  then show thesis using assms that by (simp add: forgets_def)
next
  case (Some ob)
  let ?E = "filter (\<lambda>p. fst p \<notin> set (co_extent_starts ob)) (rc_extents c)"
  let ?c1 = "c\<lparr>rc_extents := ?E\<rparr>" and ?c2 = "remove_object (c\<lparr>rc_extents := ?E\<rparr>) i"
  have inv: "em_inv (rc_extents c)" and obj: "objects_ok c" using assms by (auto simp: cache_inv_def refs_ok_def)
  have run: "evict_object c i = (?c2, Inr ())" using Some evict_loop [OF inv] by (simp add: evict_object_def)
  have obj1: "objects_ok ?c1" using obj by (simp add: objects_ok_def)
  note ro = remove_object_objects [OF obj1, of i]
  have gone: "cx_object_id (ext_value (snd q)) \<noteq> i" if "q \<in> set ?E" for q
    using that Some assms by (force simp: cache_inv_def starts_ok_def bt_get_def dest: map_of_SomeD)
  have at: "em_at cached_at (rc_extents c) x = Some (j, off) \<and> j \<noteq> i"
    if here: "em_at cached_at ?E x = Some (j, off)" for x j off
  proof -
    from here obtain q where "q \<in> set ?E" "(j, off) = cached_at (ext_value (snd q)) (x - fst q)" by (rule em_at_SomeE)
    then have "j \<noteq> i" using gone [of q] by (simp add: cached_at_def)
    then show ?thesis
      using here em_at_filter [OF inv, of cached_at "\<lambda>p. fst p \<notin> set (co_extent_starts ob)" x] by simp
  qed
  have get: "bt_get (rc_objects ?c2) j = bt_get (rc_objects c) j" if "j \<noteq> i" for j
    using ro(1) bt_get_filter [of "rc_objects c" "\<lambda>k. k \<noteq> i" j] obj that by (simp add: objects_ok_def)
  have "refs_ok ?c2"
    using assms at get inv by (auto simp: refs_ok_def cache_inv_def intro!: em_inv_filter) metis
  moreover have "starts_ok ?c2" using assms ro(1) by (auto simp: cache_inv_def starts_ok_def)
  moreover have "forgets c ?c2"
    using at get by (auto simp: forgets_def cache_byte_def split: option.splits)
  ultimately show thesis using that run ro(2) by (simp add: cache_inv_def)
qed

lemma forgets_trans: "forgets a b \<Longrightarrow> forgets b c \<Longrightarrow> forgets a c"
  by (metis forgets_def)

lemma evict_to_budget_ok:
  assumes "cache_inv c"
  shows "\<exists>c'. evict_to_budget c = (c', Inr ()) \<and> cache_inv c' \<and> forgets c c' \<and> rc_max_bytes c' = rc_max_bytes c \<and>
    rc_charged_bytes c' \<le> rc_max_bytes c'"
  using assms
proof (induction c rule: evict_to_budget.induct)
  case (1 c)
  show ?case
  proof (cases "rc_charged_bytes c > rc_max_bytes c")
    case True
    show ?thesis
    proof (cases "lru_tail (rc_lru c)")
      case None
      then have "rc_lru c = []" by (simp add: lru_tail_def split: if_splits)
      then have "rc_charged_bytes c = 0" using 1 by (auto simp: cache_inv_def objects_ok_def)
      with True show ?thesis by simp
    next
      case (Some i)
      obtain c1 where c1: "evict_object c i = (c1, Inr ())" "cache_inv c1" "forgets c c1"
        "rc_max_bytes c1 = rc_max_bytes c" using evict_object_ok [OF 1(2)] by blast
      from 1(1) [OF True Some c1(1,2)] c1 True Some forgets_trans show ?thesis
        by (subst evict_to_budget.simps) fastforce
    qed
  next
    case False
    then show ?thesis using 1(2) by (subst evict_to_budget.simps) (simp add: forgets_def)
  qed
qed

section \<open>Merging\<close>

definition span :: "existing_source \<Rightarrow> nat set" where
  "span s = {es_start s ..< es_end s}"

definition chosen :: "existing_source list \<Rightarrow> bool list \<Rightarrow> existing_source set" where
  "chosen ss sels = {s. (s, True) \<in> set (zip ss sels)}"

lemma chosen_Cons [simp]: "chosen (s # ss) (b # bs) = (if b then insert s (chosen ss bs) else chosen ss bs)"
  by (auto simp: chosen_def)

lemma connect_pass_spec:
  assumes "connect_pass ss sels cs ce = (sels', cs', ce', changed)" "length ss = length sels"
    and "\<And>s. s \<in> set ss \<Longrightarrow> es_start s < es_end s" "cs < ce"
  shows "chosen ss sels \<subseteq> chosen ss sels' \<and> cs' \<le> cs \<and> ce \<le> ce' \<and>
    (cs' = cs \<or> cs' \<in> es_start ` chosen ss sels') \<and> (ce' = ce \<or> ce' \<in> es_end ` chosen ss sels') \<and>
    {cs' ..< ce'} \<subseteq> {cs ..< ce} \<union> \<Union> (span ` chosen ss sels') \<and>
    (\<forall>s \<in> chosen ss sels' - chosen ss sels. span s \<subseteq> {cs' ..< ce'})"
  using assms
proof (induction ss sels cs ce arbitrary: sels' cs' ce' changed rule: connect_pass.induct)
  case (1 s ss sel sels cs ce)
  have len: "length ss = length sels" and ok: "\<And>t. t \<in> set ss \<Longrightarrow> es_start t < es_end t" "es_start s < es_end s"
    using 1(5,6) by auto
  consider (kept) "sel" | (touch) "\<not> sel" "es_start s \<le> ce \<and> es_end s \<ge> cs" | (apart) "\<not> sel" "\<not> (es_start s \<le> ce \<and> es_end s \<ge> cs)"
    by blast
  then show ?case
  proof cases
    case kept
    obtain r where r: "connect_pass ss sels cs ce = (r, cs', ce', changed)" "sels' = True # r"
      using 1(4) kept by (auto split: prod.splits)
    show ?thesis using 1(1) [OF kept r(1) len ok(1) 1(7)] kept r(2) by auto
  next
    case touch
    let ?cs = "min cs (es_start s)" and ?ce = "max ce (es_end s)"
    obtain r ch where r: "connect_pass ss sels ?cs ?ce = (r, cs', ce', ch)" "sels' = True # r"
      using 1(4) touch by (auto split: prod.splits)
    have "?cs < ?ce" "{?cs ..< ?ce} \<subseteq> {cs ..< ce} \<union> span s" "span s \<subseteq> {?cs ..< ?ce}"
      using 1(7) touch(2) by (auto simp: span_def)
    with 1(2) [OF touch r(1) len ok(1)] show ?thesis
      unfolding r(2) by (auto simp: touch(1) min_def max_def split: if_splits)
  next
    case apart
    obtain r where r: "connect_pass ss sels cs ce = (r, cs', ce', changed)" "sels' = False # r"
      using 1(4) apart by (auto split: prod.splits)
    show ?thesis using 1(3) [OF apart r(1) len ok(1) 1(7)] apart r(2) by auto
  qed
qed (auto simp: chosen_def)

lemma coverage_loop_ok:
  assumes "sorted (map fst spans)" "covered \<le> stop" "\<And>s e. (s, e) \<in> set spans \<Longrightarrow> e \<le> stop"
    and "\<And>x. covered \<le> x \<Longrightarrow> x < stop \<Longrightarrow> \<exists>(s, e) \<in> set spans. s \<le> x \<and> x < e"
  shows "coverage_loop covered spans = Inr stop"
  using assms
proof (induction covered spans rule: coverage_loop.induct)
  case (2 covered s e spans)
  show ?case
  proof (cases "e \<le> covered")
    case True
    have "\<exists>(s, e) \<in> set spans. s \<le> x \<and> x < e" if "covered \<le> x" "x < stop" for x
      using 2(6) [OF that] that True by auto
    then show ?thesis using True 2(1) [OF True] 2(3-5) by fastforce
  next
    case False
    have "s \<le> covered"
      using False 2(3) 2(6) [of covered] 2(5) [of s e] by fastforce
    moreover have "\<exists>(s, e) \<in> set spans. s \<le> x \<and> x < e" if "e \<le> x" "x < stop" for x
      using 2(6) [of x] that False by auto
    ultimately show ?thesis using False 2(2) 2(3-5) by (auto simp: max_def)
  qed
qed (metis coverage_loop.simps(1) empty_iff empty_set leD le_neq_implies_less less_or_eq_imp_le)

lemma fold_copies:
  assumes "\<And>s. s \<in> set srcs \<Longrightarrow> cs \<le> es_start s \<and> es_start s < es_end s \<and> es_end s \<le> cs + length m \<and>
      es_object_offset s + (es_end s - es_start s) \<le> length (payload_data (es_payload s)) \<and>
      (\<forall>x \<in> span s. payload_data (es_payload s) ! (es_object_offset s + (x - es_start s)) = f x)"
  shows "length (foldl (\<lambda>m s. copy_source cs s m) m srcs) = length m \<and>
    (\<forall>x. cs \<le> x \<longrightarrow> x < cs + length m \<longrightarrow> foldl (\<lambda>m s. copy_source cs s m) m srcs ! (x - cs) =
      (if \<exists>s \<in> set srcs. x \<in> span s then f x else m ! (x - cs)))"
  using assms
proof (induction srcs rule: rev_induct)
  case (snoc s srcs)
  let ?m = "foldl (\<lambda>m s. copy_source cs s m) m srcs"
  have IH: "length ?m = length m" "\<And>x. cs \<le> x \<Longrightarrow> x < cs + length m \<Longrightarrow> ?m ! (x - cs) =
      (if \<exists>s \<in> set srcs. x \<in> span s then f x else m ! (x - cs))" using snoc by auto
  have s: "cs \<le> es_start s" "es_start s < es_end s" "es_end s \<le> cs + length m"
      "es_object_offset s + (es_end s - es_start s) \<le> length (payload_data (es_payload s))"
      "\<And>x. x \<in> span s \<Longrightarrow> payload_data (es_payload s) ! (es_object_offset s + (x - es_start s)) = f x"
    using snoc.prems [of s] by auto
  have "copy_source cs s ?m ! (x - cs) = (if x \<in> span s then f x else ?m ! (x - cs))"
    if "cs \<le> x" "x < cs + length m" for x
    using s(1-4) s(5) [of x] that IH(1)
    by (auto simp: copy_source_def payload_copy_to_def slice_simps span_def)
  then show ?case using IH s by (auto simp: copy_source_def payload_copy_to_def slice_simps)
qed simp

definition component :: "nat \<Rightarrow> nat \<Rightarrow> existing_source set \<Rightarrow> existing_source set \<Rightarrow> nat \<Rightarrow> nat \<Rightarrow> bool" where
  "component cs ce S0 S cs' ce' \<longleftrightarrow> S0 \<subseteq> S \<and> cs' \<le> cs \<and> ce \<le> ce' \<and>
    (cs' = cs \<or> cs' \<in> es_start ` S) \<and> (ce' = ce \<or> ce' \<in> es_end ` S) \<and>
    {cs' ..< ce'} \<subseteq> {cs ..< ce} \<union> \<Union> (span ` S) \<and> (\<forall>s \<in> S - S0. span s \<subseteq> {cs' ..< ce'})"

lemma component_trans:
  assumes "component cs ce S0 S1 cs1 ce1" "component cs1 ce1 S1 S2 cs2 ce2"
  shows "component cs ce S0 S2 cs2 ce2"
proof -
  have "span s \<subseteq> {cs2 ..< ce2}" if "s \<in> S2 - S0" for s
  proof (cases "s \<in> S1")
    case True
    then have "span s \<subseteq> {cs1 ..< ce1}" using assms(1) that by (simp add: component_def)
    also have "\<dots> \<subseteq> {cs2 ..< ce2}" using assms(2) by (auto simp: component_def)
    finally show ?thesis .
  qed (use assms(2) that in \<open>simp add: component_def\<close>)
  moreover have "{cs2 ..< ce2} \<subseteq> {cs ..< ce} \<union> \<Union> (span ` S2)"
  proof -
    have "{cs1 ..< ce1} \<subseteq> {cs ..< ce} \<union> \<Union> (span ` S1)" "{cs2 ..< ce2} \<subseteq> {cs1 ..< ce1} \<union> \<Union> (span ` S2)"
      "S1 \<subseteq> S2" using assms by (simp_all add: component_def)
    then show ?thesis by blast
  qed
  moreover have "S0 \<subseteq> S2 \<and> cs2 \<le> cs \<and> ce \<le> ce2 \<and> (cs2 = cs \<or> cs2 \<in> es_start ` S2) \<and> (ce2 = ce \<or> ce2 \<in> es_end ` S2)"
    using assms unfolding component_def by (meson image_mono le_trans order_trans subsetD)
  ultimately show ?thesis by (simp add: component_def)
qed

lemma component_bounds:
  assumes "component cs ce {} S cs' ce'" "s \<in> S" "es_start s < es_end s"
  shows "cs' \<le> es_start s" "es_end s \<le> ce'"
proof -
  have "span s \<subseteq> {cs' ..< ce'}" using assms(1,2) by (simp add: component_def)
  then show "cs' \<le> es_start s" "es_end s \<le> ce'" using assms(3) by (auto simp: span_def)
qed

lemma connect_loop_spec:
  assumes "length ss = length sels" "\<And>s. s \<in> set ss \<Longrightarrow> es_start s < es_end s" "cs < ce"
  shows "\<exists>cs' ce'. length (connect_loop ss sels cs ce) = length ss \<and>
    component cs ce (chosen ss sels) (chosen ss (connect_loop ss sels cs ce)) cs' ce'"
  using assms
proof (induction ss sels cs ce rule: connect_loop.induct)
  case (1 ss sels cs ce)
  obtain sels' cs' ce' changed where pass: "connect_pass ss sels cs ce = (sels', cs', ce', changed)"
    by (metis prod_cases4)
  note spec = connect_pass_spec [OF pass 1(2-4)] and cnt = connect_pass_count [OF pass 1(2)]
  then have comp: "component cs ce (chosen ss sels) (chosen ss sels') cs' ce'" by (simp add: component_def)
  show ?case
  proof (cases changed)
    case True
    have "\<exists>cs'' ce''. length (connect_loop ss sels' cs' ce') = length ss \<and>
      component cs' ce' (chosen ss sels') (chosen ss (connect_loop ss sels' cs' ce')) cs'' ce''"
      by (rule 1(1) [OF pass [symmetric] refl refl]) (use True 1(2-4) cnt spec in auto)
    moreover have "connect_loop ss sels cs ce = connect_loop ss sels' cs' ce'"
      using pass True 1(2) by (subst connect_loop.simps) simp
    ultimately show ?thesis using component_trans [OF comp] by metis
  next
    case False
    then have "connect_loop ss sels cs ce = sels'" using pass by (subst connect_loop.simps) simp
    then show ?thesis using comp cnt 1(2) by auto
  qed
qed

lemma foldl_min_max:
  fixes a :: nat
  shows "foldl min a xs \<le> a \<and> (\<forall>x \<in> set xs. foldl min a xs \<le> x) \<and> foldl min a xs \<in> insert a (set xs)"
    "a \<le> foldl max a xs \<and> (\<forall>x \<in> set xs. x \<le> foldl max a xs) \<and> foldl max a xs \<in> insert a (set xs)"
proof -
  show "foldl min a xs \<le> a \<and> (\<forall>x \<in> set xs. foldl min a xs \<le> x) \<and> foldl min a xs \<in> insert a (set xs)"
    by (induction xs rule: rev_induct) (auto simp: min_def)
  show "a \<le> foldl max a xs \<and> (\<forall>x \<in> set xs. x \<le> foldl max a xs) \<and> foldl max a xs \<in> insert a (set xs)"
    by (induction xs rule: rev_induct) (auto simp: max_def)
qed

text \<open>
  The sources connected to a range form one contiguous component with it: this is what
  makes the coverage check of a merge succeed.
\<close>

lemma connected_sources_spec:
  assumes ok: "\<And>s. s \<in> set ss \<Longrightarrow> es_start s < es_end s" and "start < stop"
  defines "conn \<equiv> connected_sources start stop ss"
  shows "set conn \<subseteq> set ss"
    and "component start stop {} (set conn) (component_start start conn) (component_end stop conn)"
proof -
  let ?sels = "replicate (length ss) False"
  have none: "chosen ss ?sels = {}" by (auto simp: chosen_def set_zip)
  obtain cs ce where loop: "length (connect_loop ss ?sels start stop) = length ss"
    "component start stop {} (chosen ss (connect_loop ss ?sels start stop)) cs ce"
    using connect_loop_spec [of ss ?sels start stop] ok assms(2) none by auto
  have set: "set conn = chosen ss (connect_loop ss ?sels start stop)"
    by (force simp: conn_def connected_sources_def chosen_def)
  then show sub: "set conn \<subseteq> set ss" by (auto simp: chosen_def dest: set_zip_leftD)
  from loop(2) have comp: "component start stop {} (set conn) cs ce" by (simp add: set)
  have bounds: "cs \<le> es_start s \<and> es_end s \<le> ce" if "s \<in> set conn" for s
    using component_bounds [OF comp that] ok sub that by blast
  have edge: "cs \<le> start" "stop \<le> ce" "cs = start \<or> cs \<in> es_start ` set conn" "ce = stop \<or> ce \<in> es_end ` set conn"
    using comp by (simp_all add: component_def)
  have "cs = component_start start conn"
  proof (rule antisym)
    have "component_start start conn \<in> insert start (es_start ` set conn)"
      using foldl_min_max(1) [of start "map es_start conn"] by (simp add: component_start_def)
    then show "cs \<le> component_start start conn" using edge(1) bounds by (elim insertE imageE) simp_all
    show "component_start start conn \<le> cs"
      using edge(3) foldl_min_max(1) [of start "map es_start conn"] by (auto simp: component_start_def)
  qed
  moreover have "ce = component_end stop conn"
  proof (rule antisym)
    have "component_end stop conn \<in> insert stop (es_end ` set conn)"
      using foldl_min_max(2) [of stop "map es_end conn"] by (simp add: component_end_def)
    then show "component_end stop conn \<le> ce" using edge(2) bounds by (elim insertE imageE) simp_all
    show "ce \<le> component_end stop conn"
      using edge(4) foldl_min_max(2) [of stop "map es_end conn"] by (auto simp: component_end_def)
  qed
  ultimately show "component start stop {} (set conn) (component_start start conn) (component_end stop conn)"
    using comp by simp
qed

lemma component_covered:
  assumes "component start stop {} (set conn) cs ce" "start < stop"
    "\<And>s. s \<in> set conn \<Longrightarrow> es_start s < es_end s"
  shows "validate_coverage cs ce (map (\<lambda>s. (es_start s, es_end s)) conn @ [(start, stop)]) = Inr ()"
proof -
  let ?spans = "map (\<lambda>s. (es_start s, es_end s)) conn @ [(start, stop)]"
  have "coverage_loop cs (sort_key fst ?spans) = Inr ce"
  proof (rule coverage_loop_ok)
    show "cs \<le> ce" using assms(1,2) by (auto simp: component_def)
    show "e \<le> ce" if "(s, e) \<in> set (sort_key fst ?spans)" for s e
    proof -
      have "(s, e) = (start, stop) \<or> (\<exists>t \<in> set conn. s = es_start t \<and> e = es_end t)" using that by auto
      moreover have "es_end t \<le> ce" if "t \<in> set conn" for t
        using component_bounds(2) [OF assms(1) that assms(3) [OF that]] .
      ultimately show ?thesis using assms(1) by (auto simp: component_def)
    qed
    show "\<exists>(s, e) \<in> set (sort_key fst ?spans). s \<le> x \<and> x < e" if "cs \<le> x" "x < ce" for x
    proof -
      have "x \<in> {start ..< stop} \<union> \<Union> (span ` set conn)" using assms(1) that by (auto simp: component_def)
      then show ?thesis by (auto simp: span_def)
    qed
  qed simp
  then show ?thesis by (simp add: validate_coverage_def)
qed

section \<open>Insertion\<close>

lemma ends_iff:
  assumes "em_inv m"
  shows "(\<forall>p \<in> set m. ext_end (snd p) \<le> B) \<longleftrightarrow> (\<forall>x. em_at at m x \<noteq> None \<longrightarrow> x < B)"
proof
  assume l: "\<forall>p \<in> set m. ext_end (snd p) \<le> B"
  show "\<forall>x. em_at at m x \<noteq> None \<longrightarrow> x < B"
  proof (intro allI impI)
    fix x assume "em_at at m x \<noteq> None"
    then obtain b where "em_at at m x = Some b" by blast
    then obtain p where "p \<in> set m" "x < ext_end (snd p)" by (rule em_at_SomeE)
    then show "x < B" using l by fastforce
  qed
next
  assume r: "\<forall>x. em_at at m x \<noteq> None \<longrightarrow> x < B"
  show "\<forall>p \<in> set m. ext_end (snd p) \<le> B"
  proof
    fix p assume p: "p \<in> set m"
    have lt: "fst p < ext_end (snd p)" using em_inv_mem [OF assms p] .
    have "em_at at m (ext_end (snd p) - 1) \<noteq> None" using em_at_mem [OF assms p, of "ext_end (snd p) - 1" at] lt by auto
    with r have "ext_end (snd p) - 1 < B" by blast
    then show "ext_end (snd p) \<le> B" using lt by linarith
  qed
qed

text \<open>An extent is inserted where the map holds nothing.\<close>

lemma insert_exact_empty:
  assumes "em_inv m" "s < e" "\<And>x. s \<le> x \<Longrightarrow> x < e \<Longrightarrow> em_at at m x = None"
  obtains m' where "insert_exact m s e v = (m', Inr ())" "em_inv m'"
    "\<And>x. em_at at m' x = (if s \<le> x \<and> x < e then Some (at v (x - s)) else em_at at m x)"
proof -
  obtain L M R where m: "m = L @ M @ R" and p: "parts s e L M R" using em_parts [OF assms(1,2)] by blast
  have "M = []"
  proof (rule ccontr)
    assume "M \<noteq> []"
    then obtain q where q: "q \<in> set M" by (cases M) auto
    then have "s < ext_end (snd q)" "fst q < e" "q \<in> set m" using p m by (auto simp: parts_def)
    moreover from this have "fst q < ext_end (snd q)" using assms(1) em_inv_mem by blast
    ultimately show False
      using assms(2) assms(3) [of "max s (fst q)"] em_at_mem [OF assms(1) \<open>q \<in> set m\<close>, of "max s (fst q)" at] by simp
  qed
  then have m: "m = L @ R" using m by simp
  have b: "\<forall>p \<in> set L. ext_end (snd p) \<le> s" "\<forall>p \<in> set R. e \<le> fst p" using p by (auto simp: parts_def)
  note ins = insert_exact_between [OF assms(1) [unfolded m] assms(2) b, of v]
  have "em_at at (L @ (s, \<lparr>ext_end = e, ext_value = v\<rparr>) # R) x =
    (if s \<le> x \<and> x < e then Some (at v (x - s)) else em_at at m x)" for x
    using assms(3) [of x] by (auto simp: m em_at_append split: option.splits)
  then show thesis using that ins m by blast
qed

lemma replace_component_ok:
  assumes inv: "cache_inv c" and ce: "cs < ce" "ce \<le> u64_max" and len: "length (payload_data payload) = ce - cs"
  obtains c' where "replace_component c cs ce payload pos placement = (c', Inr ())" "cache_inv c'"
    "rc_max_bytes c' = rc_max_bytes c"
    "\<And>x. cache_byte c' x = (if cs \<le> x \<and> x < ce then Some (payload_data payload ! (x - cs)) else cache_byte c x)"
proof -
  have einv: "em_inv (rc_extents c)" and obj: "objects_ok c" and refs: "refs_ok c"
    using inv by (auto simp: cache_inv_def refs_ok_def)
  obtain m1 removed where rm: "remove_range_with_split cache_split_at (rc_extents c) cs ce = (m1, Inr removed)" "em_inv m1"
    "\<And>x. em_at cached_at m1 x = (if cs \<le> x \<and> x < ce then None else em_at cached_at (rc_extents c) x)"
    using cached.remove_range_at [OF einv less_imp_le [OF ce(1)]] by metis
  let ?i = "rc_next_object_id c"
  let ?ob = "\<lparr>co_logical_start = cs, co_len = ce - cs, co_payload = payload, co_extent_starts = [],
    co_charged_bytes = payload_charged_bytes payload\<rparr>"
  obtain m2 where ins: "insert_exact m1 cs ce \<lparr>cx_object_id = ?i, cx_object_offset = 0\<rparr> = (m2, Inr ())" "em_inv m2"
    "\<And>x. em_at cached_at m2 x = (if cs \<le> x \<and> x < ce then Some (cached_at \<lparr>cx_object_id = ?i, cx_object_offset = 0\<rparr> (x - cs))
      else em_at cached_at m1 x)"
    using insert_exact_empty [OF rm(2) ce(1), of cached_at] rm(3) by (metis (no_types, lifting))
  have at: "em_at cached_at m2 x = (if cs \<le> x \<and> x < ce then Some (?i, x - cs) else em_at cached_at (rc_extents c) x)" for x
    using ins(3) [of x] rm(3) [of x] by (simp add: cached_at_def)
  have fresh: "\<forall>p \<in> set (rc_objects c). fst p < ?i" using obj by (auto simp: objects_ok_def)
  have app: "bt_insert ?i ?ob (rc_objects c) = rc_objects c @ [(?i, ?ob)]"
    using bt_insert_between [of "rc_objects c" ?i "[]"] fresh by (auto simp: split_def)
  have get: "bt_get (rc_objects c @ [(?i, ?ob)]) j = (if j = ?i then Some ?ob else bt_get (rc_objects c) j)" for j
    using bt_get_insert [of ?i ?ob "rc_objects c"] by (simp add: app)
  have none: "bt_get (rc_objects c) ?i = None" using fresh by (force simp: bt_get_def map_of_eq_None_iff)
  define c2 where "c2 = fst (insert_object (c\<lparr>rc_extents := m1\<rparr>) cs ce payload placement)\<lparr>rc_extents := m2\<rparr>"
  have c2: "rc_extents c2 = m2" "rc_objects c2 = rc_objects c @ [(?i, ?ob)]" "rc_max_bytes c2 = rc_max_bytes c"
    "rc_next_object_id c2 = ?i + 1" "rc_charged_bytes c2 = rc_charged_bytes c + (ce - cs)"
    "set (rc_lru c2) = insert ?i (set (rc_lru c))" "distinct (rc_lru c2) \<longleftrightarrow> ?i \<notin> set (rc_lru c) \<and> distinct (rc_lru c)"
    using app by (auto simp: c2_def insert_object_def Let_def payload_charged_bytes_def len split: cache_insert_placement.splits)
  have bytes: "cache_byte c2 x = (if cs \<le> x \<and> x < ce then Some (payload_data payload ! (x - cs)) else cache_byte c x)" for x
  proof -
    have "j \<noteq> ?i" if "em_at cached_at (rc_extents c) x = Some (j, off)" for j off
      using refs_okD [OF refs that] fresh by (auto simp: bt_get_def dest!: map_of_SomeD)
    then show ?thesis by (auto simp: cache_byte_def c2 at get split: option.splits)
  qed
  have "refs_ok c2"
  proof -
    have "\<forall>p \<in> set m2. ext_end (snd p) \<le> u64_max"
      using ends_iff [OF einv, of u64_max cached_at] refs ce(2) unfolding ends_iff [OF ins(2), of _ cached_at]
      by (auto simp: at refs_ok_def)
    moreover have "\<exists>ob. bt_get (rc_objects c2) j = Some ob \<and> off < length (payload_data (co_payload ob))"
      if "em_at cached_at m2 x = Some (j, off)" for x j off
      using that refs_okD [OF refs, of x j off] none
      by (auto simp: at c2 get len split: if_splits)
    ultimately show ?thesis using ins(2) by (simp add: refs_ok_def c2)
  qed
  moreover have "objects_ok c2"
    using obj fresh ce len
    by (auto simp: objects_ok_def c2 bt_sorted_def sorted_wrt_append payload_charged_bytes_def)
  ultimately have rb: "cache_inv (rebuild_backrefs_and_gc_with_inherited_lru c2 ?i pos placement)"
    "cache_byte (rebuild_backrefs_and_gc_with_inherited_lru c2 ?i pos placement) x = cache_byte c2 x"
    "rc_max_bytes (rebuild_backrefs_and_gc_with_inherited_lru c2 ?i pos placement) = rc_max_bytes c2" for x
    by (simp_all add: rebuild)
  have "replace_component c cs ce payload pos placement =
      (rebuild_backrefs_and_gc_with_inherited_lru c2 ?i pos placement, Inr ())"
    using rm(1) ins(1) by (cases placement) (simp_all add: replace_component_def with_extents_def insert_object_def Let_def c2_def)
  then show thesis using that rb bytes c2(3) by simp
qed

definition source_ok :: "read_cache \<Rightarrow> existing_source \<Rightarrow> bool" where
  "source_ok c s \<longleftrightarrow> es_start s < es_end s \<and> es_end s \<le> u64_max \<and>
    es_object_offset s + (es_end s - es_start s) \<le> length (payload_data (es_payload s)) \<and>
    (\<forall>x \<in> span s. cache_byte c x = Some (payload_data (es_payload s) ! (es_object_offset s + (x - es_start s))))"

lemma list_all_choice: "list_all (\<lambda>x. \<exists>y. P x y) xs \<Longrightarrow> \<exists>ys. list_all2 P xs ys"
  by (induction xs) (auto simp: list_all2_Cons1)

lemma list_all2_mem: "list_all2 P xs ys \<Longrightarrow> x \<in> set xs \<Longrightarrow> \<exists>y \<in> set ys. P x y"
  by (induction rule: list_all2_induct) auto

lemma existing_sources_ok:
  assumes "cache_inv c" "cache_block_start start + CACHE_BLOCK_BYTES \<le> u64_max"
  obtains ss where "existing_sources_for_window c start = Inr ss" "\<And>s. s \<in> set ss \<Longrightarrow> source_ok c s"
proof -
  let ?w = "cache_block_start start"
  let ?ps = "filter (\<lambda>p. fst p < ?w + CACHE_BLOCK_BYTES \<and> ?w < ext_end (snd p) \<and> ?w < ?w + CACHE_BLOCK_BYTES) (rc_extents c)"
  let ?f = "\<lambda>ext. and_then (ok_or cache_error (bt_get (rc_objects c) (cx_object_id (ee_value ext)))) (\<lambda>ob.
           Inr \<lparr>es_start = ee_start ext, es_end = ee_end ext, es_object_id = cx_object_id (ee_value ext),
                es_object_offset = cx_object_offset (ee_value ext), es_payload = co_payload ob\<rparr>)"
  have inv: "em_inv (rc_extents c)" and refs: "refs_ok c" using assms(1) by (auto simp: cache_inv_def refs_ok_def)
  have run: "existing_sources_for_window c start = try_map ?f (map extent_ref ?ps)"
    using overlapping_filter [OF inv, of ?w "?w + CACHE_BLOCK_BYTES"] assms(2)
    by (simp add: existing_sources_for_window_def Let_def checked_add_def)
  have one: "\<exists>s. ?f (extent_ref p) = Inr s \<and> source_ok c s" if p: "p \<in> set ?ps" for p
  proof -
    have mem: "p \<in> set (rc_extents c)" using p by simp
    obtain ob where ob: "bt_get (rc_objects c) (cx_object_id (ext_value (snd p))) = Some ob"
      "cx_object_offset (ext_value (snd p)) + (ext_end (snd p) - fst p) \<le> length (payload_data (co_payload ob))"
      "\<And>x. fst p \<le> x \<Longrightarrow> x < ext_end (snd p) \<Longrightarrow>
        cache_byte c x = Some (payload_data (co_payload ob) ! (cx_object_offset (ext_value (snd p)) + (x - fst p)))"
      using refs_okE [OF refs mem] by blast
    have "ext_end (snd p) \<le> u64_max" using refs mem by (simp add: refs_ok_def)
    then show ?thesis
      using em_inv_mem [OF inv mem] ob by (simp add: source_ok_def span_def)
  qed
  then have "list_all (\<lambda>p. \<exists>s. ?f (extent_ref p) = Inr s \<and> source_ok c s) ?ps" by (simp add: list_all_iff)
  then obtain ss where "list_all2 (\<lambda>p s. ?f (extent_ref p) = Inr s \<and> source_ok c s) ?ps ss"
    by (auto dest!: list_all_choice)
  then have "try_map ?f (map extent_ref ?ps) = Inr ss" "list_all (source_ok c) ss"
    unfolding try_map_Inr_iff list.rel_map by (auto elim: list.rel_mono_strong simp: list_all_length list_all2_conv_all_nth)
  then show thesis using that [of ss] run by (simp add: list_all_iff)
qed

lemma materialize_merged_ok:
  assumes comp: "component start stop {} (set conn) cs ce" and ok: "\<And>s. s \<in> set conn \<Longrightarrow> source_ok c s"
    and len: "start < stop" "length bs = stop - start"
  obtains merged where "materialize_merged_bytes cs ce start stop bs conn = Inr merged" "length merged = ce - cs"
    "\<And>x. cs \<le> x \<Longrightarrow> x < ce \<Longrightarrow>
      merged ! (x - cs) = (if start \<le> x \<and> x < stop then bs ! (x - start) else the (cache_byte c x))"
proof -
  let ?m = "foldl (\<lambda>m s. copy_source cs s m) (replicate (ce - cs) 0) conn"
  have lt: "es_start s < es_end s" if "s \<in> set conn" for s using ok [OF that] by (simp add: source_ok_def)
  have edge: "cs \<le> start" "stop \<le> ce" "{cs ..< ce} \<subseteq> {start ..< stop} \<union> \<Union> (span ` set conn)"
    using comp by (simp_all add: component_def)
  have "cs \<le> es_start s \<and> es_start s < es_end s \<and> es_end s \<le> cs + length (replicate (ce - cs) (0 :: u8)) \<and>
      es_object_offset s + (es_end s - es_start s) \<le> length (payload_data (es_payload s)) \<and>
      (\<forall>x \<in> span s. payload_data (es_payload s) ! (es_object_offset s + (x - es_start s)) = the (cache_byte c x))"
    if "s \<in> set conn" for s
    using component_bounds [OF comp that lt [OF that]] ok [OF that] by (auto simp: source_ok_def)
  from fold_copies [of conn cs "replicate (ce - cs) 0" "\<lambda>x. the (cache_byte c x)", OF this]
  have fold: "length ?m = ce - cs" "\<And>x. cs \<le> x \<Longrightarrow> x < ce \<Longrightarrow>
      ?m ! (x - cs) = (if \<exists>s \<in> set conn. x \<in> span s then the (cache_byte c x) else 0)" by auto
  have sl: "slice bs 0 (stop - start) = bs" using len by (simp add: slice_def)
  have "copy_bytes_source cs start stop 0 bs ?m ! (x - cs) =
      (if start \<le> x \<and> x < stop then bs ! (x - start) else the (cache_byte c x))" if x: "cs \<le> x" "x < ce" for x
  proof -
    have "start \<le> x \<and> x < stop \<or> (\<exists>s \<in> set conn. x \<in> span s)" using edge(3) x by auto
    then show ?thesis using fold(1) fold(2) [OF x] edge(1,2) len x
      by (auto simp: copy_bytes_source_def sl nth_copy_at)
  qed
  then show thesis
    using that [of "copy_bytes_source cs start stop 0 bs ?m"] component_covered [OF comp len(1) lt] fold(1) edge(1,2) len
    by (simp add: materialize_merged_bytes_def Let_def copy_bytes_source_def sl length_copy_at)
qed

lemma merged_wal_as_bytes:
  assumes "record_offset + (stop - start) \<le> length (wrec_data r)"
  shows "materialize_merged_wal_bytes cs ce start stop record_offset r conn =
    materialize_merged_bytes cs ce start stop (slice (wrec_data r) record_offset (stop - start)) conn"
  using assms
  by (simp add: materialize_merged_wal_bytes_def materialize_merged_bytes_def copy_wal_source_def copy_bytes_source_def
      slice_def)

text \<open>Inserting a window replaces exactly its bytes.\<close>

definition inserts :: "(read_cache \<times> (server_error, unit) result) \<Rightarrow> read_cache \<Rightarrow> nat \<Rightarrow> nat \<Rightarrow> (nat \<Rightarrow> u8) \<Rightarrow> bool" where
  "inserts cr c start stop f \<longleftrightarrow> (\<exists>c'. cr = (c', Inr ()) \<and> cache_inv c' \<and> rc_max_bytes c' = rc_max_bytes c \<and>
    (\<forall>x. cache_byte c' x = (if start \<le> x \<and> x < stop then Some (f x) else cache_byte c x)))"

lemma component_inserts:
  assumes inv: "cache_inv c" and ok: "\<And>s. s \<in> set conn \<Longrightarrow> source_ok c s"
    and comp: "component start stop {} (set conn) cs ce"
    and win: "start < stop" "stop \<le> u64_max" "length bs = stop - start"
    and merged: "payload = Inr p" "length (payload_data p) = ce - cs"
      "\<And>x. cs \<le> x \<Longrightarrow> x < ce \<Longrightarrow>
        payload_data p ! (x - cs) = (if start \<le> x \<and> x < stop then bs ! (x - start) else the (cache_byte c x))"
  shows "inserts (then_st (c, payload) (\<lambda>c p. replace_component c cs ce p pos placement)) c start stop (\<lambda>x. bs ! (x - start))"
proof -
  have edge: "cs \<le> start" "stop \<le> ce" "{cs ..< ce} \<subseteq> {start ..< stop} \<union> \<Union> (span ` set conn)"
    "ce = stop \<or> ce \<in> es_end ` set conn"
    using comp by (simp_all add: component_def)
  have "ce \<le> u64_max" using edge(4) win(2) ok by (auto simp: source_ok_def)
  moreover have "cs < ce" using edge(1,2) win(1) by linarith
  ultimately obtain c' where c': "replace_component c cs ce p pos placement = (c', Inr ())" "cache_inv c'"
    "rc_max_bytes c' = rc_max_bytes c"
    "\<And>x. cache_byte c' x = (if cs \<le> x \<and> x < ce then Some (payload_data p ! (x - cs)) else cache_byte c x)"
    using replace_component_ok [OF inv _ _ merged(2)] by blast
  have "cache_byte c' x = (if start \<le> x \<and> x < stop then Some (bs ! (x - start)) else cache_byte c x)" for x
  proof (cases "cs \<le> x \<and> x < ce")
    case True
    then have "start \<le> x \<and> x < stop \<or> (\<exists>s \<in> set conn. x \<in> span s)" using edge(3) by auto
    then show ?thesis using True c'(4) [of x] merged(3) [of x] ok by (auto simp: source_ok_def)
  next
    case False
    then show ?thesis using c'(4) [of x] edge(1,2) by auto
  qed
  then show ?thesis using c' merged(1) by (auto simp: inserts_def)
qed

lemma insert_window_bytes_inserts:
  assumes inv: "cache_inv c" and win: "start < stop" "stop \<le> u64_max" "length bs = stop - start"
    and block: "cache_block_start start + CACHE_BLOCK_BYTES \<le> u64_max"
  shows "inserts (insert_window_bytes c start stop bs placement) c start stop (\<lambda>x. bs ! (x - start))"
proof -
  obtain ss where ss: "existing_sources_for_window c start = Inr ss" "\<And>s. s \<in> set ss \<Longrightarrow> source_ok c s"
    using existing_sources_ok [OF inv block] by blast
  let ?conn = "connected_sources start stop ss"
  let ?cs = "component_start start ?conn" and ?ce = "component_end stop ?conn"
  have lt: "es_start s < es_end s" if "s \<in> set ss" for s using ss(2) [OF that] by (simp add: source_ok_def)
  note spec = connected_sources_spec [OF lt win(1)]
  have ok: "source_ok c s" if "s \<in> set ?conn" for s using ss(2) spec(1) that by blast
  obtain merged where m: "materialize_merged_bytes ?cs ?ce start stop bs ?conn = Inr merged" "length merged = ?ce - ?cs"
    "\<And>x. ?cs \<le> x \<Longrightarrow> x < ?ce \<Longrightarrow>
      merged ! (x - ?cs) = (if start \<le> x \<and> x < stop then bs ! (x - start) else the (cache_byte c x))"
    using materialize_merged_ok [OF spec(2) ok win(1,3)] by blast
  let ?p = "if ?conn = [] \<and> ?cs = start \<and> ?ce = stop then bs else merged"
  have p: "length (payload_data (PayloadBytes ?p)) = ?ce - ?cs" "\<And>x. ?cs \<le> x \<Longrightarrow> x < ?ce \<Longrightarrow>
      payload_data (PayloadBytes ?p) ! (x - ?cs) = (if start \<le> x \<and> x < stop then bs ! (x - start) else the (cache_byte c x))"
    using m(2,3) win(3) by auto
  have "inserts (then_st (c, Inr (PayloadBytes ?p)) (\<lambda>c p. replace_component c ?cs ?ce p
      (coldest_position (map es_object_id ?conn) (rc_lru c)) placement)) c start stop (\<lambda>x. bs ! (x - start))"
    using component_inserts [OF inv ok spec(2) win refl p] by simp
  moreover have pick: "(if b then Inr (PayloadBytes bs) else Inr (PayloadBytes merged)) =
    (Inr (PayloadBytes (if b then bs else merged)) :: (server_error, cache_payload) result)" for b by simp
  have "insert_window_bytes c start stop bs placement =
    then_st (c, Inr (PayloadBytes ?p)) (\<lambda>c p. replace_component c ?cs ?ce p
      (coldest_position (map es_object_id ?conn) (rc_lru c)) placement)"
    unfolding insert_window_bytes_def Let_def ss(1) then_st.simps m(1) and_then.simps pick ..
  ultimately show ?thesis by simp
qed

lemma insert_window_wal_inserts:
  assumes inv: "cache_inv c" and win: "start < stop" "stop \<le> u64_max" "off + (stop - start) \<le> length (wrec_data r)"
    and block: "cache_block_start start + CACHE_BLOCK_BYTES \<le> u64_max"
  shows "inserts (insert_window_wal_record c start stop r off placement) c start stop (\<lambda>x. wrec_data r ! (off + (x - start)))"
proof -
  let ?bs = "slice (wrec_data r) off (stop - start)"
  have bs: "length ?bs = stop - start" using win(3) by (simp add: length_slice)
  obtain ss where ss: "existing_sources_for_window c start = Inr ss" "\<And>s. s \<in> set ss \<Longrightarrow> source_ok c s"
    using existing_sources_ok [OF inv block] by blast
  let ?conn = "connected_sources start stop ss"
  let ?cs = "component_start start ?conn" and ?ce = "component_end stop ?conn"
  have lt: "es_start s < es_end s" if "s \<in> set ss" for s using ss(2) [OF that] by (simp add: source_ok_def)
  note spec = connected_sources_spec [OF lt win(1)]
  have ok: "source_ok c s" if "s \<in> set ?conn" for s using ss(2) spec(1) that by blast
  obtain merged where m: "materialize_merged_bytes ?cs ?ce start stop ?bs ?conn = Inr merged" "length merged = ?ce - ?cs"
    "\<And>x. ?cs \<le> x \<Longrightarrow> x < ?ce \<Longrightarrow>
      merged ! (x - ?cs) = (if start \<le> x \<and> x < stop then ?bs ! (x - start) else the (cache_byte c x))"
    using materialize_merged_ok [OF spec(2) ok win(1) bs] by blast
  let ?keep = "?conn = [] \<and> off = 0 \<and> stop - start = length (wrec_data r) \<and> length (wrec_data r) \<le> CACHE_BLOCK_BYTES"
  let ?p = "if ?keep then PayloadWal r else PayloadBytes merged"
  have one: "?cs = start" "?ce = stop" "wrec_data r = ?bs" if ?keep
    using that by (simp_all add: component_start_def component_end_def slice_def)
  have p: "length (payload_data ?p) = ?ce - ?cs" "\<And>x. ?cs \<le> x \<Longrightarrow> x < ?ce \<Longrightarrow>
      payload_data ?p ! (x - ?cs) = (if start \<le> x \<and> x < stop then ?bs ! (x - start) else the (cache_byte c x))"
    using one m(2,3) by auto
  have "inserts (then_st (c, Inr ?p) (\<lambda>c p. replace_component c ?cs ?ce p
      (coldest_position (map es_object_id ?conn) (rc_lru c)) placement)) c start stop (\<lambda>x. ?bs ! (x - start))"
    using component_inserts [OF inv ok spec(2) win(1,2) bs refl p] by simp
  moreover have "insert_window_wal_record c start stop r off placement =
    then_st (c, Inr ?p) (\<lambda>c p. replace_component c ?cs ?ce p
      (coldest_position (map es_object_id ?conn) (rc_lru c)) placement)"
    using ss(1) m(1) merged_wal_as_bytes [OF win(3)] by (simp add: insert_window_wal_record_def Let_def)
  moreover have "?bs ! (x - start) = wrec_data r ! (off + (x - start))" if "start \<le> x" "x < stop" for x
    using win(3) that by (simp add: nth_slice)
  ultimately show ?thesis by (auto simp: inserts_def)
qed

lemma window_loop_inserts:
  assumes "cache_inv c" "lo \<le> start" "start \<le> stop" "stop + CACHE_BLOCK_BYTES \<le> u64_max"
    and "\<And>c s e. cache_inv c \<Longrightarrow> lo \<le> s \<Longrightarrow> s < e \<Longrightarrow> e \<le> stop \<Longrightarrow> inserts (iw c s e) c s e f"
  shows "inserts (window_loop iw start stop c) c start stop f"
  using assms
proof (induction iw start stop c rule: window_loop.induct)
  case (1 iw start stop c)
  show ?case
  proof (cases "start < stop")
    case False
    then show ?thesis using 1(2,4) by (subst window_loop.simps) (auto simp: inserts_def)
  next
    case True
    let ?w = "cache_block_start start + CACHE_BLOCK_BYTES" let ?e = "min stop ?w"
    have w: "start < ?w" "?w \<le> start + CACHE_BLOCK_BYTES"
      using div_mult_mod_eq [of start CACHE_BLOCK_BYTES] mod_less_divisor [of CACHE_BLOCK_BYTES start]
      by (auto simp: cache_block_start_def CACHE_BLOCK_BYTES_def)
    then have bl: "cache_block_end start = Inr ?w" using 1(5) True by (simp add: cache_block_end_def checked_arith)
    have "inserts (iw c start ?e) c start ?e f" using 1(6) [OF 1(2,3)] True w(1) by simp
    then obtain c1 where c1: "iw c start ?e = (c1, Inr ())" "cache_inv c1" "rc_max_bytes c1 = rc_max_bytes c"
      "\<And>x. cache_byte c1 x = (if start \<le> x \<and> x < ?e then Some (f x) else cache_byte c x)"
      by (auto simp: inserts_def)
    have "inserts (window_loop iw ?e stop c1) c1 ?e stop f"
      using 1(1) [OF True prod.inject [THEN iffD2] refl c1(1)] 1(3,5,6) bl c1(2) True w(1) by simp
    moreover have "window_loop iw start stop c = window_loop iw ?e stop c1"
      using True bl c1(1) by (subst window_loop.simps) (simp add: Let_def)
    ultimately show ?thesis using c1(3,4) True w(1) by (auto simp: inserts_def)
  qed
qed

section \<open>The operations\<close>

definition range_fits :: "byte_range \<Rightarrow> bool" where
  "range_fits rng \<longleftrightarrow> br_start rng + br_len rng + CACHE_BLOCK_BYTES \<le> u64_max"

lemma range_fits_end: "range_fits rng \<Longrightarrow> range_end rng = br_start rng + br_len rng"
  by (simp add: range_fits_def range_end_def saturating_add_def)

lemma block_fits:
  assumes "range_fits rng" "s \<le> br_start rng + br_len rng"
  shows "cache_block_start s + CACHE_BLOCK_BYTES \<le> u64_max"
proof -
  have "cache_block_start s \<le> s" by (simp add: cache_block_start_def)
  then show ?thesis using assms unfolding range_fits_def by linarith
qed

text \<open>After an insertion and its evictions, a byte is what was inserted, what was there, or not cached.\<close>

definition adds :: "(read_cache \<times> (server_error, unit) result) \<Rightarrow> read_cache \<Rightarrow> byte_range \<Rightarrow> (nat \<Rightarrow> u8) \<Rightarrow> bool" where
  "adds cr c rng f \<longleftrightarrow> (\<exists>c'. cr = (c', Inr ()) \<and> cache_inv c' \<and> rc_max_bytes c' = rc_max_bytes c \<and>
    (\<not> range_is_empty rng \<longrightarrow> rc_charged_bytes c' \<le> rc_max_bytes c') \<and>
    (\<forall>x. cache_byte c' x \<in> {None, if x \<in> range_bytes rng then Some (f x) else cache_byte c x}))"

lemma evicted_adds:
  assumes "inserts cr c (br_start rng) (br_start rng + br_len rng) f"
  shows "adds (then_st cr (\<lambda>c _. evict_to_budget c)) c rng f"
proof -
  obtain c1 where c1: "cr = (c1, Inr ())" "cache_inv c1" "rc_max_bytes c1 = rc_max_bytes c"
    "\<And>x. cache_byte c1 x = (if br_start rng \<le> x \<and> x < br_start rng + br_len rng then Some (f x) else cache_byte c x)"
    using assms by (auto simp: inserts_def)
  obtain c2 where "evict_to_budget c1 = (c2, Inr ())" "cache_inv c2" "forgets c1 c2" "rc_max_bytes c2 = rc_max_bytes c1"
    "rc_charged_bytes c2 \<le> rc_max_bytes c2" using evict_to_budget_ok [OF c1(2)] by blast
  then show ?thesis using c1 by (simp add: adds_def forgets_def range_bytes_def)
qed

lemma insert_bytes_adds:
  assumes inv: "cache_inv c" and fits: "range_fits rng" and len: "length bs = br_len rng"
  shows "adds (insert_bytes c rng bs placement) c rng (\<lambda>x. bs ! (x - br_start rng))"
proof (cases "range_is_empty rng")
  case True
  then show ?thesis using inv len by (auto simp: insert_bytes_def adds_def range_bytes_def range_is_empty_def)
next
  case False
  let ?lo = "br_start rng" and ?hi = "br_start rng + br_len rng"
  have "inserts (insert_window_bytes c s e (slice bs (s - ?lo) (e - s)) placement) c s e (\<lambda>x. bs ! (x - ?lo))"
    if "cache_inv c" "?lo \<le> s" "s < e" "e \<le> ?hi" for c s e
  proof -
    have block: "cache_block_start s + CACHE_BLOCK_BYTES \<le> u64_max"
      using block_fits [OF fits] that(3,4) by simp
    have sl: "s - ?lo + (e - s) \<le> length bs" using len that by simp
    have "inserts (insert_window_bytes c s e (slice bs (s - ?lo) (e - s)) placement) c s e
      (\<lambda>x. slice bs (s - ?lo) (e - s) ! (x - s))"
      by (rule insert_window_bytes_inserts [OF that(1,3) _ _ block])
        (use that fits sl in \<open>simp_all add: range_fits_def length_slice\<close>)
    moreover have "slice bs (s - ?lo) (e - s) ! (x - s) = bs ! (x - ?lo)" if "s \<le> x" "x < e" for x
      using sl that \<open>?lo \<le> s\<close> by (simp add: nth_slice)
    ultimately show ?thesis by (auto simp: inserts_def)
  qed
  from evicted_adds [OF window_loop_inserts [OF inv order.refl _ _ this]] show ?thesis
    using False fits len by (simp add: insert_bytes_def range_fits_end range_fits_def)
qed

lemma insert_wal_record_slice_adds:
  assumes inv: "cache_inv c" and fits: "range_fits rng" and len: "off + br_len rng \<le> length (wrec_data r)"
    "length (wrec_data r) \<le> u64_max"
  shows "adds (insert_wal_record_slice c rng r off placement) c rng (\<lambda>x. wrec_data r ! (off + (x - br_start rng)))"
proof (cases "range_is_empty rng")
  case True
  then show ?thesis using inv len
    by (auto simp: insert_wal_record_slice_def adds_def range_bytes_def range_is_empty_def checked_add_def)
next
  case False
  let ?lo = "br_start rng" and ?hi = "br_start rng + br_len rng"
  have "inserts (then_st (c, ok_or (Wal ''insert read cache WAL record'') (checked_add off (s - ?lo)))
      (\<lambda>c off. insert_window_wal_record c s e r off placement)) c s e (\<lambda>x. wrec_data r ! (off + (x - ?lo)))"
    if "cache_inv c" "?lo \<le> s" "s < e" "e \<le> ?hi" for c s e
  proof -
    have block: "cache_block_start s + CACHE_BLOCK_BYTES \<le> u64_max"
      using block_fits [OF fits] that(3,4) by simp
    have "inserts (insert_window_wal_record c s e r (off + (s - ?lo)) placement) c s e
      (\<lambda>x. wrec_data r ! (off + (s - ?lo) + (x - s)))"
      by (rule insert_window_wal_inserts [OF that(1,3) _ _ block]) (use that fits len in \<open>simp_all add: range_fits_def\<close>)
    moreover have "off + (s - ?lo) + (x - s) = off + (x - ?lo)" if "s \<le> x" for x using that \<open>?lo \<le> s\<close> by simp
    moreover have "checked_add off (s - ?lo) = Some (off + (s - ?lo))" using len that by (simp add: checked_add_def)
    ultimately show ?thesis by (auto simp: inserts_def)
  qed
  from evicted_adds [OF window_loop_inserts [OF inv order.refl _ _ this]] show ?thesis
    using False fits len by (simp add: insert_wal_record_slice_def range_fits_end range_fits_def checked_add_def)
qed

lemma trim_range_ok:
  assumes inv: "cache_inv c" and "range_end rng = br_start rng + br_len rng"
  obtains c' where "trim_range c rng = (c', Inr ())" "cache_inv c'" "rc_max_bytes c' = rc_max_bytes c"
    "\<And>x. cache_byte c' x = (if x \<in> range_bytes rng then None else cache_byte c x)"
proof (cases "range_is_empty rng")
  case True
  then show thesis using that inv by (simp add: trim_range_def range_bytes_def range_is_empty_def)
next
  case False
  have einv: "em_inv (rc_extents c)" and refs: "refs_ok c" using inv by (auto simp: cache_inv_def refs_ok_def)
  have le: "br_start rng \<le> range_end rng" using assms(2) by simp
  obtain m removed where rm: "remove_range_with_split cache_split_at (rc_extents c) (br_start rng) (range_end rng) = (m, Inr removed)"
    "em_inv m" "\<And>x. em_at cached_at m x = (if br_start rng \<le> x \<and> x < range_end rng then None else em_at cached_at (rc_extents c) x)"
    using cached.remove_range_at [OF einv le] by metis
  let ?c = "c\<lparr>rc_extents := m\<rparr>"
  have "\<forall>p \<in> set m. ext_end (snd p) \<le> u64_max"
    using ends_iff [OF einv, of u64_max cached_at] refs unfolding ends_iff [OF rm(2), of _ cached_at]
    by (auto simp: rm(3) refs_ok_def)
  then have "refs_ok ?c" using refs rm(2,3) by (auto simp: refs_ok_def)
  moreover have "objects_ok ?c" using inv by (simp add: cache_inv_def objects_ok_def)
  ultimately have "cache_inv (rebuild_backrefs_and_gc ?c)" "\<And>x. cache_byte (rebuild_backrefs_and_gc ?c) x = cache_byte ?c x"
    "rc_max_bytes (rebuild_backrefs_and_gc ?c) = rc_max_bytes ?c"
    by (simp_all add: rebuild rebuild_backrefs_and_gc_def)
  moreover have "cache_byte ?c x = (if x \<in> range_bytes rng then None else cache_byte c x)" for x
    using assms(2) by (simp add: cache_byte_def rm(3) range_bytes_def split: option.split)
  ultimately show thesis using that [of "rebuild_backrefs_and_gc ?c"] False rm(1) by (simp add: trim_range_def with_extents_def)
qed

lemma cache_byte_lru [simp]: "cache_byte (c\<lparr>rc_lru := order\<rparr>) x = cache_byte c x"
  by (simp add: cache_byte_def split: option.split)

lemma promote_hits_ok:
  assumes "cache_inv c"
  shows "cache_inv (promote_hits c hits)" "cache_byte (promote_hits c hits) x = cache_byte c x"
    "rc_max_bytes (promote_hits c hits) = rc_max_bytes c"
proof -
  let ?P = "\<lambda>c'. cache_inv c' \<and> (\<forall>x. cache_byte c' x = cache_byte c x) \<and> rc_max_bytes c' = rc_max_bytes c"
  have step: "?P (c'\<lparr>rc_lru := lru_promote i (rc_lru c')\<rparr>)" if "?P c'" for c' i
  proof -
    have "distinct (rc_lru c')" using that by (simp add: cache_inv_def objects_ok_def)
    then have "set (lru_promote i (rc_lru c')) = set (rc_lru c')" "distinct (lru_promote i (rc_lru c'))"
      using lru_remove_set [of "rc_lru c'" i] by (auto simp: lru_promote_def)
    then show ?thesis
      using that by (simp add: cache_inv_def refs_ok_def objects_ok_def starts_ok_def)
  qed
  have "?P (promote_hits c hits)"
    unfolding promote_hits_def
    by (induction hits rule: rev_induct) (use assms step in auto)
  then show "cache_inv (promote_hits c hits)" "cache_byte (promote_hits c hits) x = cache_byte c x"
    "rc_max_bytes (promote_hits c hits) = rc_max_bytes c" by auto
qed

text \<open>A slice returned by a lookup carries the cached bytes of its span.\<close>

definition cslice_ok :: "read_cache \<Rightarrow> byte_range \<Rightarrow> cache_read_slice \<Rightarrow> bool" where
  "cslice_ok c rng s \<longleftrightarrow> br_start rng \<le> cs_start s \<and> cs_start s < cs_end s \<and> cs_end s \<le> range_end rng \<and>
    cs_object_offset s + (cs_end s - cs_start s) \<le> length (payload_data (cs_payload s)) \<and>
    length (payload_data (cs_payload s)) \<le> u64_max \<and>
    (\<forall>x. cs_start s \<le> x \<longrightarrow> x < cs_end s \<longrightarrow>
      cache_byte c x = Some (payload_data (cs_payload s) ! (cs_object_offset s + (x - cs_start s))))"

lemma cache_read_slices_ok:
  assumes inv: "cache_inv c" and le: "br_start rng \<le> range_end rng"
  obtains ss where "cache_read_slices c rng = Inr ss" "\<And>s. s \<in> set ss \<Longrightarrow> cslice_ok c rng s"
    "\<And>x. br_start rng \<le> x \<Longrightarrow> x < range_end rng \<Longrightarrow>
      (\<exists>s \<in> set ss. cs_start s \<le> x \<and> x < cs_end s) \<longleftrightarrow> cache_byte c x \<noteq> None"
proof -
  let ?lo = "br_start rng" and ?hi = "range_end rng"
  let ?ps = "filter (\<lambda>p. fst p < ?hi \<and> ?lo < ext_end (snd p) \<and> ?lo < ?hi) (rc_extents c)"
  let ?f = "\<lambda>ext. let slice_start = max ?lo (ee_start ext); slice_end = min ?hi (ee_end ext) in
         and_then (ok_or cache_error (bt_get (rc_objects c) (cx_object_id (ee_value ext)))) (\<lambda>ob.
         and_then (ok_or cache_error (checked_add (cx_object_offset (ee_value ext)) (slice_start - ee_start ext))) (\<lambda>off.
           Inr \<lparr>cs_start = slice_start, cs_end = slice_end, cs_object_id = cx_object_id (ee_value ext),
                cs_object_offset = off, cs_payload = co_payload ob\<rparr>))"
  have einv: "em_inv (rc_extents c)" and refs: "refs_ok c" and objs: "objects_ok c"
    using inv by (auto simp: cache_inv_def refs_ok_def)
  have run: "cache_read_slices c rng = try_map ?f (map extent_ref ?ps)"
    using overlapping_filter [OF einv le] by (simp add: cache_read_slices_def Let_def)
  have one: "\<exists>s. ?f (extent_ref p) = Inr s \<and> cslice_ok c rng s \<and> cs_start s = max ?lo (fst p) \<and> cs_end s = min ?hi (ext_end (snd p))"
    if p: "p \<in> set ?ps" for p
  proof -
    have mem: "p \<in> set (rc_extents c)" using p by simp
    obtain ob where ob: "bt_get (rc_objects c) (cx_object_id (ext_value (snd p))) = Some ob"
      "cx_object_offset (ext_value (snd p)) + (ext_end (snd p) - fst p) \<le> length (payload_data (co_payload ob))"
      "\<And>x. fst p \<le> x \<Longrightarrow> x < ext_end (snd p) \<Longrightarrow>
        cache_byte c x = Some (payload_data (co_payload ob) ! (cx_object_offset (ext_value (snd p)) + (x - fst p)))"
      using refs_okE [OF refs mem] by blast
    have len: "length (payload_data (co_payload ob)) \<le> u64_max"
      using objs ob(1) by (force simp: objects_ok_def bt_get_def dest: map_of_SomeD)
    have lt: "fst p < ext_end (snd p)" using em_inv_mem [OF einv mem] .
    let ?off = "cx_object_offset (ext_value (snd p)) + (max ?lo (fst p) - fst p)"
    let ?s = "\<lparr>cs_start = max ?lo (fst p), cs_end = min ?hi (ext_end (snd p)), cs_object_id = cx_object_id (ext_value (snd p)),
      cs_object_offset = ?off, cs_payload = co_payload ob\<rparr>"
    have "?off \<le> u64_max" using ob(2) len p lt by auto
    then have "?f (extent_ref p) = Inr ?s" using ob(1) by (simp add: checked_add_def Let_def)
    moreover have "?off + (x - max ?lo (fst p)) = cx_object_offset (ext_value (snd p)) + (x - fst p)"
      if "max ?lo (fst p) \<le> x" for x using that by simp
    then have "cslice_ok c rng ?s" using ob(2,3) p lt len by (auto simp: cslice_ok_def)
    ultimately show ?thesis by (intro exI [of _ ?s]) simp
  qed
  then have "list_all (\<lambda>p. \<exists>s. ?f (extent_ref p) = Inr s \<and> cslice_ok c rng s \<and>
      cs_start s = max ?lo (fst p) \<and> cs_end s = min ?hi (ext_end (snd p))) ?ps" by (simp add: list_all_iff)
  then obtain ss where ss: "list_all2 (\<lambda>p s. ?f (extent_ref p) = Inr s \<and> cslice_ok c rng s \<and>
      cs_start s = max ?lo (fst p) \<and> cs_end s = min ?hi (ext_end (snd p))) ?ps ss"
    by (auto dest!: list_all_choice)
  then have r: "try_map ?f (map extent_ref ?ps) = Inr ss" "list_all (cslice_ok c rng) ss"
    unfolding try_map_Inr_iff list.rel_map by (auto elim: list.rel_mono_strong simp: list_all_length list_all2_conv_all_nth)
  have "(\<exists>s \<in> set ss. cs_start s \<le> x \<and> x < cs_end s) \<longleftrightarrow> cache_byte c x \<noteq> None" if x: "?lo \<le> x" "x < ?hi" for x
  proof
    assume "\<exists>s \<in> set ss. cs_start s \<le> x \<and> x < cs_end s"
    then show "cache_byte c x \<noteq> None" using r(2) by (auto simp: list_all_iff cslice_ok_def)
  next
    assume "cache_byte c x \<noteq> None"
    then obtain v where "em_at cached_at (rc_extents c) x = Some v" by (auto simp: cache_byte_def split: option.splits)
    then obtain p where p: "p \<in> set (rc_extents c)" "fst p \<le> x" "x < ext_end (snd p)" by (rule em_at_SomeE)
    then have "p \<in> set ?ps" using x by auto
    from list_all2_mem [OF ss this] obtain s where "s \<in> set ss" "cs_start s = max ?lo (fst p)"
      "cs_end s = min ?hi (ext_end (snd p))" by blast
    then show "\<exists>s \<in> set ss. cs_start s \<le> x \<and> x < cs_end s" using x p by (intro bexI [of _ s]) simp_all
  qed
  then show thesis using that [of ss] r run by (simp add: list_all_iff)
qed

lemma slice_copy_to_ok:
  assumes ok: "cslice_ok c sub s" and sub: "br_start rng \<le> br_start sub" "range_end sub \<le> range_end rng"
    and len: "length data = br_len rng" "range_end rng = br_start rng + br_len rng"
  obtains data' where "slice_copy_to s rng data = Inr data'" "length data' = br_len rng"
    "\<And>x. br_start rng \<le> x \<Longrightarrow> x < range_end rng \<Longrightarrow> data' ! (x - br_start rng) =
      (if cs_start s \<le> x \<and> x < cs_end s then the (cache_byte c x) else data ! (x - br_start rng))"
proof -
  let ?src = "slice (payload_data (cs_payload s)) (cs_object_offset s) (cs_end s - cs_start s)"
  have b: "br_start rng \<le> cs_start s" "cs_start s < cs_end s" "cs_end s \<le> range_end rng"
    "cs_object_offset s + (cs_end s - cs_start s) \<le> length (payload_data (cs_payload s))"
    "length (payload_data (cs_payload s)) \<le> u64_max"
    "\<And>x. cs_start s \<le> x \<Longrightarrow> x < cs_end s \<Longrightarrow>
      cache_byte c x = Some (payload_data (cs_payload s) ! (cs_object_offset s + (x - cs_start s)))"
    using ok sub by (auto simp: cslice_ok_def)
  have "checked_add (cs_object_offset s) 0 = Some (cs_object_offset s)" using b(2,4,5) by (simp add: checked_add_def)
  then have "slice_copy_to s rng data = Inr (copy_at data (cs_start s - br_start rng) ?src)"
    using b(1-3) by (simp add: slice_copy_to_def Let_def payload_copy_to_def max_absorb2 min_absorb2)
  moreover have "copy_at data (cs_start s - br_start rng) ?src ! (x - br_start rng) =
      (if cs_start s \<le> x \<and> x < cs_end s then the (cache_byte c x) else data ! (x - br_start rng))"
    if "br_start rng \<le> x" "x < range_end rng" for x
    using that b(1-4) b(6) [of x] len by (auto simp: slice_simps)
  ultimately show thesis using that b(1-4) len by (simp add: slice_simps)
qed

section \<open>Properties\<close>

text \<open>
  C34. Inserting bytes into a well-formed cache always succeeds, whatever the cache holds: the
  merge of the touching extents covers its component, so the coverage check never fails, and
  the loops over blocks, sources and evictions end. Afterwards a byte of the range is cached
  with the inserted value or not at all, a byte outside keeps its value or is forgotten, and
  the charged bytes are within the budget.
\<close>

theorem insert_bytes_within_budget:
  assumes "cache_inv c" "length bs = br_len rng" "0 < br_len rng" "range_fits rng"
  shows "\<exists>c'. insert_bytes c rng bs placement = (c', Inr ()) \<and> cache_inv c' \<and>
    rc_charged_bytes c' \<le> rc_max_bytes c' \<and> rc_max_bytes c' = rc_max_bytes c \<and>
    (\<forall>x. cache_byte c' x = None \<or>
      cache_byte c' x = (if x \<in> range_bytes rng then Some (bs ! (x - br_start rng)) else cache_byte c x))"
  using insert_bytes_adds [OF assms(1,4,2), of placement] assms(3)
  unfolding adds_def range_is_empty_def insert_iff empty_iff by blast

theorem insert_bytes_within_budget_witness:
  "\<exists>c'. insert_bytes (cache_new 4) (new_range 2 3) [7, 8, 9] Hot = (c', Inr ()) \<and> cache_inv c' \<and>
    rc_charged_bytes c' \<le> rc_max_bytes c' \<and> rc_max_bytes c' = rc_max_bytes (cache_new 4) \<and>
    (\<forall>x. cache_byte c' x = None \<or>
      cache_byte c' x = (if x \<in> range_bytes (new_range 2 3) then Some ([7, 8, 9] ! (x - br_start (new_range 2 3)))
        else cache_byte (cache_new 4) x))"
  by (rule insert_bytes_within_budget) (simp_all add: range_fits_def CACHE_BLOCK_BYTES_def u64_max_def)

end
