(* ===== verification/Blob_Store.thy ===== *)
theory Blob_Store
  imports Wal_Local
begin

text \<open>
  Chunk storage, from \<open>nbd-server/src/storage/{mod,local}.rs\<close>: the local blob store, a
  directory with one file per blob, and the allocation of random keys. Every file operation
  can fail as \<open>io_fails\<close> says, and \<open>io_written\<close> is how much of a failing write reaches the
  file. Random keys and temporary names are parameters. The lemmas show that storing a blob
  never changes an existing one and that replacing a blob is atomic.
\<close>

section \<open>The local store\<close>

type_synonym blob_dir = wal_dir

datatype file_error = FileAlreadyExists | FileFailed

text \<open>
  The file name of a key. Keys that pass \<open>BlobKey::new\<close> have no path separator and are not
  dots, so that joining them to the root stays inside it; other names would escape.
\<close>

definition blob_path :: "blob_key \<Rightarrow> (server_error, string) result" where
  "blob_path key = (if is_ok (new_blob_key key) then Inr key else Inl (Io ''resolve blob path''))"

definition ensure_root_dir :: "io_env \<Rightarrow> (server_error, unit) result" where
  "ensure_root_dir io = io_step io ''create blob directory'' []"

definition write_new_file :: "io_env \<Rightarrow> blob_dir \<Rightarrow> string \<Rightarrow> bytes \<Rightarrow> blob_dir \<times> (file_error, unit) result" where
  "write_new_file io dir path data =
    (if io_fails io ''open new file'' path then (dir, Inl FileFailed)
     else if file_bytes dir path \<noteq> None then (dir, Inl FileAlreadyExists)
     else if io_fails io ''write file'' path then (put_file dir path (take (io_written io) data), Inl FileFailed)
     else if io_fails io ''sync file'' path then (put_file dir path data, Inl FileFailed)
     else (put_file dir path data, Inr ()))"

text \<open>A platform that rejects directory synchronisation counts as success.\<close>

definition sync_blob_directory :: "io_env \<Rightarrow> (server_error, unit) result" where
  "sync_blob_directory io = io_step io ''sync blob directory'' []"

definition put_blob :: "io_env \<Rightarrow> blob_dir \<Rightarrow> blob_key \<Rightarrow> bytes \<Rightarrow> blob_dir \<times> (server_error, unit) result" where
  "put_blob io dir key data =
    then_st (dir, ensure_root_dir io) (\<lambda>dir _.
    then_st (dir, blob_path key) (\<lambda>dir path.
      case write_new_file io dir path data of
        (dir, Inr _) \<Rightarrow> (dir, sync_blob_directory io)
      | (dir, Inl FileAlreadyExists) \<Rightarrow> (dir, Inl (BlobAlreadyExists ''put blob'' key))
      | (dir, Inl FileFailed) \<Rightarrow>
          (if io_fails io ''remove file'' path then dir else drop_file dir path, Inl (Io ''put blob''))))"

definition get_blob :: "io_env \<Rightarrow> blob_dir \<Rightarrow> blob_key \<Rightarrow> nat \<Rightarrow> nat \<Rightarrow> (server_error, bytes) result" where
  "get_blob io dir key off len =
    and_then (blob_path key) (\<lambda>path.
      case (if io_fails io ''open blob for get'' path then None else file_bytes dir path) of
        None \<Rightarrow> Inl (Io ''open blob for get'')
      | Some data \<Rightarrow>
          if io_fails io ''seek blob'' path then Inl (Io ''seek blob'')
          else if io_fails io ''read blob'' path \<or> length data < off + len then Inl (Io ''read blob'')
          else Inr (slice data off len))"

definition temp_key :: "string \<Rightarrow> string" where
  "temp_key rand = ''.tmp-'' @ rand"

definition overwrite_blob ::
  "io_env \<Rightarrow> string \<Rightarrow> blob_dir \<Rightarrow> blob_key \<Rightarrow> bytes \<Rightarrow> blob_dir \<times> (server_error, unit) result" where
  "overwrite_blob io rand dir key data =
    then_st (dir, ensure_root_dir io) (\<lambda>dir _.
    then_st (dir, blob_path key) (\<lambda>dir path.
    if io_fails io ''stat blob before overwrite'' path \<or> file_bytes dir path = None
    then (dir, Inl (Io ''stat blob before overwrite''))
    else
    then_st (dir, map_err catalog_err (new_blob_key (temp_key rand))) (\<lambda>dir tkey.
    then_st (dir, blob_path tkey) (\<lambda>dir tpath.
      case write_new_file io dir tpath data of
        (dir, Inl _) \<Rightarrow> (dir, Inl (Io ''write replacement blob''))
      | (dir, Inr _) \<Rightarrow>
          if io_fails io ''rename replacement blob'' path
          then (if io_fails io ''remove file'' tpath then dir else drop_file dir tpath,
                Inl (Io ''rename replacement blob''))
          else (put_file (drop_file dir tpath) path data, sync_blob_directory io)))))"

section \<open>Random keys\<close>

fun is_blob_already_exists :: "server_error \<Rightarrow> bool" where
  "is_blob_already_exists (BlobAlreadyExists _ _) = True"
| "is_blob_already_exists _ = False"

text \<open>
  \<open>BlobKey::random\<close> draws the next key of the supply \<open>keys\<close>; the state counts the keys drawn.
\<close>

fun put_random_loop :: "(blob_dir \<Rightarrow> blob_key \<Rightarrow> bytes \<Rightarrow> blob_dir \<times> (server_error, unit) result)
    \<Rightarrow> (nat \<Rightarrow> blob_key) \<Rightarrow> nat \<Rightarrow> bytes \<Rightarrow> blob_dir \<times> nat \<Rightarrow> (blob_dir \<times> nat) \<times> (server_error, blob_key) result" where
  "put_random_loop put keys 0 data st = (st, Inl (Io ''put random blob''))"
| "put_random_loop put keys (Suc tries) data (dir, k) =
    (case put dir (keys k) data of
       (dir, Inr _) \<Rightarrow> ((dir, k + 1), Inr (keys k))
     | (dir, Inl e) \<Rightarrow>
         if is_blob_already_exists e then put_random_loop put keys tries data (dir, k + 1)
         else ((dir, k + 1), Inl e))"

definition put_random_blob ::
  "io_env \<Rightarrow> (nat \<Rightarrow> blob_key) \<Rightarrow> bytes \<Rightarrow> blob_dir \<times> nat \<Rightarrow> (blob_dir \<times> nat) \<times> (server_error, blob_key) result" where
  "put_random_blob io keys data st = put_random_loop (put_blob io) keys 16 data st"

section \<open>The contract\<close>

text \<open>
  What the engines rely on: a read returns the requested slice of the stored blob, storing a
  blob creates it, and no blob of another key is touched, whatever the outcome.
\<close>

locale blob_store =
  fixes get :: "'d \<Rightarrow> blob_key \<Rightarrow> nat \<Rightarrow> nat \<Rightarrow> (server_error, bytes) result"
    and put :: "'d \<Rightarrow> blob_key \<Rightarrow> bytes \<Rightarrow> 'd \<times> (server_error, unit) result"
    and blob :: "'d \<Rightarrow> blob_key \<Rightarrow> bytes option"
  assumes get_slice: "get d k off len = Inr bs \<Longrightarrow>
      \<exists>b. blob d k = Some b \<and> off + len \<le> length b \<and> bs = slice b off len"
    and put_creates: "put d k b = (d', Inr u) \<Longrightarrow> blob d k = None \<and> blob d' k = Some b"
    and put_keeps: "put d k b = (d', r) \<Longrightarrow> k' \<noteq> k \<Longrightarrow> blob d' k' = blob d k'"
begin

lemma get_after_put:
  assumes "put d k b = (d', Inr u)" "get d' k off len = Inr bs"
  shows "bs = slice b off len"
  using put_creates [OF assms(1)] get_slice [OF assms(2)] by auto

lemma put_grows:
  assumes "put d k b = (d', r)" "blob d k = None"
  shows "blob d \<subseteq>\<^sub>m blob d'"
  unfolding map_le_def using put_keeps [OF assms(1)] assms(2) by (metis domIff)

lemma get_stable:
  assumes "get d k off len = Inr bs" "put d k' b = (d', r)" "blob d k' = None" "get d' k off len = Inr bs'"
  shows "bs' = bs"
  using get_slice [OF assms(1)] get_slice [OF assms(4)] put_grows [OF assms(2,3)]
  by (auto simp: map_le_def) (metis domI option.inject)

end

lemma file_bytes_put [simp]: "file_bytes (put_file dir n bs) = (file_bytes dir)(n \<mapsto> bs)"
  by (simp add: file_bytes_def [abs_def] put_file_def update_conv')

lemma file_bytes_drop [simp]: "file_bytes (drop_file dir n) = (file_bytes dir)(n := None)"
  by (simp add: file_bytes_def [abs_def] drop_file_def delete_conv')

lemma blob_path_Inr_iff: "blob_path key = Inr p \<longleftrightarrow> p = key \<and> is_ok (new_blob_key key)"
  by (auto simp: blob_path_def)

lemma write_new_file_cases:
  assumes "write_new_file io dir path data = (dir', r)"
  obtains (exists) "r = Inl FileAlreadyExists" "dir' = dir"
  | (failed) "r = Inl FileFailed" "dir' = dir \<or> file_bytes dir path = None \<and> (\<exists>bs. dir' = put_file dir path bs)"
  | (written) "r = Inr ()" "dir' = put_file dir path data" "file_bytes dir path = None"
  using assms by (auto simp: write_new_file_def split: if_splits)

lemma put_blob_cases:
  assumes "put_blob io dir key data = (dir', r)"
  obtains (failed) e where "r = Inl e" "\<And>k. k \<noteq> key \<Longrightarrow> file_bytes dir' k = file_bytes dir k"
  | (created) "file_bytes dir key = None" "dir' = put_file dir key data" "is_ok (new_blob_key key)"
proof (cases "ensure_root_dir io = Inr () \<and> is_ok (new_blob_key key)")
  case True
  obtain dir1 r1 where w: "write_new_file io dir key data = (dir1, r1)" by (cases "write_new_file io dir key data")
  have path: "blob_path key = Inr key" using True by (simp add: blob_path_def)
  show thesis
    using w
  proof (cases rule: write_new_file_cases)
    case exists
    then show thesis using assms True w path that(1) [of "BlobAlreadyExists ''put blob'' key"]
      by (auto simp: put_blob_def)
  next
    case failed
    then show thesis using assms True w path that(1) [of "Io ''put blob''"]
      by (auto simp: put_blob_def split: if_splits)
  next
    case written
    then show thesis using assms True w path that(2) by (simp add: put_blob_def)
  qed
next
  case False
  then have "\<exists>e. r = Inl e \<and> dir' = dir"
    using assms by (auto simp: put_blob_def blob_path_def ensure_root_dir_def io_step_def split: if_splits)
  then show thesis using that(1) by blast
qed

lemma get_blob_Inr_iff:
  "get_blob io dir key off len = Inr bs \<longleftrightarrow> is_ok (new_blob_key key) \<and> \<not> io_fails io ''open blob for get'' key \<and>
    \<not> io_fails io ''seek blob'' key \<and> \<not> io_fails io ''read blob'' key \<and>
    (\<exists>data. file_bytes dir key = Some data \<and> off + len \<le> length data \<and> bs = slice data off len)"
  by (auto simp: get_blob_def and_then_Inr_iff blob_path_Inr_iff split: option.splits if_splits)

interpretation local_blobs: blob_store "get_blob io" "put_blob io" file_bytes
proof
  show "\<exists>b. file_bytes d k = Some b \<and> off + len \<le> length b \<and> bs = slice b off len"
    if "get_blob io d k off len = Inr bs" for d k off len bs
    using that by (auto simp: get_blob_Inr_iff)
  show "file_bytes d k = None \<and> file_bytes d' k = Some b" if "put_blob io d k b = (d', Inr u)" for d k b d' u
    using that by (cases rule: put_blob_cases) auto
  show "file_bytes d' k' = file_bytes d k'" if "put_blob io d k b = (d', r)" "k' \<noteq> k" for d k b d' r k'
    using that(1) by (cases rule: put_blob_cases) (use that(2) in auto)
qed

text \<open>
  Allocation under random keys: a new key holds the data, other blobs stay. The supply draws
  keys that are not in use.
\<close>

definition fresh_keys :: "(nat \<Rightarrow> blob_key) \<Rightarrow> blob_dir \<times> nat \<Rightarrow> bool" where
  "fresh_keys keys st \<longleftrightarrow> inj keys \<and> (\<forall>j \<ge> snd st. file_bytes (fst st) (keys j) = None \<and> is_ok (new_blob_key (keys j)))"

lemma put_random_loop_ok:
  assumes "put_random_loop (put_blob io) keys tries data st = (st', r)" "fresh_keys keys st"
  shows "file_bytes (fst st) \<subseteq>\<^sub>m file_bytes (fst st') \<and> fresh_keys keys st' \<and>
    (\<forall>key. r = Inr key \<longrightarrow> file_bytes (fst st) key = None \<and> file_bytes (fst st') key = Some data \<and> is_ok (new_blob_key key))"
  using assms
proof (induction "put_blob io" keys tries data st rule: put_random_loop.induct)
  case (2 keys tries data dir k)
  obtain dir1 r1 where put: "put_blob io dir (keys k) data = (dir1, r1)" by (cases "put_blob io dir (keys k) data")
  have new: "file_bytes dir (keys k) = None" "is_ok (new_blob_key (keys k))" using 2(3) by (auto simp: fresh_keys_def)
  have grows: "file_bytes dir \<subseteq>\<^sub>m file_bytes dir1" by (rule local_blobs.put_grows [OF put new(1)])
  have fresh: "fresh_keys keys (dir1, k + 1)"
    unfolding fresh_keys_def fst_conv snd_conv
  proof (intro conjI allI impI)
    fix j assume "k + 1 \<le> j"
    then have "keys j \<noteq> keys k" using 2(3) by (auto simp: fresh_keys_def dest: injD)
    then show "file_bytes dir1 (keys j) = None"
      using local_blobs.put_keeps [OF put] 2(3) \<open>k + 1 \<le> j\<close> by (simp add: fresh_keys_def)
  qed (use 2(3) in \<open>auto simp: fresh_keys_def\<close>)
  show ?case
  proof (cases r1)
    case (Inr u)
    then show ?thesis using 2(2) put grows fresh new local_blobs.put_creates [of io dir "keys k" data dir1 u] by auto
  next
    case (Inl e)
    show ?thesis
    proof (cases "is_blob_already_exists e")
      case True
      have "put_random_loop (put_blob io) keys tries data (dir1, k + 1) = (st', r)" using 2(2) put Inl True by simp
      from 2(1) [OF put [symmetric] Inl True this fresh] grows show ?thesis
        by (auto simp: map_le_def dom_def)
    next
      case False
      then show ?thesis using 2(2) put Inl grows fresh by auto
    qed
  qed
qed auto

lemmas put_random_blob_ok = put_random_loop_ok [of io keys 16 data st, folded put_random_blob_def] for io keys data st

section \<open>Properties\<close>

lemma overwrite_cases:
  assumes "overwrite_blob io rand dir key data = (dir', r)" "key \<noteq> temp_key rand"
  obtains (failed) e where "r = Inl e" "\<And>k. k \<noteq> temp_key rand \<Longrightarrow> file_bytes dir' k = file_bytes dir k"
  | (replaced) "file_bytes dir key \<noteq> None" "file_bytes dir' key = Some data"
      "\<And>k. k \<noteq> key \<Longrightarrow> k \<noteq> temp_key rand \<Longrightarrow> file_bytes dir' k = file_bytes dir k"
proof (cases "ensure_root_dir io = Inr () \<and> is_ok (new_blob_key key) \<and>
    \<not> (io_fails io ''stat blob before overwrite'' key \<or> file_bytes dir key = None) \<and> is_ok (new_blob_key (temp_key rand))")
  case False
  then have "\<exists>e. r = Inl e \<and> dir' = dir"
    using assms(1) by (cases "new_blob_key (temp_key rand)")
      (auto simp: overwrite_blob_def blob_path_def ensure_root_dir_def io_step_def split: if_splits)
  then show thesis using that(1) by blast
next
  case True
  let ?t = "temp_key rand"
  obtain dir1 r1 where w: "write_new_file io dir ?t data = (dir1, r1)" by (cases "write_new_file io dir ?t data")
  have t: "new_blob_key ?t = Inr ?t" using True by (auto simp: is_ok_iff new_blob_key_Inr_iff)
  then have paths: "blob_path key = Inr key" "blob_path ?t = Inr ?t" using True by (simp_all add: blob_path_def)
  show thesis
  proof (cases r1)
    case (Inl e)
    then have "r = Inl (Io ''write replacement blob'') \<and> dir' = dir1" using assms(1) True w t paths by (simp add: overwrite_blob_def)
    moreover have "file_bytes dir1 k = file_bytes dir k" if "k \<noteq> ?t" for k
      using w by (cases rule: write_new_file_cases) (use that in auto)
    ultimately show thesis using that(1) by blast
  next
    case (Inr u)
    then have dir1: "dir1 = put_file dir ?t data" "file_bytes dir ?t = None"
      using w by (auto simp: write_new_file_def split: if_splits)
    show thesis
    proof (cases "io_fails io ''rename replacement blob'' key")
      case True': True
      then have "r = Inl (Io ''rename replacement blob'')" "\<And>k. k \<noteq> ?t \<Longrightarrow> file_bytes dir' k = file_bytes dir k"
        using assms True w t paths Inr dir1 by (auto simp: overwrite_blob_def split: if_splits)
      then show thesis using that(1) by blast
    next
      case False
      then have "dir' = put_file (drop_file dir1 ?t) key data"
        using assms True w t paths Inr by (simp add: overwrite_blob_def)
      then show thesis using that(2) True dir1 by simp
    qed
  qed
qed

text \<open>
  C35. Replacing a blob is atomic: whatever fails on the way, the blob holds the old or the new
  contents in full, the new ones if success is reported, and no other blob changes apart from
  the temporary file.
\<close>

theorem overwrite_is_atomic:
  assumes "overwrite_blob io rand dir key data = (dir', r)" "key \<noteq> temp_key rand"
  shows "(file_bytes dir' key = file_bytes dir key \<or> file_bytes dir key \<noteq> None \<and> file_bytes dir' key = Some data) \<and>
    (is_ok r \<longrightarrow> file_bytes dir' key = Some data) \<and>
    (\<forall>k. k \<noteq> key \<longrightarrow> k \<noteq> temp_key rand \<longrightarrow> file_bytes dir' k = file_bytes dir k)"
  using assms(1,2) by (cases rule: overwrite_cases) (use assms(2) in auto)

theorem overwrite_is_atomic_witness:
  "\<exists>dir'. overwrite_blob \<lparr>io_fails = (\<lambda>op _. op = ''write file''), io_written = 1\<rparr> ''r'' [(''k'', [1, 2])] ''k'' [3, 4] =
      (dir', Inl (Io ''write replacement blob'')) \<and> file_bytes dir' ''k'' = Some [1, 2]"
proof -
  let ?io = "\<lparr>io_fails = (\<lambda>op _. op = ''write file''), io_written = 1\<rparr>"
  let ?run = "overwrite_blob ?io ''r'' [(''k'', [1, 2])] ''k'' [3, 4]"
  have res: "snd ?run = Inl (Io ''write replacement blob'')"
    by (simp add: overwrite_blob_def ensure_root_dir_def io_step_def blob_path_def new_blob_key_def NUL_def temp_key_def
        file_bytes_def write_new_file_def put_file_def)
  obtain dir' where run: "?run = (dir', Inl (Io ''write replacement blob''))" using res by (cases ?run) auto
  have "fst ?run = put_file [(''k'', [1, 2])] ''.tmp-r'' [3]"
    by (simp add: overwrite_blob_def ensure_root_dir_def io_step_def blob_path_def new_blob_key_def NUL_def temp_key_def
        file_bytes_def write_new_file_def)
  then have "file_bytes dir' ''k'' = Some [1, 2]" using run by (simp add: file_bytes_def put_file_def)
  moreover have "''k'' \<noteq> temp_key ''r''" by (simp add: temp_key_def)
  ultimately show ?thesis using overwrite_is_atomic [OF run] run by (intro exI [of _ dir']) simp
qed

text \<open>
  C36. Storing a blob under a key in use can destroy the stored blob: when creating the file
  fails for another reason than its existence, the error path removes the file at that path,
  which is the existing blob.
\<close>

theorem put_failure_removes_existing:
  assumes "is_ok (new_blob_key key)" "file_bytes dir key = Some old"
    and "io_fails io ''open new file'' key" "\<not> io_fails io ''create blob directory'' []" "\<not> io_fails io ''remove file'' key"
  shows "\<exists>dir'. put_blob io dir key data = (dir', Inl (Io ''put blob'')) \<and> file_bytes dir' key = None"
  using assms by (simp add: put_blob_def ensure_root_dir_def io_step_def blob_path_def write_new_file_def)

theorem put_failure_removes_existing_witness:
  "\<exists>dir'. put_blob \<lparr>io_fails = (\<lambda>op _. op = ''open new file''), io_written = 0\<rparr> [(''k'', [7])] ''k'' [8] =
    (dir', Inl (Io ''put blob'')) \<and> file_bytes dir' ''k'' = None"
  by (rule put_failure_removes_existing [where old = "[7]"])
    (simp_all add: new_blob_key_def NUL_def file_bytes_def)

end
