(* ===== verification/Read_View.thy ===== *)
theory Read_View
  imports Read_Cache Tree_Read Blob_Store
begin

text \<open>
  The read view of an open WAL-durable export, from \<open>nbd-server/src/engines/wal_durable/
  read_view.rs\<close>: a committed root, an overlay of the records after it and a cache, read
  in three layers. The tree reader is an argument, the trait \<open>TreeReader\<close>; the locale
  \<open>tree_reader\<close> is its contract, which \<open>zero_read_committed\<close> and
  \<open>cow_read_committed\<close> over the catalog and the local blob store satisfy. The state
  sits behind a lock that \<open>read\<close> takes twice: \<open>read_plan\<close> is what it does under the
  read lock, \<open>read_finish\<close> what it does under the write lock at the end, possibly in a
  later state.
\<close>

section \<open>Roots\<close>

definition DEFAULT_READ_CACHE_BYTES :: nat where "DEFAULT_READ_CACHE_BYTES = 1024 * 1024 * 1024"

datatype root_snapshot =
    ZeroBacking "node_id option" wal_seq nat
  | CowBacking "node_id option" wal_seq nat tree_format

definition root_from_meta :: "export_record \<Rightarrow> root_snapshot" where
  "root_from_meta meta = ZeroBacking (head_root_node_id (er_head meta)) (head_base_wal_seq (er_head meta))
    (head_size_bytes (er_head meta))"

definition root_from_head :: "export_head \<Rightarrow> (server_error, root_snapshot) result" where
  "root_from_head head =
    (if head_layout_kind head \<noteq> CowImmutableTree then Inl (Catalog None)
     else and_then (ok_or (Catalog None) (head_tree_format head)) (\<lambda>fmt.
       Inr (CowBacking (head_root_node_id head) (head_base_wal_seq head) (head_size_bytes head) fmt)))"

fun rs_root_node_id :: "root_snapshot \<Rightarrow> node_id option" where
  "rs_root_node_id (ZeroBacking root _ _) = root"
| "rs_root_node_id (CowBacking root _ _ _) = root"

fun rs_base_wal_seq :: "root_snapshot \<Rightarrow> wal_seq" where
  "rs_base_wal_seq (ZeroBacking _ base _) = base"
| "rs_base_wal_seq (CowBacking _ base _ _) = base"

fun rs_size_bytes :: "root_snapshot \<Rightarrow> nat" where
  "rs_size_bytes (ZeroBacking _ _ n) = n"
| "rs_size_bytes (CowBacking _ _ n _) = n"

fun is_zero_backed :: "root_snapshot \<Rightarrow> bool" where
  "is_zero_backed (ZeroBacking _ _ _) = True"
| "is_zero_backed (CowBacking _ _ _ _) = False"

fun rs_tree_format :: "root_snapshot \<Rightarrow> tree_format option" where
  "rs_tree_format (ZeroBacking _ _ _) = None"
| "rs_tree_format (CowBacking _ _ _ fmt) = Some fmt"

definition to_export_head :: "root_snapshot \<Rightarrow> (server_error, export_head) result" where
  "to_export_head root = map_err catalog_err (new_head_with_tree_format CowImmutableTree (rs_root_node_id root)
    (rs_size_bytes root) (rs_base_wal_seq root) (rs_tree_format root))"

section \<open>Ranges\<close>

definition validate_request_range :: "string \<Rightarrow> nat \<Rightarrow> nat \<Rightarrow> nat \<Rightarrow> (server_error, unit) result" where
  "validate_request_range operation off len size_bytes =
    and_then (ok_or (OutOfBounds operation off len size_bytes) (checked_add off len)) (\<lambda>stop.
      if stop > size_bytes then Inl (OutOfBounds operation off len size_bytes) else Inr ())"

definition validate_range :: "string \<Rightarrow> byte_range \<Rightarrow> nat \<Rightarrow> (server_error, unit) result" where
  "validate_range operation rng size_bytes = validate_request_range operation (br_start rng) (br_len rng) size_bytes"

definition byte_range_from_bounds :: "nat \<Rightarrow> nat \<Rightarrow> (server_error, byte_range) result" where
  "byte_range_from_bounds start stop =
    and_then (ok_or (Wal ''build byte range'') (checked_sub stop start)) (\<lambda>len.
    and_then (ok_or (Wal ''build byte range'') (try_u32 len)) (\<lambda>len.
      Inr (new_range start len)))"

text \<open>The loop over the sorted spans; it returns the gaps found and the final cursor.\<close>

fun gaps_loop :: "nat \<Rightarrow> nat \<Rightarrow> nat \<Rightarrow> (nat \<times> nat) list \<Rightarrow> (server_error, byte_range list \<times> nat) result" where
  "gaps_loop start stop cursor [] = Inr ([], cursor)"
| "gaps_loop start stop cursor ((s, e) # spans) =
    (let span_start = max s start; span_end = min e stop in
     if span_end \<le> cursor then gaps_loop start stop cursor spans
     else
       and_then (if span_start > cursor
                 then and_then (byte_range_from_bounds cursor span_start) (\<lambda>g. Inr [g]) else Inr []) (\<lambda>gap.
         let cursor = max cursor span_end in
         if cursor = stop then Inr (gap, cursor)
         else and_then (gaps_loop start stop cursor spans) (\<lambda>(gaps, cursor). Inr (gap @ gaps, cursor))))"

definition gaps_in_range :: "byte_range \<Rightarrow> (nat \<times> nat) list \<Rightarrow> (server_error, byte_range list) result" where
  "gaps_in_range rng spans =
    (let start = br_start rng; stop = range_end rng in
     and_then (gaps_loop start stop start (sort_key fst spans)) (\<lambda>(gaps, cursor).
       if cursor < stop
       then and_then (byte_range_from_bounds cursor stop) (\<lambda>g. Inr (gaps @ [g]))
       else Inr gaps))"

section \<open>Tree readers\<close>

type_synonym tree_read = "root_snapshot \<Rightarrow> byte_range \<Rightarrow> (server_error, block) result"

definition zero_read_committed :: tree_read where
  "zero_read_committed root rng =
    and_then (validate_range ''read'' rng (rs_size_bytes root)) (\<lambda>_.
      if \<not> is_zero_backed root then Inl (Catalog None)
      else new_block rng (if range_is_empty rng then [] else [ZeroPart rng]))"

definition cow_load_leaf ::
  "tree_store \<Rightarrow> root_snapshot \<Rightarrow> chunk_index \<Rightarrow> (server_error, loaded_tree_leaf option) result" where
  "cow_load_leaf store root c =
    (case rs_tree_format root of
       None \<Rightarrow> Inr None
     | Some fmt \<Rightarrow> and_then (new_geometry fmt (rs_size_bytes root)) (\<lambda>g.
         load_leaf store \<lparr>mr_geometry = g, mr_layout_kind = CowImmutableTree, mr_root_node_id = rs_root_node_id root\<rparr> c))"

function cow_parts_loop ::
  "tree_store \<Rightarrow> (blob_key \<Rightarrow> nat \<Rightarrow> nat \<Rightarrow> (server_error, bytes) result) \<Rightarrow> root_snapshot \<Rightarrow> byte_range \<Rightarrow> nat
    \<Rightarrow> (server_error, block_part list) result" where
  "cow_parts_loop store get root rng copied =
    (if copied < br_len rng then
       let current_offset = br_start rng + copied;
           chunk_index = current_offset div TREE_CHUNK_BYTES;
           chunk_offset = current_offset mod TREE_CHUNK_BYTES;
           chunk_available = TREE_CHUNK_BYTES - chunk_offset;
           copy_len = min chunk_available (br_len rng - copied);
           part_rng = new_range current_offset copy_len
       in and_then (cow_load_leaf store root chunk_index) (\<lambda>leaf.
          and_then (case leaf of
              Some l \<Rightarrow>
                if tl_storage_kind (ll_leaf_ref l) \<noteq> ImmutableBlob then Inl (Catalog None)
                else and_then (get (tl_storage_key (ll_leaf_ref l)) chunk_offset copy_len) (\<lambda>data.
                  Inr (DataPart part_rng data))
            | None \<Rightarrow> Inr (ZeroPart part_rng)) (\<lambda>part.
          and_then (cow_parts_loop store get root rng (copied + copy_len)) (\<lambda>parts. Inr (part # parts))))
     else Inr [])"
  by pat_completeness auto
termination
  by (relation "measure (\<lambda>(_, _, _, rng, copied). br_len rng - copied)")
    (auto intro!: diff_less_mono2 simp: TREE_CHUNK_BYTES_def)

declare cow_parts_loop.simps [simp del]

definition cow_read_committed ::
  "tree_store \<Rightarrow> (blob_key \<Rightarrow> nat \<Rightarrow> nat \<Rightarrow> (server_error, bytes) result) \<Rightarrow> tree_read" where
  "cow_read_committed store get root rng =
    and_then (validate_range ''read'' rng (rs_size_bytes root)) (\<lambda>_.
      if is_zero_backed root then Inl (Catalog None)
      else and_then (cow_parts_loop store get root rng 0) (\<lambda>parts. new_block rng parts))"

section \<open>The view\<close>

record read_view =
  vs_root :: root_snapshot
  vs_last_applied_seq :: wal_seq
  vs_wal_debt_bytes :: nat
  vs_overlay :: overlay_extent_map
  vs_cache :: read_cache

record compaction_snapshot =
  sn_root :: root_snapshot
  sn_target_wal_seq :: wal_seq
  sn_wal_debt_bytes :: nat
  sn_overlay :: overlay_extent_map

definition new_view :: "root_snapshot \<Rightarrow> nat \<Rightarrow> read_view" where
  "new_view root cache_bytes = \<lparr>vs_root = root, vs_last_applied_seq = rs_base_wal_seq root, vs_wal_debt_bytes = 0,
    vs_overlay = overlay_new, vs_cache = cache_new cache_bytes\<rparr>"

definition capture_compaction_snapshot :: "read_view \<Rightarrow> compaction_snapshot option" where
  "capture_compaction_snapshot v =
    (if vs_last_applied_seq v \<le> rs_base_wal_seq (vs_root v) \<or> overlay_is_empty (vs_overlay v) then None
     else Some \<lparr>sn_root = vs_root v, sn_target_wal_seq = vs_last_applied_seq v,
       sn_wal_debt_bytes = vs_wal_debt_bytes v, sn_overlay = vs_overlay v\<rparr>)"

record read_plan =
  rp_root :: root_snapshot
  rp_overlay_slices :: "overlay_read_slice list"
  rp_cache_slices :: "cache_read_slice list"
  rp_tree_misses :: "byte_range list"

definition plan_read :: "read_view \<Rightarrow> byte_range \<Rightarrow> (server_error, read_plan) result" where
  "plan_read v rng =
    and_then (validate_range ''read'' rng (rs_size_bytes (vs_root v))) (\<lambda>_.
    and_then (read_slices (vs_overlay v) rng) (\<lambda>overlay_slices.
      let overlay_spans = map (\<lambda>s. (os_start s, os_end s)) overlay_slices in
    and_then (gaps_in_range rng overlay_spans) (\<lambda>cache_ranges.
    and_then (try_map (cache_read_slices (vs_cache v)) cache_ranges) (\<lambda>found.
      let cache_slices = concat found;
          covered_spans = overlay_spans @ map (\<lambda>s. (cs_start s, cs_end s)) cache_slices in
    and_then (gaps_in_range rng covered_spans) (\<lambda>tree_misses.
      Inr \<lparr>rp_root = vs_root v, rp_overlay_slices = overlay_slices, rp_cache_slices = cache_slices,
           rp_tree_misses = tree_misses\<rparr>)))))"

definition copy_tree_block :: "byte_range \<Rightarrow> block \<Rightarrow> bytes \<Rightarrow> (server_error, bytes) result" where
  "copy_tree_block read_range b data =
    (let block_range = blk_range b in
     if range_end block_range > range_end read_range \<or> br_start block_range < br_start read_range
     then Inl (Wal ''read committed backing'')
     else let materialized = materialize b in
       if length materialized \<noteq> br_len block_range then Inl (Wal ''read committed backing'')
       else Inr (copy_at data (br_start block_range - br_start read_range) materialized))"

definition overlay_record :: "byte_range \<Rightarrow> overlay_read_slice \<Rightarrow> bytes \<Rightarrow> (server_error, bytes) result" where
  "overlay_record read_range s data =
    (let start = max (br_start read_range) (os_start s); stop = min (range_end read_range) (os_end s) in
     if start \<ge> stop then Inr data
     else Inr (copy_at data (start - br_start read_range)
       (slice (wrec_data (os_record s)) (os_offset s + (start - os_start s)) (stop - start))))"

text \<open>The reads of the misses: each block is checked against its miss and copied.\<close>

fun read_misses :: "tree_read \<Rightarrow> root_snapshot \<Rightarrow> byte_range \<Rightarrow> byte_range list \<Rightarrow> bytes
    \<Rightarrow> (server_error, bytes \<times> block list) result" where
  "read_misses reader root rng [] data = Inr (data, [])"
| "read_misses reader root rng (miss # misses) data =
    and_then (reader root miss) (\<lambda>b.
      if blk_range b \<noteq> miss then Inl (Wal ''read committed backing'')
      else and_then (copy_tree_block rng b data) (\<lambda>data.
        and_then (read_misses reader root rng misses data) (\<lambda>(data, fills). Inr (data, b # fills))))"

definition read_data ::
  "tree_read \<Rightarrow> byte_range \<Rightarrow> read_plan \<Rightarrow> (server_error, bytes \<times> block list) result" where
  "read_data reader rng plan =
    and_then (try_fold (\<lambda>data s. slice_copy_to s rng data) (replicate (br_len rng) 0) (rp_cache_slices plan)) (\<lambda>data.
    and_then (read_misses reader (rp_root plan) rng (rp_tree_misses plan) data) (\<lambda>(data, fills).
    and_then (try_fold (\<lambda>data s. overlay_record rng s data) data (rp_overlay_slices plan)) (\<lambda>data.
      Inr (data, fills))))"

definition fill_part :: "read_view \<Rightarrow> block_part \<Rightarrow> read_view \<times> (server_error, unit) result" where
  "fill_part v part =
    (case part of
       ZeroPart _ \<Rightarrow> (v, Inr ())
     | DataPart rng bs \<Rightarrow>
         then_st (v, read_slices (vs_overlay v) rng) (\<lambda>v overlay_slices.
         then_st (v, cache_read_slices (vs_cache v) rng) (\<lambda>v cache_slices.
         then_st (v, gaps_in_range rng (map (\<lambda>s. (os_start s, os_end s)) overlay_slices @
             map (\<lambda>s. (cs_start s, cs_end s)) cache_slices)) (\<lambda>v holes.
           loop_st (\<lambda>v hole.
             let (c, r) = insert_bytes (vs_cache v) hole (slice bs (br_start hole - br_start rng) (br_len hole)) Hot
             in (v\<lparr>vs_cache := c\<rparr>, r)) v holes))))"

definition insert_tree_block_fills :: "read_view \<Rightarrow> block \<Rightarrow> read_view \<times> (server_error, unit) result" where
  "insert_tree_block_fills v b = loop_st fill_part v (blk_parts b)"

definition read_finish :: "read_view \<Rightarrow> read_plan \<Rightarrow> block list \<Rightarrow> read_view \<times> (server_error, unit) result" where
  "read_finish v plan fills =
    (if rp_cache_slices plan \<noteq> [] \<or> fills \<noteq> [] then
       let v = v\<lparr>vs_cache := promote_hits (vs_cache v) (map cs_object_id (rp_cache_slices plan))\<rparr> in
       if vs_root v = rp_root plan then loop_st insert_tree_block_fills v fills else (v, Inr ())
     else (v, Inr ()))"

definition view_read :: "tree_read \<Rightarrow> read_view \<Rightarrow> byte_range \<Rightarrow> read_view \<times> (server_error, bytes) result" where
  "view_read reader v rng =
    then_st (v, plan_read v rng) (\<lambda>v plan.
    then_st (v, read_data reader rng plan) (\<lambda>v (data, fills).
    then_st (read_finish v plan fills) (\<lambda>v _. (v, Inr data))))"

definition apply_wal_record :: "read_view \<Rightarrow> wal_record \<Rightarrow> read_view \<times> (server_error, unit) result" where
  "apply_wal_record v r =
    then_st (v, validate_range ''write'' (wrec_range r) (rs_size_bytes (vs_root v))) (\<lambda>v _.
      if wrec_seq r \<le> rs_base_wal_seq (vs_root v) then (v, Inl (Wal ''apply WAL record''))
      else
        then_st (v, ok_or (Wal ''apply WAL record'') (checked_add (vs_last_applied_seq v) 1)) (\<lambda>v expected_seq.
          if wrec_seq r \<noteq> expected_seq then (v, Inl (Wal ''apply WAL record''))
          else
            let (overlay, inserted) = insert_record (vs_overlay v) r in
            then_st (v\<lparr>vs_overlay := overlay\<rparr>, inserted) (\<lambda>v _.
              let (cache, trimmed) = trim_range (vs_cache v) (wrec_range r) in
              then_st (v\<lparr>vs_cache := cache\<rparr>, trimmed) (\<lambda>v _.
                let v = v\<lparr>vs_last_applied_seq := expected_seq\<rparr> in
                then_st (v, ok_or (Wal ''apply WAL record'')
                    (checked_add (vs_wal_debt_bytes v) (length (wrec_data r)))) (\<lambda>v debt.
                  (v\<lparr>vs_wal_debt_bytes := debt\<rparr>, Inr ()))))))"

text \<open>Moving the retired extents from the overlay to the cache, common to both advances.\<close>

definition retire_through :: "read_view \<Rightarrow> wal_seq \<Rightarrow> read_view \<times> (server_error, unit) result" where
  "retire_through v checkpoint =
    (let retired = visible_through (vs_overlay v) checkpoint in
     then_st (loop_st (\<lambda>v ext.
         then_st (v, byte_range_from_bounds (re_start ext) (re_end ext)) (\<lambda>v rng.
           let (c, r) = insert_wal_record_slice (vs_cache v) rng (re_record ext) (re_offset ext) Cold
           in (v\<lparr>vs_cache := c\<rparr>, r))) v retired) (\<lambda>v _.
       let (overlay, r) = remove_retired (vs_overlay v) retired in (v\<lparr>vs_overlay := overlay\<rparr>, r)))"

definition advance_root :: "read_view \<Rightarrow> root_snapshot \<Rightarrow> read_view \<times> (server_error, unit) result" where
  "advance_root v new_root =
    (let new_checkpoint = rs_base_wal_seq new_root; current_checkpoint = rs_base_wal_seq (vs_root v) in
     if rs_size_bytes new_root \<noteq> rs_size_bytes (vs_root v) then (v, Inl (Wal ''advance read-view root''))
     else if new_checkpoint < current_checkpoint then (v, Inl (Wal ''advance read-view root''))
     else if new_checkpoint = current_checkpoint then (v, Inr ())
     else if new_checkpoint > vs_last_applied_seq v then (v, Inl (Wal ''advance read-view root''))
     else then_st (retire_through v new_checkpoint) (\<lambda>v _.
       let v = v\<lparr>vs_root := new_root\<rparr> in
       (if new_checkpoint = vs_last_applied_seq v then v\<lparr>vs_wal_debt_bytes := 0\<rparr> else v, Inr ())))"

definition advance_after_compaction ::
  "read_view \<Rightarrow> root_snapshot \<Rightarrow> compaction_snapshot \<Rightarrow> read_view \<times> (server_error, unit) result" where
  "advance_after_compaction v new_root sn =
    (let new_checkpoint = rs_base_wal_seq new_root; current_checkpoint = rs_base_wal_seq (vs_root v);
         failed = Inl (Wal ''advance read-view root after compaction'') in
     if rs_size_bytes new_root \<noteq> rs_size_bytes (vs_root v) then (v, failed)
     else if current_checkpoint \<ge> sn_target_wal_seq sn then (v, Inr ())
     else if current_checkpoint \<noteq> rs_base_wal_seq (sn_root sn) then (v, failed)
     else if new_checkpoint < sn_target_wal_seq sn then (v, failed)
     else if new_checkpoint > sn_target_wal_seq sn then (v, failed)
     else if new_checkpoint > vs_last_applied_seq v then (v, failed)
     else if sn_wal_debt_bytes sn > vs_wal_debt_bytes v then (v, failed)
     else then_st (retire_through v new_checkpoint) (\<lambda>v _.
       let v = v\<lparr>vs_root := new_root, vs_wal_debt_bytes := vs_wal_debt_bytes v - sn_wal_debt_bytes sn\<rparr> in
       (if new_checkpoint = vs_last_applied_seq v then v\<lparr>vs_wal_debt_bytes := 0\<rparr> else v, Inr ())))"

section \<open>Gaps\<close>

lemma byte_range_from_bounds_ok:
  "a \<le> b \<Longrightarrow> b - a \<le> u32_max \<Longrightarrow> byte_range_from_bounds a b = Inr (new_range a (b - a))"
  by (simp add: byte_range_from_bounds_def checked_sub_def try_u32_def)

definition uncovered :: "(nat \<times> nat) list \<Rightarrow> nat \<Rightarrow> bool" where
  "uncovered spans x \<longleftrightarrow> (\<forall>(s, e) \<in> set spans. \<not> (s \<le> x \<and> x < e))"

lemma uncovered_Cons [simp]: "uncovered ((s, e) # spans) x \<longleftrightarrow> \<not> (s \<le> x \<and> x < e) \<and> uncovered spans x"
  by (simp add: uncovered_def)

definition gaps_between :: "nat \<Rightarrow> nat \<Rightarrow> (nat \<times> nat) list \<Rightarrow> byte_range list \<Rightarrow> bool" where
  "gaps_between a b spans gaps \<longleftrightarrow>
    (\<forall>g \<in> set gaps. a \<le> br_start g \<and> 0 < br_len g \<and> br_start g + br_len g \<le> b) \<and>
    (\<forall>x. a \<le> x \<longrightarrow> x < b \<longrightarrow> (\<exists>g \<in> set gaps. x \<in> range_bytes g) \<longleftrightarrow> uncovered spans x)"

lemma gaps_betweenD:
  assumes "gaps_between a b spans gaps"
  shows "g \<in> set gaps \<Longrightarrow> a \<le> br_start g \<and> 0 < br_len g \<and> br_start g + br_len g \<le> b"
    "g \<in> set gaps \<Longrightarrow> x \<in> range_bytes g \<Longrightarrow> a \<le> x \<and> x < b \<and> uncovered spans x"
    "a \<le> x \<Longrightarrow> x < b \<Longrightarrow> uncovered spans x \<Longrightarrow> \<exists>g \<in> set gaps. x \<in> range_bytes g"
proof -
  show bounds: "g \<in> set gaps \<Longrightarrow> a \<le> br_start g \<and> 0 < br_len g \<and> br_start g + br_len g \<le> b"
    using assms by (simp add: gaps_between_def)
  show "a \<le> x \<Longrightarrow> x < b \<Longrightarrow> uncovered spans x \<Longrightarrow> \<exists>g \<in> set gaps. x \<in> range_bytes g"
    using assms by (simp add: gaps_between_def)
  assume g: "g \<in> set gaps" "x \<in> range_bytes g"
  then have "a \<le> x" "x < b" using bounds by (auto simp: range_bytes_def)
  then show "a \<le> x \<and> x < b \<and> uncovered spans x" using assms g by (auto simp: gaps_between_def)
qed

lemma uncovered_append: "uncovered (xs @ ys) x \<longleftrightarrow> uncovered xs x \<and> uncovered ys x"
  by (auto simp: uncovered_def)

lemma gaps_between_append:
  assumes "gaps_between a b spans gaps1" "gaps_between b c spans gaps2" "a \<le> b" "b \<le> c"
  shows "gaps_between a c spans (gaps1 @ gaps2)"
proof -
  have 1: "\<And>g. g \<in> set gaps1 \<Longrightarrow> a \<le> br_start g \<and> 0 < br_len g \<and> br_start g + br_len g \<le> b"
    "\<And>x. a \<le> x \<Longrightarrow> x < b \<Longrightarrow> (\<exists>g \<in> set gaps1. x \<in> range_bytes g) \<longleftrightarrow> uncovered spans x"
    using assms(1) by (auto simp: gaps_between_def)
  have 2: "\<And>g. g \<in> set gaps2 \<Longrightarrow> b \<le> br_start g \<and> 0 < br_len g \<and> br_start g + br_len g \<le> c"
    "\<And>x. b \<le> x \<Longrightarrow> x < c \<Longrightarrow> (\<exists>g \<in> set gaps2. x \<in> range_bytes g) \<longleftrightarrow> uncovered spans x"
    using assms(2) by (auto simp: gaps_between_def)
  have "(\<exists>g \<in> set (gaps1 @ gaps2). x \<in> range_bytes g) \<longleftrightarrow> uncovered spans x" if "a \<le> x" "x < c" for x
  proof (cases "x < b")
    case True
    then have "x \<notin> range_bytes g" if "g \<in> set gaps2" for g using 2(1) [OF that] by (simp add: range_bytes_def)
    then show ?thesis using 1(2) [OF \<open>a \<le> x\<close> True] by auto
  next
    case False
    then have "x \<notin> range_bytes g" if "g \<in> set gaps1" for g using 1(1) [OF that] by (simp add: range_bytes_def)
    then show ?thesis using 2(2) [OF _ \<open>x < c\<close>] False by auto
  qed
  moreover have "a \<le> br_start g \<and> 0 < br_len g \<and> br_start g + br_len g \<le> c" if "g \<in> set (gaps1 @ gaps2)" for g
    using that 1(1) [of g] 2(1) [of g] assms(3,4) by auto
  ultimately show ?thesis by (simp add: gaps_between_def)
qed

lemma gaps_between_free:
  "(\<And>x. a \<le> x \<Longrightarrow> x < b \<Longrightarrow> uncovered spans x) \<Longrightarrow> a < b \<Longrightarrow> gaps_between a b spans [new_range a (b - a)]"
  by (simp add: gaps_between_def range_bytes_def)

lemma gaps_between_covered:
  "(\<And>x. a \<le> x \<Longrightarrow> x < b \<Longrightarrow> \<not> uncovered spans x) \<Longrightarrow> gaps_between a b spans []"
  by (simp add: gaps_between_def)

definition spans_in :: "nat \<Rightarrow> nat \<Rightarrow> (nat \<times> nat) list \<Rightarrow> bool" where
  "spans_in a b spans \<longleftrightarrow> (\<forall>(s, e) \<in> set spans. a \<le> s \<and> s < e \<and> e \<le> b)"

lemma gaps_loop_ok:
  assumes "sorted (map fst spans)" "spans_in start stop spans" "start \<le> cursor" "cursor \<le> stop" "stop - start \<le> u32_max"
  shows "\<exists>gaps cursor'. gaps_loop start stop cursor spans = Inr (gaps, cursor') \<and> cursor \<le> cursor' \<and> cursor' \<le> stop \<and>
    gaps_between cursor cursor' spans gaps \<and> (\<forall>x. cursor' \<le> x \<longrightarrow> x < stop \<longrightarrow> uncovered spans x)"
  using assms
proof (induction start stop cursor spans rule: gaps_loop.induct)
  case (1 start stop cursor)
  then show ?case by (simp add: gaps_between_def uncovered_def)
next
  case (2 start stop cursor s e spans)
  have srt: "sorted (map fst spans)" and first: "\<And>t u. (t, u) \<in> set spans \<Longrightarrow> s \<le> t" using 2(3) by auto
  have sub: "spans_in start stop spans" and se: "start \<le> s" "s < e" "e \<le> stop" using 2(4) by (auto simp: spans_in_def)
  show ?case
  proof (cases "e \<le> cursor")
    case True
    then have "min e stop \<le> cursor" by simp
    from 2(1) [OF refl refl this srt sub 2(5-7)] obtain gaps cursor' where IH:
      "gaps_loop start stop cursor spans = Inr (gaps, cursor')" "cursor \<le> cursor'" "cursor' \<le> stop"
      "gaps_between cursor cursor' spans gaps" "\<forall>x. cursor' \<le> x \<longrightarrow> x < stop \<longrightarrow> uncovered spans x" by blast
    have skip: "uncovered ((s, e) # spans) x \<longleftrightarrow> uncovered spans x" if "cursor \<le> x" for x using True that by auto
    have "gaps_between cursor cursor' ((s, e) # spans) gaps" using IH(4) skip by (simp add: gaps_between_def)
    then show ?thesis using True IH(1-3,5) skip by (intro exI [of _ gaps] exI [of _ cursor']) (auto simp: min_absorb1)
  next
    case False
    let ?gap = "if s > cursor then [new_range cursor (s - cursor)] else []" and ?m = "max cursor s"
    have mm: "max s start = s" "min e stop = e" "max cursor e = e" using se False by auto
    have run1: "(if s > cursor then and_then (byte_range_from_bounds cursor s) (\<lambda>g. Inr [g]) else Inr []) = Inr ?gap"
      using 2(5-7) se by (simp add: byte_range_from_bounds_ok)
    have free: "uncovered ((s, e) # spans) x" if "x < s" for x using that first by (fastforce simp: uncovered_def)
    have "gaps_between cursor ?m ((s, e) # spans) ?gap"
      using free gaps_between_free [of cursor s] gaps_between_covered [of cursor cursor] by (auto simp: max_def)
    moreover have "gaps_between ?m e ((s, e) # spans) []" by (rule gaps_between_covered) auto
    ultimately have head: "gaps_between cursor e ((s, e) # spans) ?gap"
      using gaps_between_append [of cursor ?m _ ?gap e "[]"] se False by simp
    show ?thesis
    proof (cases "e = stop")
      case True
      then have "gaps_loop start stop cursor ((s, e) # spans) = Inr (?gap, stop)"
        using False run1 mm by (simp add: Let_def)
      then show ?thesis using head True 2(6) by auto
    next
      case ne: False
      have "\<exists>gaps cursor'. gaps_loop start stop e spans = Inr (gaps, cursor') \<and> e \<le> cursor' \<and> cursor' \<le> stop \<and>
        gaps_between e cursor' spans gaps \<and> (\<forall>x. cursor' \<le> x \<longrightarrow> x < stop \<longrightarrow> uncovered spans x)"
      proof (rule 2(2) [OF refl refl _ _ _ _ srt sub, of ?gap e])
        show "(if max s start > cursor then and_then (byte_range_from_bounds cursor (max s start)) (\<lambda>g. Inr [g]) else Inr []) = Inr ?gap"
          unfolding mm(1) by (rule run1)
      qed (use mm False ne se 2(7) in auto)
      then obtain gaps cursor' where IH:
        "gaps_loop start stop e spans = Inr (gaps, cursor')" "e \<le> cursor'" "cursor' \<le> stop"
        "gaps_between e cursor' spans gaps" "\<forall>x. cursor' \<le> x \<longrightarrow> x < stop \<longrightarrow> uncovered spans x" by blast
      have "gaps_between e cursor' ((s, e) # spans) gaps" using IH(4) by (simp add: gaps_between_def)
      then have "gaps_between cursor cursor' ((s, e) # spans) (?gap @ gaps)"
        using gaps_between_append [OF head] False IH(2) by simp
      moreover have "gaps_loop start stop cursor ((s, e) # spans) = Inr (?gap @ gaps, cursor')"
        using False run1 mm ne IH(1) by (simp add: Let_def)
      moreover have "cursor \<le> cursor'" using False IH(2) by simp
      ultimately show ?thesis using IH(2,3,5) by fastforce
    qed
  qed
qed

lemma gaps_in_range_ok:
  assumes "spans_in (br_start rng) (range_end rng) spans" "br_len rng \<le> u32_max"
    "range_end rng = br_start rng + br_len rng"
  obtains gaps where "gaps_in_range rng spans = Inr gaps" "gaps_between (br_start rng) (range_end rng) spans gaps"
proof -
  let ?s = "br_start rng" and ?e = "range_end rng" and ?sp = "sort_key fst spans"
  have "spans_in ?s ?e ?sp" using assms(1) by (simp add: spans_in_def)
  from gaps_loop_ok [OF _ this, of ?s] assms(2,3) obtain gaps c where loop:
    "gaps_loop ?s ?e ?s ?sp = Inr (gaps, c)" "?s \<le> c" "c \<le> ?e" "gaps_between ?s c ?sp gaps"
    "\<forall>x. c \<le> x \<longrightarrow> x < ?e \<longrightarrow> uncovered ?sp x" by auto
  have perm: "uncovered ?sp = uncovered spans" by (auto simp: uncovered_def fun_eq_iff)
  have first: "gaps_between ?s c spans gaps" using loop(4) by (simp add: gaps_between_def perm)
  show thesis
  proof (cases "c < ?e")
    case True
    have "gaps_between c ?e spans [new_range c (?e - c)]"
      by (rule gaps_between_free) (use loop(5) perm True in auto)
    then have "gaps_between ?s ?e spans (gaps @ [new_range c (?e - c)])"
      using gaps_between_append [OF first _ loop(2,3)] by blast
    moreover have "gaps_in_range rng spans = Inr (gaps @ [new_range c (?e - c)])"
      using loop(1-3) True assms(2,3) by (simp add: gaps_in_range_def Let_def byte_range_from_bounds_ok)
    ultimately show thesis using that by blast
  next
    case False
    then show thesis using that [of gaps] loop(1,3) first by (simp add: gaps_in_range_def Let_def)
  qed
qed

section \<open>What a view shows\<close>

definition overlay_byte :: "overlay_extent_map \<Rightarrow> nat \<Rightarrow> u8 option" where
  "overlay_byte m x = map_option (\<lambda>(s, r, k). wrec_data r ! k) (overlay_at m x)"

definition view_byte :: "(root_snapshot \<Rightarrow> nat \<Rightarrow> u8) \<Rightarrow> read_view \<Rightarrow> nat \<Rightarrow> u8" where
  "view_byte committed v x =
    (case overlay_byte (vs_overlay v) x of Some b \<Rightarrow> b | None \<Rightarrow> committed (vs_root v) x)"

text \<open>
  The invariant: the overlay holds records after the checkpoint of the root, inside the
  export; the cache agrees with the committed bytes and is empty under the overlay.
\<close>

definition overlay_in :: "wal_seq \<Rightarrow> wal_seq \<Rightarrow> nat \<Rightarrow> overlay_extent_map \<Rightarrow> bool" where
  "overlay_in lo hi n m \<longleftrightarrow> overlay_inv m \<and> (\<forall>x s r k. overlay_at m x = Some (s, r, k) \<longrightarrow>
    lo < s \<and> s \<le> hi \<and> br_len (wrec_range r) \<le> u32_max \<and> br_start (wrec_range r) + br_len (wrec_range r) \<le> n)"

definition view_inv :: "(root_snapshot \<Rightarrow> nat \<Rightarrow> u8) \<Rightarrow> read_view \<Rightarrow> bool" where
  "view_inv committed v \<longleftrightarrow> cache_inv (vs_cache v) \<and>
    overlay_in (rs_base_wal_seq (vs_root v)) (vs_last_applied_seq v) (rs_size_bytes (vs_root v)) (vs_overlay v) \<and>
    rs_size_bytes (vs_root v) + CACHE_BLOCK_BYTES \<le> u64_max \<and>
    rs_base_wal_seq (vs_root v) \<le> vs_last_applied_seq v \<and>
    (\<forall>x b. cache_byte (vs_cache v) x = Some b \<longrightarrow>
      overlay_at (vs_overlay v) x = None \<and> b = committed (vs_root v) x)"

lemma new_view_inv:
  "rs_size_bytes root + CACHE_BLOCK_BYTES \<le> u64_max \<Longrightarrow> view_inv committed (new_view root n)"
  "view_byte committed (new_view root n) x = committed root x"
  by (simp_all add: view_inv_def new_view_def overlay_in_def view_byte_def overlay_byte_def) (simp_all add: overlay_new_def em_new_def)

lemma overlay_byte_None: "overlay_byte m x = None \<longleftrightarrow> overlay_at m x = None"
  by (simp add: overlay_byte_def)

text \<open>A step of a read writes the values of a byte function at some positions of the buffer.\<close>

definition writes :: "byte_range \<Rightarrow> nat set \<Rightarrow> (nat \<Rightarrow> u8) \<Rightarrow> bytes \<Rightarrow> bytes \<Rightarrow> bool" where
  "writes rng S f data data' \<longleftrightarrow> length data' = length data \<and>
    (\<forall>x \<in> range_bytes rng. data' ! (x - br_start rng) = (if x \<in> S then f x else data ! (x - br_start rng)))"

lemma writes_none: "writes rng {} f data data"
  by (simp add: writes_def)

lemma writes_trans: "writes rng S f a b \<Longrightarrow> writes rng T f b c \<Longrightarrow> writes rng (S \<union> T) f a c"
  by (auto simp: writes_def)

lemma try_fold_writes:
  assumes "\<And>s data. s \<in> set ss \<Longrightarrow> length data = br_len rng \<Longrightarrow> \<exists>data'. step data s = Inr data' \<and> writes rng (S s) f data data'"
    and "length data = br_len rng"
  shows "\<exists>data'. try_fold step data ss = Inr data' \<and> writes rng (\<Union> (S ` set ss)) f data data'"
  using assms
proof (induction ss arbitrary: data)
  case (Cons s ss)
  obtain d where d: "step data s = Inr d" "writes rng (S s) f data d" using Cons.prems by fastforce
  then have "length d = br_len rng" using Cons.prems(2) by (simp add: writes_def)
  then obtain d' where "try_fold step d ss = Inr d'" "writes rng (\<Union> (S ` set ss)) f d d'"
    using Cons by (metis list.set_intros(2))
  then show ?case using d writes_trans [OF d(2)] by auto
qed (simp add: writes_none)

lemma copy_at_writes:
  assumes "length data = br_len rng" "br_start rng \<le> a" "a + length bs \<le> br_start rng + br_len rng"
    and "\<And>x. a \<le> x \<Longrightarrow> x < a + length bs \<Longrightarrow> bs ! (x - a) = f x"
  shows "writes rng {a ..< a + length bs} f data (copy_at data (a - br_start rng) bs)"
proof -
  have "copy_at data (a - br_start rng) bs ! (x - br_start rng) =
      (if x \<in> {a ..< a + length bs} then f x else data ! (x - br_start rng))" if "x \<in> range_bytes rng" for x
    using that assms(1-3) assms(4) [of x] by (auto simp: range_bytes_def nth_copy_at)
  then show ?thesis using assms(1-3) by (simp add: writes_def length_copy_at)
qed

section \<open>Reads\<close>

definition plan_ok :: "read_view \<Rightarrow> byte_range \<Rightarrow> read_plan \<Rightarrow> bool" where
  "plan_ok v rng plan \<longleftrightarrow> rp_root plan = vs_root v \<and>
    rp_overlay_slices plan = map slice_of (clip split_at (br_start rng) (range_end rng) (vs_overlay v)) \<and>
    (\<forall>s \<in> set (rp_cache_slices plan). cslice_ok (vs_cache v) rng s) \<and>
    gaps_between (br_start rng) (range_end rng)
      (map (\<lambda>s. (os_start s, os_end s)) (rp_overlay_slices plan) @ map (\<lambda>s. (cs_start s, cs_end s)) (rp_cache_slices plan))
      (rp_tree_misses plan)"

lemma view_range:
  assumes "view_inv committed v" "br_start rng + br_len rng \<le> rs_size_bytes (vs_root v)"
  shows "range_end rng = br_start rng + br_len rng" "range_fits rng"
    "validate_range operation rng (rs_size_bytes (vs_root v)) = Inr ()"
  using assms
  by (auto simp: view_inv_def range_end_def saturating_add_def range_fits_def validate_range_def
      validate_request_range_def checked_add_def)

lemma overlay_slices_ok:
  assumes "overlay_inv m" "range_end rng = br_start rng + br_len rng"
  shows "read_slices m rng = Inr (map slice_of (clip split_at (br_start rng) (range_end rng) m))"
    "spans_in (br_start rng) (range_end rng) (map (\<lambda>s. (os_start s, os_end s))
      (map slice_of (clip split_at (br_start rng) (range_end rng) m)))"
    "x \<in> range_bytes rng \<Longrightarrow> uncovered (map (\<lambda>s. (os_start s, os_end s))
      (map slice_of (clip split_at (br_start rng) (range_end rng) m))) x \<longleftrightarrow> overlay_at m x = None"
proof -
  let ?m = "clip split_at (br_start rng) (range_end rng) m"
  have inv: "em_inv ?m" using assms(1) by (intro em_inv_clip) (simp add: overlay_inv_def)
  show "read_slices m rng = Inr (map slice_of ?m)" using read_slices_clip [OF assms(1)] assms(2) by simp
  show "spans_in (br_start rng) (range_end rng) (map (\<lambda>s. (os_start s, os_end s)) (map slice_of ?m))"
    using clip_bounds em_inv_mem [OF inv] by (fastforce simp: spans_in_def slice_of_def)
  assume "x \<in> range_bytes rng"
  then have "overlay_at ?m x = overlay_at m x" using assms(2) by (simp add: overlay.em_at_clip range_bytes_def)
  then show "uncovered (map (\<lambda>s. (os_start s, os_end s)) (map slice_of ?m)) x \<longleftrightarrow> overlay_at m x = None"
    using em_at_None_iff [of value_at ?m x] by (auto simp: uncovered_def slice_of_def)
qed

lemma cslice_ok_mono:
  "cslice_ok c sub s \<Longrightarrow> br_start rng \<le> br_start sub \<Longrightarrow> range_end sub \<le> range_end rng \<Longrightarrow> cslice_ok c rng s"
  by (auto simp: cslice_ok_def)

lemma spans_in_append: "spans_in a b (xs @ ys) \<longleftrightarrow> spans_in a b xs \<and> spans_in a b ys"
  by (auto simp: spans_in_def)

lemma cslices_in:
  assumes "\<And>s. s \<in> set ss \<Longrightarrow> cslice_ok c rng s"
  shows "spans_in (br_start rng) (range_end rng) (map (\<lambda>s. (cs_start s, cs_end s)) ss)"
  using assms by (auto simp: spans_in_def cslice_ok_def)

lemma list_all2_mem2: "list_all2 P xs ys \<Longrightarrow> y \<in> set ys \<Longrightarrow> \<exists>x \<in> set xs. P x y"
  by (induction rule: list_all2_induct) auto

lemma plan_read_ok:
  assumes inv: "view_inv committed v" and rng: "br_start rng + br_len rng \<le> rs_size_bytes (vs_root v)" "br_len rng \<le> u32_max"
  obtains plan where "plan_read v rng = Inr plan" "plan_ok v rng plan"
proof -
  note vr = view_range [OF inv rng(1)]
  have ov: "overlay_inv (vs_overlay v)" and c: "cache_inv (vs_cache v)"
    using inv by (auto simp: view_inv_def overlay_in_def)
  note os = overlay_slices_ok [OF ov vr(1)]
  let ?os = "map slice_of (clip split_at (br_start rng) (range_end rng) (vs_overlay v))"
  let ?spans = "map (\<lambda>s. (os_start s, os_end s)) ?os"
  obtain gaps where gaps: "gaps_in_range rng ?spans = Inr gaps" "gaps_between (br_start rng) (range_end rng) ?spans gaps"
    using gaps_in_range_ok [OF os(2) rng(2) vr(1)] by blast
  have "\<exists>ss. cache_read_slices (vs_cache v) g = Inr ss \<and> (\<forall>s \<in> set ss. cslice_ok (vs_cache v) rng s)" if "g \<in> set gaps" for g
  proof -
    have g: "br_start rng \<le> br_start g" "br_start g + br_len g \<le> range_end rng"
      using gaps(2) that by (auto simp: gaps_between_def)
    then have "range_end g = br_start g + br_len g" using vr(1,2) by (simp add: range_end_def saturating_add_def range_fits_def)
    then show ?thesis using cache_read_slices_ok [OF c, of g] cslice_ok_mono [OF _ g(1)] g(2) by (metis le_add1)
  qed
  then have "list_all (\<lambda>g. \<exists>ss. cache_read_slices (vs_cache v) g = Inr ss \<and> (\<forall>s \<in> set ss. cslice_ok (vs_cache v) rng s)) gaps"
    by (simp add: list_all_iff)
  then obtain found where found: "list_all2 (\<lambda>g ss. cache_read_slices (vs_cache v) g = Inr ss \<and>
      (\<forall>s \<in> set ss. cslice_ok (vs_cache v) rng s)) gaps found" by (auto dest!: list_all_choice)
  then have run: "try_map (cache_read_slices (vs_cache v)) gaps = Inr found"
    unfolding try_map_Inr_iff by (rule list.rel_mono_strong) simp
  have ok: "cslice_ok (vs_cache v) rng s" if "s \<in> set (concat found)" for s
    using that list_all2_mem2 [OF found] by auto
  have "spans_in (br_start rng) (range_end rng) (?spans @ map (\<lambda>s. (cs_start s, cs_end s)) (concat found))"
    using os(2) cslices_in [OF ok] by (simp only: spans_in_append)
  from gaps_in_range_ok [OF this rng(2) vr(1)]
  obtain misses where m: "gaps_in_range rng (?spans @ map (\<lambda>s. (cs_start s, cs_end s)) (concat found)) = Inr misses"
    "gaps_between (br_start rng) (range_end rng) (?spans @ map (\<lambda>s. (cs_start s, cs_end s)) (concat found)) misses"
    by blast
  let ?plan = "\<lparr>rp_root = vs_root v, rp_overlay_slices = ?os, rp_cache_slices = concat found, rp_tree_misses = misses\<rparr>"
  have "plan_read v rng = Inr ?plan"
    unfolding plan_read_def Let_def vr(3) os(1) and_then.simps gaps(1) run m(1) ..
  moreover have "plan_ok v rng ?plan" unfolding plan_ok_def read_plan.select_convs using ok m(2) by blast
  ultimately show thesis by (rule that)
qed

lemma slice_copy_writes:
  assumes inv: "view_inv committed v" and rng: "range_end rng = br_start rng + br_len rng"
    and ok: "cslice_ok (vs_cache v) rng s" and len: "length data = br_len rng"
  shows "\<exists>data'. slice_copy_to s rng data = Inr data' \<and>
    writes rng {cs_start s ..< cs_end s} (view_byte committed v) data data'"
proof -
  obtain data' where d: "slice_copy_to s rng data = Inr data'" "length data' = br_len rng"
    "\<And>x. br_start rng \<le> x \<Longrightarrow> x < range_end rng \<Longrightarrow> data' ! (x - br_start rng) =
      (if cs_start s \<le> x \<and> x < cs_end s then the (cache_byte (vs_cache v) x) else data ! (x - br_start rng))"
    using slice_copy_to_ok [OF ok order.refl order.refl len rng] by blast
  have "the (cache_byte (vs_cache v) x) = view_byte committed v x" if "cs_start s \<le> x" "x < cs_end s" for x
  proof -
    have "cache_byte (vs_cache v) x \<noteq> None" using ok that by (simp add: cslice_ok_def)
    then obtain b where b: "cache_byte (vs_cache v) x = Some b" by blast
    then have "overlay_at (vs_overlay v) x = None" "b = committed (vs_root v) x"
      using inv by (auto simp: view_inv_def)
    then show ?thesis using b by (simp add: view_byte_def overlay_byte_def)
  qed
  then show ?thesis using d rng len by (auto simp: writes_def range_bytes_def)
qed

lemma overlay_record_writes:
  assumes ov: "overlay_inv (vs_overlay v)" and rng: "range_end rng = br_start rng + br_len rng"
    and p: "p \<in> set (clip split_at (br_start rng) (range_end rng) (vs_overlay v))" and len: "length data = br_len rng"
  shows "\<exists>data'. overlay_record rng (slice_of p) data = Inr data' \<and>
    writes rng {fst p ..< ext_end (snd p)} (view_byte committed v) data data'"
proof -
  let ?m = "clip split_at (br_start rng) (range_end rng) (vs_overlay v)"
  let ?o = "ext_value (snd p)" and ?n = "ext_end (snd p) - fst p"
  have inv: "em_inv ?m" using ov by (intro em_inv_clip) (simp add: overlay_inv_def)
  have lt: "fst p < ext_end (snd p)" using em_inv_mem [OF inv p] .
  have b: "br_start rng \<le> fst p" "ext_end (snd p) \<le> range_end rng" using clip_bounds [OF p] by auto
  obtain q where q: "q \<in> set (vs_overlay v)" "fst p = max (br_start rng) (fst q)" "br_start rng < ext_end (snd q)"
    "ext_end (snd p) = min (range_end rng) (ext_end (snd q))" "?o = split_at (ext_value (snd q)) (fst p - fst q)"
    using p by (rule clip_mem)
  have "oe_offset (ext_value (snd q)) + (ext_end (snd q) - fst q) \<le> length (wrec_data (oe_record (ext_value (snd q))))"
    using overlay_inv_mem(4) [OF ov q(1)] .
  then have fit: "oe_offset ?o + ?n \<le> length (wrec_data (oe_record ?o))"
    using q lt by (auto simp: split_at_def)
  let ?bs = "slice (wrec_data (oe_record ?o)) (oe_offset ?o) ?n"
  have len_bs: "length ?bs = ?n" using fit by (simp add: length_slice)
  have "overlay_at (vs_overlay v) x = Some (oe_seq ?o, oe_record ?o, oe_offset ?o + (x - fst p))"
    if "fst p \<le> x" "x < ext_end (snd p)" for x
  proof -
    have "overlay_at ?m x = Some (value_at ?o (x - fst p))" using em_at_mem [OF inv p that] .
    then show ?thesis using that b by (simp add: overlay.em_at_clip value_at_def split: if_splits)
  qed
  then have "?bs ! (x - fst p) = view_byte committed v x" if "fst p \<le> x" "x < fst p + length ?bs" for x
    using that fit lt len_bs by (simp add: view_byte_def overlay_byte_def nth_slice)
  from copy_at_writes [OF len b(1) _ this]
  have "writes rng {fst p ..< ext_end (snd p)} (view_byte committed v) data (copy_at data (fst p - br_start rng) ?bs)"
    using b(2) rng lt len_bs by simp
  then show ?thesis using b lt by (simp add: overlay_record_def slice_of_def Let_def max_absorb2 min_absorb2)
qed

section \<open>The contract of tree readers\<close>

locale tree_reader =
  fixes read_committed :: tree_read
    and committed :: "root_snapshot \<Rightarrow> nat \<Rightarrow> u8"
    and root_ok :: "root_snapshot \<Rightarrow> bool"
  assumes committed_block: "root_ok root \<Longrightarrow> read_committed root rng = Inr b \<Longrightarrow>
      new_block rng (blk_parts b) = Inr b \<and> (\<forall>x \<in> range_bytes rng. materialize b ! (x - br_start rng) = committed root x)"
begin

definition good_block :: "root_snapshot \<Rightarrow> block \<Rightarrow> bool" where
  "good_block root b \<longleftrightarrow> new_block (blk_range b) (blk_parts b) = Inr b \<and> br_len (blk_range b) \<le> u32_max \<and>
    br_start (blk_range b) + br_len (blk_range b) \<le> rs_size_bytes root \<and>
    (\<forall>x \<in> range_bytes (blk_range b). materialize b ! (x - br_start (blk_range b)) = committed root x)"

lemma read_misses_writes:
  assumes "root_ok root" "read_misses read_committed root rng misses data = Inr (data', fills)"
    and "length data = br_len rng" "br_len rng \<le> u32_max" "range_end rng = br_start rng + br_len rng" "range_end rng \<le> rs_size_bytes root"
    and "\<And>m. m \<in> set misses \<Longrightarrow> br_start rng \<le> br_start m \<and> br_start m + br_len m \<le> range_end rng"
    and "\<And>m x. m \<in> set misses \<Longrightarrow> x \<in> range_bytes m \<Longrightarrow> f x = committed root x"
  shows "writes rng (\<Union> (range_bytes ` set misses)) f data data' \<and> (\<forall>b \<in> set fills. good_block root b)"
  using assms(2,3,7,8)
proof (induction misses arbitrary: data fills)
  case Nil
  then show ?case by (simp add: writes_none)
next
  case (Cons m misses)
  obtain b d fs where b: "read_committed root m = Inr b" "blk_range b = m" "copy_tree_block rng b data = Inr d"
    "read_misses read_committed root rng misses d = Inr (data', fs)" "fills = b # fs"
    using Cons.prems(1) by (auto simp: and_then_Inr_iff split: if_splits)
  note cb = committed_block [OF assms(1) b(1)]
  then have mat: "length (materialize b) = br_len m" using materialize_block(1) by blast
  have m: "br_start rng \<le> br_start m" "br_start m + br_len m \<le> range_end rng" using Cons.prems(3) [of m] by auto
  have d: "d = copy_at data (br_start m - br_start rng) (materialize b)"
    using b(2,3) mat by (auto simp: copy_tree_block_def Let_def split: if_splits)
  have "writes rng {br_start m ..< br_start m + length (materialize b)} f data d"
    unfolding d
  proof (rule copy_at_writes)
    show "materialize b ! (x - br_start m) = f x" if "br_start m \<le> x" "x < br_start m + length (materialize b)" for x
      using cb that mat Cons.prems(4) [of m x] by (auto simp: range_bytes_def)
  qed (use Cons.prems(2) m mat assms(5) in auto)
  then have w: "writes rng (range_bytes m) f data d" by (simp add: range_bytes_def mat)
  then have "length d = br_len rng" using Cons.prems(2) by (simp add: writes_def)
  from Cons.IH [OF b(4) this] Cons.prems(3,4)
  have IH: "writes rng (\<Union> (range_bytes ` set misses)) f d data'" "\<forall>b \<in> set fs. good_block root b" by auto
  have "good_block root b" using cb b(2) m assms(4-6) by (auto simp: good_block_def)
  then show ?case using writes_trans [OF w IH(1)] IH(2) b(5) by simp
qed

text \<open>
  What a read returns: at every byte of the range the overlay's byte, else the committed
  byte, whatever part of it came from the cache.
\<close>

lemma read_data_view:
  assumes inv: "view_inv committed v" and ok: "root_ok (vs_root v)" and plan: "plan_ok v rng plan"
    and rng: "br_start rng + br_len rng \<le> rs_size_bytes (vs_root v)" "br_len rng \<le> u32_max"
    and run: "read_data read_committed rng plan = Inr (data, fills)"
  shows "data = map (view_byte committed v) [br_start rng ..< br_start rng + br_len rng]"
    "\<forall>b \<in> set fills. good_block (vs_root v) b"
proof -
  note vr = view_range [OF inv rng(1)]
  have ov: "overlay_inv (vs_overlay v)" using inv by (simp add: view_inv_def overlay_in_def)
  let ?m = "clip split_at (br_start rng) (range_end rng) (vs_overlay v)" and ?f = "view_byte committed v"
  have plan': "rp_root plan = vs_root v" "rp_overlay_slices plan = map slice_of ?m"
    "\<And>s. s \<in> set (rp_cache_slices plan) \<Longrightarrow> cslice_ok (vs_cache v) rng s"
    "gaps_between (br_start rng) (range_end rng) (map (\<lambda>s. (os_start s, os_end s)) (map slice_of ?m) @
      map (\<lambda>s. (cs_start s, cs_end s)) (rp_cache_slices plan)) (rp_tree_misses plan)"
    using plan by (auto simp: plan_ok_def)
  let ?C = "\<Union> ((\<lambda>s. {cs_start s ..< cs_end s}) ` set (rp_cache_slices plan))"
  let ?M = "\<Union> (range_bytes ` set (rp_tree_misses plan))" and ?O = "\<Union> ((\<lambda>p. {fst p ..< ext_end (snd p)}) ` set ?m)"
  obtain d1 where d1: "try_fold (\<lambda>data s. slice_copy_to s rng data) (replicate (br_len rng) 0) (rp_cache_slices plan) = Inr d1"
    "writes rng ?C ?f (replicate (br_len rng) 0) d1"
    using try_fold_writes [of "rp_cache_slices plan" rng "\<lambda>data s. slice_copy_to s rng data"
        "\<lambda>s. {cs_start s ..< cs_end s}" ?f "replicate (br_len rng) 0"]
      slice_copy_writes [OF inv vr(1) plan'(3)] by auto
  have l1: "length d1 = br_len rng" using d1(2) by (simp add: writes_def)
  obtain d2 where d2: "read_misses read_committed (vs_root v) rng (rp_tree_misses plan) d1 = Inr (d2, fills)"
    "try_fold (\<lambda>data s. overlay_record rng s data) d2 (rp_overlay_slices plan) = Inr data"
    using run d1(1) plan'(1) by (auto simp: read_data_def and_then_Inr_iff)
  have missed: "?f x = committed (vs_root v) x" if "m \<in> set (rp_tree_misses plan)" "x \<in> range_bytes m" for m x
  proof -
    note d = gaps_betweenD(2) [OF plan'(4) that]
    then have x: "x \<in> range_bytes rng" using vr(1) by (simp add: range_bytes_def)
    have "overlay_at (vs_overlay v) x = None"
      using d overlay_slices_ok(3) [OF ov vr(1) x] by (simp only: uncovered_append)
    then show ?thesis by (simp add: view_byte_def overlay_byte_def)
  qed
  have w2: "writes rng ?M ?f d1 d2" and good: "\<forall>b \<in> set fills. good_block (vs_root v) b"
    using read_misses_writes [OF ok d2(1) l1 rng(2) vr(1) _ _ missed] gaps_betweenD(1) [OF plan'(4)] rng(1) vr(1) by auto
  have l2: "length d2 = br_len rng" using w2 l1 by (simp add: writes_def)
  have "try_fold (\<lambda>data s. overlay_record rng s data) d (map slice_of m) =
      try_fold (\<lambda>data p. overlay_record rng (slice_of p) data) d m" for d m
    by (induction m arbitrary: d) auto
  then have w3: "writes rng ?O ?f d2 data"
    using try_fold_writes [of ?m rng "\<lambda>data p. overlay_record rng (slice_of p) data"
        "\<lambda>p. {fst p ..< ext_end (snd p)}" ?f d2]
      overlay_record_writes [OF ov vr(1)] d2(2) plan'(2) l2 by fastforce
  show "\<forall>b \<in> set fills. good_block (vs_root v) b" by (rule good)
  have "x \<in> ?C \<union> ?M \<union> ?O" if x: "x \<in> range_bytes rng" for x
  proof (rule ccontr)
    assume out: "x \<notin> ?C \<union> ?M \<union> ?O"
    then have "uncovered (map (\<lambda>s. (os_start s, os_end s)) (map slice_of ?m)) x"
      "uncovered (map (\<lambda>s. (cs_start s, cs_end s)) (rp_cache_slices plan)) x"
      by (auto simp: uncovered_def slice_of_def)
    then show False using gaps_betweenD(3) [OF plan'(4), of x] x vr(1) out by (auto simp: uncovered_append range_bytes_def)
  qed
  with writes_trans [OF writes_trans [OF d1(2) w2] w3]
  have "data ! (x - br_start rng) = ?f x" if "x \<in> range_bytes rng" for x
    using that by (simp add: writes_def)
  from this [of "br_start rng + i" for i] show "data = map ?f [br_start rng ..< br_start rng + br_len rng]"
    using w3 l2 by (intro nth_equalityI) (auto simp: writes_def range_bytes_def)
qed

end

section \<open>Filling the cache\<close>

lemma parts_tile_mem:
  "parts_tile a ps b \<Longrightarrow> p \<in> set ps \<Longrightarrow> part_len_ok p \<and> a \<le> br_start (part_range p) \<and>
    br_start (part_range p) + br_len (part_range p) \<le> b"
proof (induction ps arbitrary: a)
  case (Cons q ps)
  then show ?case using parts_tile_le [of "a + br_len (part_range q)" ps b] by fastforce
qed simp

text \<open>
  Inserting committed bytes at positions the overlay does not cover keeps the invariant, in
  whatever state the view is, as long as its root is the one the bytes were read from.
\<close>

lemma view_inv_cache:
  assumes "view_inv committed v" "cache_inv c"
    and "\<And>x b. cache_byte c x = Some b \<Longrightarrow> overlay_at (vs_overlay v) x = None \<and> b = committed (vs_root v) x"
  shows "view_inv committed (v\<lparr>vs_cache := c\<rparr>)"
  using assms by (simp add: view_inv_def)

definition same_view :: "read_view \<Rightarrow> read_view \<Rightarrow> bool" where
  "same_view v v' \<longleftrightarrow> v' = v\<lparr>vs_cache := vs_cache v'\<rparr>"

lemma same_viewD:
  "same_view v v' \<Longrightarrow> vs_root v' = vs_root v \<and> vs_overlay v' = vs_overlay v \<and>
    vs_last_applied_seq v' = vs_last_applied_seq v \<and> vs_wal_debt_bytes v' = vs_wal_debt_bytes v"
  unfolding same_view_def by (cases v; cases v') simp

lemma same_view_refl [simp]: "same_view v v" "same_view v (v\<lparr>vs_cache := c\<rparr>)"
  by (simp_all add: same_view_def)

lemma same_view_trans: "same_view a b \<Longrightarrow> same_view b c \<Longrightarrow> same_view a c"
  by (cases a; cases b; cases c) (simp add: same_view_def)

lemma same_view_byte: "same_view v v' \<Longrightarrow> view_byte committed v' x = view_byte committed v x"
  by (drule same_viewD, elim conjE) (simp only: view_byte_def)

lemma fill_hole_ok:
  assumes inv: "view_inv committed v" and hole: "br_start hole + br_len hole \<le> rs_size_bytes (vs_root v)"
    and free: "\<And>x. x \<in> range_bytes hole \<Longrightarrow> overlay_at (vs_overlay v) x = None"
    and bs: "length bs = br_len hole" "\<And>x. x \<in> range_bytes hole \<Longrightarrow> bs ! (x - br_start hole) = committed (vs_root v) x"
  shows "\<exists>c. insert_bytes (vs_cache v) hole bs placement = (c, Inr ()) \<and> view_inv committed (v\<lparr>vs_cache := c\<rparr>)"
proof -
  note vr = view_range [OF inv hole]
  have c: "cache_inv (vs_cache v)" and old: "\<And>x b. cache_byte (vs_cache v) x = Some b \<Longrightarrow>
      overlay_at (vs_overlay v) x = None \<and> b = committed (vs_root v) x" using inv by (auto simp: view_inv_def)
  obtain c' where c': "insert_bytes (vs_cache v) hole bs placement = (c', Inr ())" "cache_inv c'"
    "\<And>x. cache_byte c' x \<in> {None, if x \<in> range_bytes hole then Some (bs ! (x - br_start hole)) else cache_byte (vs_cache v) x}"
    using insert_bytes_adds [OF c vr(2) bs(1), of placement] by (auto simp: adds_def)
  have "overlay_at (vs_overlay v) x = None \<and> b = committed (vs_root v) x" if "cache_byte c' x = Some b" for x b
    using that c'(3) [of x] free [of x] bs(2) [of x] old [of x b] by (auto split: if_splits)
  then show ?thesis using c'(1) view_inv_cache [OF inv c'(2)] by blast
qed

lemma fill_part_ok:
  assumes inv: "view_inv committed v" and part: "part_len_ok part" "br_len (part_range part) \<le> u32_max"
    "br_start (part_range part) + br_len (part_range part) \<le> rs_size_bytes (vs_root v)"
    "\<And>x. x \<in> range_bytes (part_range part) \<Longrightarrow>
      part_bytes part ! (x - br_start (part_range part)) = committed (vs_root v) x"
  shows "\<exists>v'. fill_part v part = (v', Inr ()) \<and> view_inv committed v' \<and> same_view v v'"
proof (cases part)
  case (DataPart rng bs)
  have len: "length bs = br_len rng" and rng: "br_start rng + br_len rng \<le> rs_size_bytes (vs_root v)" "br_len rng \<le> u32_max"
    and val: "\<And>x. x \<in> range_bytes rng \<Longrightarrow> bs ! (x - br_start rng) = committed (vs_root v) x"
    using part DataPart by auto
  note vr = view_range [OF inv rng(1)]
  have ov: "overlay_inv (vs_overlay v)" and c: "cache_inv (vs_cache v)"
    using inv by (auto simp: view_inv_def overlay_in_def)
  note os = overlay_slices_ok [OF ov vr(1)]
  let ?os = "map (\<lambda>s. (os_start s, os_end s)) (map slice_of (clip split_at (br_start rng) (range_end rng) (vs_overlay v)))"
  obtain cs where cs: "cache_read_slices (vs_cache v) rng = Inr cs" "\<And>s. s \<in> set cs \<Longrightarrow> cslice_ok (vs_cache v) rng s"
    using cache_read_slices_ok [OF c, of rng] vr(1) by (metis le_add1)
  let ?spans = "?os @ map (\<lambda>s. (cs_start s, cs_end s)) cs"
  have "spans_in (br_start rng) (range_end rng) ?spans" using os(2) cslices_in [OF cs(2)] by (simp only: spans_in_append)
  then obtain holes where holes: "gaps_in_range rng ?spans = Inr holes" "gaps_between (br_start rng) (range_end rng) ?spans holes"
    using gaps_in_range_ok [OF _ rng(2) vr(1)] by blast
  let ?step = "\<lambda>v hole. let (c, r) = insert_bytes (vs_cache v) hole (slice bs (br_start hole - br_start rng) (br_len hole)) Hot
             in (v\<lparr>vs_cache := c\<rparr>, r)"
  have "\<exists>v'. loop_st ?step v holes = (v', Inr ()) \<and> view_inv committed v' \<and> same_view v v'"
  proof (rule loop_st_ok)
    fix ys h zs w assume xs: "holes = ys @ h # zs" and w: "view_inv committed w \<and> same_view v w"
    then have h: "h \<in> set holes" and vw: "vs_root w = vs_root v" "vs_overlay w = vs_overlay v" using same_viewD by auto
    note b = gaps_betweenD(1) [OF holes(2) h] and u = gaps_betweenD(2) [OF holes(2) h]
    have sl: "br_start h - br_start rng + br_len h \<le> length bs" using b len vr(1) by linarith
    have "\<exists>c. insert_bytes (vs_cache w) h (slice bs (br_start h - br_start rng) (br_len h)) Hot = (c, Inr ()) \<and>
        view_inv committed (w\<lparr>vs_cache := c\<rparr>)"
    proof (rule fill_hole_ok)
      fix x assume x: "x \<in> range_bytes h"
      then have xr: "x \<in> range_bytes rng" using u [OF x] vr(1) by (simp add: range_bytes_def)
      show "overlay_at (vs_overlay w) x = None"
        unfolding vw using u [OF x] os(3) [OF xr] by (simp only: uncovered_append)
      show "slice bs (br_start h - br_start rng) (br_len h) ! (x - br_start h) = committed (vs_root w) x"
        unfolding vw using x xr b sl val [OF xr] by (auto simp: range_bytes_def nth_slice)
    qed (use w b sl rng(1) vr(1) vw in \<open>auto simp: length_slice\<close>)
    then show "\<exists>v'. ?step w h = (v', Inr ()) \<and> view_inv committed v' \<and> same_view v v'"
      using w same_view_trans [of v w] by auto
  qed (use inv in simp)
  then show ?thesis
    unfolding fill_part_def DataPart block_part.case os(1) then_st.simps cs(1) holes(1) .
qed (use inv in \<open>simp add: fill_part_def\<close>)

lemma loop_view_ok:
  assumes "view_inv committed v"
    and "\<And>x w. x \<in> set xs \<Longrightarrow> view_inv committed w \<Longrightarrow> vs_root w = vs_root v \<Longrightarrow>
      \<exists>w'. step w x = (w', Inr ()) \<and> view_inv committed w' \<and> same_view w w'"
  shows "\<exists>v'. loop_st step v xs = (v', Inr ()) \<and> view_inv committed v' \<and> same_view v v'"
proof (rule loop_st_ok)
  fix ys x zs w assume "xs = ys @ x # zs" "view_inv committed w \<and> same_view v w"
  then obtain w' where "step w x = (w', Inr ())" "view_inv committed w'" "same_view w w'" "same_view v w"
    using assms(2) [of x w] same_viewD by auto
  then show "\<exists>w'. step w x = (w', Inr ()) \<and> view_inv committed w' \<and> same_view v w'"
    using same_view_trans [of v w w'] by auto
qed (use assms(1) in simp)

context tree_reader
begin

lemma fill_block_ok:
  assumes "view_inv committed v" "good_block (vs_root v) b"
  shows "\<exists>v'. insert_tree_block_fills v b = (v', Inr ()) \<and> view_inv committed v' \<and> same_view v v'"
  unfolding insert_tree_block_fills_def
proof (rule loop_view_ok [OF assms(1)])
  fix p w assume p: "p \<in> set (blk_parts b)" and w: "view_inv committed w" "vs_root w = vs_root v"
  have nb: "new_block (blk_range b) (blk_parts b) = Inr b" and rng: "br_len (blk_range b) \<le> u32_max"
    "br_start (blk_range b) + br_len (blk_range b) \<le> rs_size_bytes (vs_root v)"
    and val: "\<And>x. x \<in> range_bytes (blk_range b) \<Longrightarrow> materialize b ! (x - br_start (blk_range b)) = committed (vs_root v) x"
    using assms(2) by (auto simp: good_block_def)
  have tile: "parts_tile (br_start (blk_range b)) (blk_parts b) (br_start (blk_range b) + br_len (blk_range b))"
    using nb by (simp add: new_block_Inr_iff)
  note pb = parts_tile_mem [OF tile p]
  show "\<exists>w'. fill_part w p = (w', Inr ()) \<and> view_inv committed w' \<and> same_view w w'"
  proof (rule fill_part_ok [OF w(1)])
    fix x assume x: "x \<in> range_bytes (part_range p)"
    then show "part_bytes p ! (x - br_start (part_range p)) = committed (vs_root w) x"
      using materialize_block(4) [OF nb p x] val [of x] w(2) by auto
  qed (use pb rng w(2) in auto)
qed

text \<open>The end of a read, in any later state: the promotion and the fills.\<close>

lemma read_finish_ok:
  assumes inv: "view_inv committed v" and good: "\<And>b. b \<in> set fills \<Longrightarrow> good_block (rp_root plan) b"
  shows "\<exists>v'. read_finish v plan fills = (v', Inr ()) \<and> view_inv committed v' \<and> same_view v v'"
proof -
  let ?c = "promote_hits (vs_cache v) (map cs_object_id (rp_cache_slices plan))"
  let ?v = "v\<lparr>vs_cache := ?c\<rparr>"
  have c: "cache_inv (vs_cache v)" using inv by (simp add: view_inv_def)
  have inv1: "view_inv committed ?v"
    using inv promote_hits_ok [OF c] by (intro view_inv_cache) (auto simp: view_inv_def)
  show ?thesis
  proof (cases "(rp_cache_slices plan \<noteq> [] \<or> fills \<noteq> []) \<and> vs_root v = rp_root plan")
    case True
    have "\<exists>v'. loop_st insert_tree_block_fills ?v fills = (v', Inr ()) \<and> view_inv committed v' \<and> same_view ?v v'"
      by (rule loop_view_ok [OF inv1]) (use fill_block_ok good True in auto)
    then show ?thesis using True same_view_trans [of v ?v] by (auto simp: read_finish_def Let_def)
  next
    case False
    then show ?thesis using inv inv1 by (auto simp: read_finish_def Let_def)
  qed
qed

lemma view_read_ok:
  assumes inv: "view_inv committed v" and ok: "root_ok (vs_root v)"
    and rng: "br_start rng + br_len rng \<le> rs_size_bytes (vs_root v)" "br_len rng \<le> u32_max"
    and run: "view_read read_committed v rng = (v', Inr data)"
  shows "data = map (view_byte committed v) [br_start rng ..< br_start rng + br_len rng]"
    "view_inv committed v'" "same_view v v'"
proof -
  obtain plan where plan: "plan_read v rng = Inr plan" "plan_ok v rng plan"
    using plan_read_ok [OF inv rng] by blast
  obtain fills where d: "read_data read_committed rng plan = Inr (data, fills)" "read_finish v plan fills = (v', Inr ())"
    using run plan(1) by (auto simp: view_read_def then_st_Inr_iff)
  note rd = read_data_view [OF inv ok plan(2) rng d(1)]
  show "data = map (view_byte committed v) [br_start rng ..< br_start rng + br_len rng]" by (rule rd(1))
  have "rp_root plan = vs_root v" using plan(2) by (simp add: plan_ok_def)
  with read_finish_ok [OF inv, of fills plan] rd(2) d(2) show "view_inv committed v'" "same_view v v'" by auto
qed

end

section \<open>Applying records\<close>

definition record_fits :: "read_view \<Rightarrow> wal_record \<Rightarrow> bool" where
  "record_fits v r \<longleftrightarrow> rec_ok r \<and> br_len (wrec_range r) \<le> u32_max \<and>
    br_start (wrec_range r) + br_len (wrec_range r) \<le> rs_size_bytes (vs_root v)"

lemma apply_wal_record_ok:
  assumes inv: "view_inv committed v" and fits: "record_fits v r" and sq: "wrec_seq r = vs_last_applied_seq v + 1"
    and bounds: "vs_last_applied_seq v + 1 \<le> u64_max" "vs_wal_debt_bytes v + length (wrec_data r) \<le> u64_max"
  obtains v' where "apply_wal_record v r = (v', Inr ())" "view_inv committed v'" "vs_root v' = vs_root v"
    "vs_last_applied_seq v' = wrec_seq r" "vs_wal_debt_bytes v' = vs_wal_debt_bytes v + length (wrec_data r)"
    "\<And>x. overlay_at (vs_overlay v') x =
      (if covers r x then Some (wrec_seq r, r, x - br_start (wrec_range r)) else overlay_at (vs_overlay v) x)"
proof -
  have f: "rec_ok r" "br_len (wrec_range r) \<le> u32_max"
    "br_start (wrec_range r) + br_len (wrec_range r) \<le> rs_size_bytes (vs_root v)" using fits by (auto simp: record_fits_def)
  note vr = view_range [OF inv f(3)]
  have ov: "overlay_inv (vs_overlay v)" and c: "cache_inv (vs_cache v)" and base: "rs_base_wal_seq (vs_root v) \<le> vs_last_applied_seq v"
    using inv by (auto simp: view_inv_def overlay_in_def)
  obtain m where m: "insert_record (vs_overlay v) r = (m, Inr ())" "overlay_inv m" "\<And>x. overlay_at m x =
      (if covers r x then Some (wrec_seq r, r, x - br_start (wrec_range r)) else overlay_at (vs_overlay v) x)"
    using insert_record_at [OF ov f(1)] by blast
  obtain d where d: "trim_range (vs_cache v) (wrec_range r) = (d, Inr ())" "cache_inv d"
    "\<And>x. cache_byte d x = (if x \<in> range_bytes (wrec_range r) then None else cache_byte (vs_cache v) x)"
    using trim_range_ok [OF c vr(1)] by blast
  let ?v = "v\<lparr>vs_overlay := m, vs_cache := d, vs_last_applied_seq := wrec_seq r,
    vs_wal_debt_bytes := vs_wal_debt_bytes v + length (wrec_data r)\<rparr>"
  have "apply_wal_record v r = (?v, Inr ())"
    using vr(3) sq base bounds m(1) d(1)
    by (simp add: apply_wal_record_def checked_add_def Let_def)
  moreover have "overlay_in (rs_base_wal_seq (vs_root v)) (wrec_seq r) (rs_size_bytes (vs_root v)) m"
    using inv m(2,3) f sq base by (auto simp: overlay_in_def view_inv_def split: if_splits) fastforce+
  then have "view_inv committed ?v"
    using inv d(2,3) m(3) sq base by (auto simp: view_inv_def covers_def split: if_splits)
  ultimately show thesis using that [of ?v] m(3) by simp
qed

lemma apply_wal_record_seq:
  assumes "apply_wal_record v r = (v', Inr ())"
  shows "wrec_seq r = vs_last_applied_seq v + 1 \<and> vs_last_applied_seq v + 1 \<le> u64_max \<and>
    vs_wal_debt_bytes v + length (wrec_data r) \<le> u64_max"
  using assms
  by (auto simp: apply_wal_record_def then_st_Inr_iff checked_arith Let_def split: if_splits prod.splits)

text \<open>A record changes the bytes it covers and no others.\<close>

lemma view_byte_applied:
  assumes "\<And>x. overlay_at (vs_overlay v') x =
      (if covers r x then Some (wrec_seq r, r, x - br_start (wrec_range r)) else overlay_at (vs_overlay v) x)"
    and "vs_root v' = vs_root v"
  shows "view_byte committed v' x = (if covers r x then record_byte r x else view_byte committed v x)"
  unfolding view_byte_def overlay_byte_def assms record_byte_def by simp

section \<open>Advancing the root\<close>

lemma retired_mem:
  assumes ov: "overlay_in lo hi n (vs_overlay v)" and n: "n + CACHE_BLOCK_BYTES \<le> u64_max"
    and e: "e \<in> set (visible_through (vs_overlay v) chk)"
  obtains "byte_range_from_bounds (re_start e) (re_end e) = Inr (new_range (re_start e) (re_end e - re_start e))"
    "range_fits (new_range (re_start e) (re_end e - re_start e))" "re_start e < re_end e"
    "re_offset e + (re_end e - re_start e) \<le> length (wrec_data (re_record e))" "length (wrec_data (re_record e)) \<le> u64_max"
    "\<And>x. re_start e \<le> x \<Longrightarrow> x < re_end e \<Longrightarrow>
      overlay_at (vs_overlay v) x = Some (re_seq e, re_record e, re_offset e + (x - re_start e))" "re_seq e \<le> chk"
proof -
  obtain p where p: "p \<in> set (vs_overlay v)" "oe_seq (ext_value (snd p)) \<le> chk" "e = retired_of p"
    using e by (auto simp: visible_through_mem)
  have inv: "overlay_inv (vs_overlay v)" "em_inv (vs_overlay v)" using ov by (auto simp: overlay_in_def overlay_inv_def)
  have lt: "re_start e < re_end e" using em_inv_mem [OF inv(2) p(1)] p(3) by (simp add: retired_of_def)
  have at: "overlay_at (vs_overlay v) x = Some (re_seq e, re_record e, re_offset e + (x - re_start e))"
    if "re_start e \<le> x" "x < re_end e" for x
    using em_at_mem [OF inv(2) p(1), of x value_at] that p(3) by (simp add: retired_of_def value_at_def)
  note mem = overlay_inv_mem [OF inv(1) p(1)]
  have off: "re_offset e + (re_end e - re_start e) \<le> length (wrec_data (re_record e))"
    using mem(4) p(3) by (simp add: retired_of_def)
  have rec: "br_len (wrec_range (re_record e)) \<le> u32_max"
    "br_start (wrec_range (re_record e)) + br_len (wrec_range (re_record e)) \<le> n"
    using at [of "re_start e"] lt ov by (auto simp: overlay_in_def)
  have len: "length (wrec_data (re_record e)) = br_len (wrec_range (re_record e))"
    "re_start e = br_start (wrec_range (re_record e)) + re_offset e"
    using mem(1,3) p(3) by (simp_all add: retired_of_def rec_ok_def)
  have "re_end e \<le> n" using off len rec(2) by linarith
  then have fits: "range_fits (new_range (re_start e) (re_end e - re_start e))" using n lt by (simp add: range_fits_def)
  have b: "byte_range_from_bounds (re_start e) (re_end e) = Inr (new_range (re_start e) (re_end e - re_start e))"
    using off len(1) rec(1) lt by (intro byte_range_from_bounds_ok) auto
  have "length (wrec_data (re_record e)) \<le> u64_max" using len(1) rec(2) n by simp
  then show thesis using that b fits lt off at p(2,3) by (simp add: retired_of_def)
qed

definition retired_at :: "overlay_extent_map \<Rightarrow> wal_seq \<Rightarrow> nat \<Rightarrow> bool" where
  "retired_at m chk x \<longleftrightarrow> (\<exists>s r k. overlay_at m x = Some (s, r, k) \<and> s \<le> chk)"

lemma retire_through_ok:
  assumes inv: "view_inv committed v"
  obtains v' where "retire_through v chk = (v', Inr ())" "v' = v\<lparr>vs_overlay := vs_overlay v', vs_cache := vs_cache v'\<rparr>"
    "overlay_inv (vs_overlay v')" "cache_inv (vs_cache v')"
    "\<And>x. overlay_at (vs_overlay v') x = (if retired_at (vs_overlay v) chk x then None else overlay_at (vs_overlay v) x)"
    "\<And>x b. cache_byte (vs_cache v') x = Some b \<Longrightarrow>
      retired_at (vs_overlay v) chk x \<and> overlay_byte (vs_overlay v) x = Some b \<or> cache_byte (vs_cache v) x = Some b"
proof -
  let ?ov = "vs_overlay v" let ?ret = "visible_through ?ov chk"
  have oin: "overlay_in (rs_base_wal_seq (vs_root v)) (vs_last_applied_seq v) (rs_size_bytes (vs_root v)) ?ov"
    and n: "rs_size_bytes (vs_root v) + CACHE_BLOCK_BYTES \<le> u64_max" using inv by (auto simp: view_inv_def)
  have ov: "overlay_inv ?ov" using oin by (simp add: overlay_in_def)
  let ?step = "\<lambda>v ext. then_st (v, byte_range_from_bounds (re_start ext) (re_end ext)) (\<lambda>v rng.
           let (c, r) = insert_wal_record_slice (vs_cache v) rng (re_record ext) (re_offset ext) Cold
           in (v\<lparr>vs_cache := c\<rparr>, r))"
  let ?P = "\<lambda>w. same_view v w \<and> cache_inv (vs_cache w) \<and> (\<forall>x b. cache_byte (vs_cache w) x = Some b \<longrightarrow>
      retired_at ?ov chk x \<and> overlay_byte ?ov x = Some b \<or> cache_byte (vs_cache v) x = Some b)"
  have "\<exists>v'. loop_st ?step v ?ret = (v', Inr ()) \<and> ?P v'"
  proof (rule loop_st_ok)
    fix ys e zs w assume xs: "?ret = ys @ e # zs" and P: "?P w"
    then have "e \<in> set ?ret" by simp
    from oin n this show "\<exists>v'. ?step w e = (v', Inr ()) \<and> ?P v'"
    proof (rule retired_mem)
      let ?rng = "new_range (re_start e) (re_end e - re_start e)"
      assume e: "byte_range_from_bounds (re_start e) (re_end e) = Inr ?rng" "range_fits ?rng" "re_start e < re_end e"
        "re_offset e + (re_end e - re_start e) \<le> length (wrec_data (re_record e))" "length (wrec_data (re_record e)) \<le> u64_max"
        "re_seq e \<le> chk"
        and at: "\<And>x. re_start e \<le> x \<Longrightarrow> x < re_end e \<Longrightarrow>
          overlay_at ?ov x = Some (re_seq e, re_record e, re_offset e + (x - re_start e))"
      have "adds (insert_wal_record_slice (vs_cache w) ?rng (re_record e) (re_offset e) Cold) (vs_cache w) ?rng
          (\<lambda>x. wrec_data (re_record e) ! (re_offset e + (x - re_start e)))"
        using insert_wal_record_slice_adds [of "vs_cache w" ?rng "re_offset e" "re_record e" Cold] P e by simp
      then obtain c where c: "insert_wal_record_slice (vs_cache w) ?rng (re_record e) (re_offset e) Cold = (c, Inr ())" "cache_inv c"
        "\<And>x. cache_byte c x \<in> {None, if x \<in> range_bytes ?rng then Some (wrec_data (re_record e) ! (re_offset e + (x - re_start e)))
          else cache_byte (vs_cache w) x}" by (auto simp: adds_def)
      have "retired_at ?ov chk x \<and> overlay_byte ?ov x = Some b \<or> cache_byte (vs_cache v) x = Some b"
        if b: "cache_byte c x = Some b" for x b
      proof (cases "x \<in> range_bytes ?rng")
        case True
        then have "overlay_at ?ov x = Some (re_seq e, re_record e, re_offset e + (x - re_start e))"
          "b = wrec_data (re_record e) ! (re_offset e + (x - re_start e))"
          using at [of x] c(3) [of x] b e(3) by (auto simp: range_bytes_def)
        then show ?thesis using e(6) by (auto simp: retired_at_def overlay_byte_def)
      next
        case False
        then have "cache_byte (vs_cache w) x = Some b" using c(3) [of x] b by auto
        then show ?thesis using P by blast
      qed
      then have "?P (w\<lparr>vs_cache := c\<rparr>)" using P c(2) same_view_trans [of v w "w\<lparr>vs_cache := c\<rparr>"] by simp
      then show ?thesis using e(1) c(1) by (intro exI [of _ "w\<lparr>vs_cache := c\<rparr>"]) simp
    qed
  qed (use inv in \<open>simp add: view_inv_def\<close>)
  then obtain w where w: "loop_st ?step v ?ret = (w, Inr ())" and P: "?P w" by blast
  have "re_start e \<le> re_end e" if "e \<in> set ?ret" for e using oin n that by (rule retired_mem) simp
  then obtain m where m: "remove_retired ?ov ?ret = (m, Inr ())" "overlay_inv m"
    "\<And>x. overlay_at m x = (if \<exists>e \<in> set ?ret. re_start e \<le> x \<and> x < re_end e then None else overlay_at ?ov x)"
    using remove_retired_at [OF ov] by blast
  have "vs_overlay w = ?ov" using P same_viewD by blast
  then have "retire_through v chk = (w\<lparr>vs_overlay := m\<rparr>, Inr ())"
    using w m(1) by (simp add: retire_through_def Let_def)
  moreover have "overlay_at m x = (if retired_at ?ov chk x then None else overlay_at ?ov x)" for x
    using m(3) [of x] visible_through_at [OF ov, of chk x] by (simp add: retired_at_def)
  moreover have "w\<lparr>vs_overlay := m\<rparr> = v\<lparr>vs_overlay := m, vs_cache := vs_cache w\<rparr>"
    using P by (cases v; cases w) (simp add: same_view_def)
  ultimately show thesis using that [of "w\<lparr>vs_overlay := m\<rparr>"] m(2) P by simp
qed

text \<open>
  A root carries on from another when its committed bytes are those of the old root with the
  retired part of the overlay laid over them.
\<close>

definition carries_on :: "(root_snapshot \<Rightarrow> nat \<Rightarrow> u8) \<Rightarrow> read_view \<Rightarrow> root_snapshot \<Rightarrow> bool" where
  "carries_on committed v new_root \<longleftrightarrow> (\<forall>x.
    (overlay_at (vs_overlay v) x = None \<longrightarrow> committed new_root x = committed (vs_root v) x) \<and>
    (retired_at (vs_overlay v) (rs_base_wal_seq new_root) x \<longrightarrow> overlay_byte (vs_overlay v) x = Some (committed new_root x)))"

lemma advance_view:
  assumes inv: "view_inv committed v" and new: "carries_on committed v new_root"
    and chk: "rs_base_wal_seq (vs_root v) \<le> rs_base_wal_seq new_root" "rs_base_wal_seq new_root \<le> vs_last_applied_seq v"
    and size: "rs_size_bytes new_root = rs_size_bytes (vs_root v)"
  obtains v1 where "retire_through v (rs_base_wal_seq new_root) = (v1, Inr ())"
    "vs_last_applied_seq v1 = vs_last_applied_seq v" "vs_wal_debt_bytes v1 = vs_wal_debt_bytes v"
    "\<And>debt. view_inv committed (v1\<lparr>vs_root := new_root, vs_wal_debt_bytes := debt\<rparr>)"
    "\<And>debt x. view_byte committed (v1\<lparr>vs_root := new_root, vs_wal_debt_bytes := debt\<rparr>) x = view_byte committed v x"
    "\<And>x. overlay_at (vs_overlay v1) x =
      (if retired_at (vs_overlay v) (rs_base_wal_seq new_root) x then None else overlay_at (vs_overlay v) x)"
proof -
  let ?chk = "rs_base_wal_seq new_root" and ?ov = "vs_overlay v"
  obtain v1 where v1: "retire_through v ?chk = (v1, Inr ())" "v1 = v\<lparr>vs_overlay := vs_overlay v1, vs_cache := vs_cache v1\<rparr>"
    "overlay_inv (vs_overlay v1)" "cache_inv (vs_cache v1)"
    "\<And>x. overlay_at (vs_overlay v1) x = (if retired_at ?ov ?chk x then None else overlay_at ?ov x)"
    "\<And>x b. cache_byte (vs_cache v1) x = Some b \<Longrightarrow>
      retired_at ?ov ?chk x \<and> overlay_byte ?ov x = Some b \<or> cache_byte (vs_cache v) x = Some b"
    using retire_through_ok [OF inv] by blast
  have last: "vs_last_applied_seq v1 = vs_last_applied_seq v" "vs_wal_debt_bytes v1 = vs_wal_debt_bytes v"
    by (subst v1(2), simp)+
  have old: "overlay_at ?ov x = None \<and> b = committed (vs_root v) x" if "cache_byte (vs_cache v) x = Some b" for x b
    using inv that by (auto simp: view_inv_def)
  have new1: "committed new_root x = committed (vs_root v) x" if "overlay_at ?ov x = None" for x
    using new that by (simp add: carries_on_def)
  have new2: "overlay_byte ?ov x = Some (committed new_root x)" if "retired_at ?ov ?chk x" for x
    using new that by (simp add: carries_on_def)
  have "overlay_in ?chk (vs_last_applied_seq v) (rs_size_bytes (vs_root v)) (vs_overlay v1)"
    using inv v1(3,5) by (auto simp: overlay_in_def view_inv_def retired_at_def split: if_splits)
  moreover have "overlay_at (vs_overlay v1) x = None \<and> b = committed new_root x"
    if "cache_byte (vs_cache v1) x = Some b" for x b
    using v1(5) [of x] v1(6) [OF that] old [of x b] new1 [of x] new2 [of x] by auto
  ultimately have i: "view_inv committed (v1\<lparr>vs_root := new_root, vs_wal_debt_bytes := debt\<rparr>)" for debt
    using inv v1(4) chk size last(1) by (simp add: view_inv_def)
  have bytes: "view_byte committed (v1\<lparr>vs_root := new_root, vs_wal_debt_bytes := debt\<rparr>) x = view_byte committed v x" for debt x
  proof (cases "retired_at ?ov ?chk x")
    case True
    then have "overlay_byte (vs_overlay v1) x = None" using v1(5) [of x] by (simp add: overlay_byte_def)
    then show ?thesis using new2 [OF True] by (simp add: view_byte_def)
  next
    case False
    then show ?thesis using new1 [of x] v1(5) [of x] by (cases "overlay_at ?ov x") (simp_all add: view_byte_def overlay_byte_def)
  qed
  show thesis by (rule that [OF v1(1) last i bytes v1(5)])
qed

lemma advance_root_ok:
  assumes inv: "view_inv committed v" and new: "carries_on committed v new_root"
    and chk: "rs_base_wal_seq (vs_root v) < rs_base_wal_seq new_root" "rs_base_wal_seq new_root \<le> vs_last_applied_seq v"
    and size: "rs_size_bytes new_root = rs_size_bytes (vs_root v)"
  obtains v' where "advance_root v new_root = (v', Inr ())" "view_inv committed v'" "vs_root v' = new_root"
    "\<And>x. view_byte committed v' x = view_byte committed v x" "vs_last_applied_seq v' = vs_last_applied_seq v"
proof -
  obtain v1 where v1: "retire_through v (rs_base_wal_seq new_root) = (v1, Inr ())"
    "vs_last_applied_seq v1 = vs_last_applied_seq v" "vs_wal_debt_bytes v1 = vs_wal_debt_bytes v"
    "\<And>debt. view_inv committed (v1\<lparr>vs_root := new_root, vs_wal_debt_bytes := debt\<rparr>)"
    "\<And>debt x. view_byte committed (v1\<lparr>vs_root := new_root, vs_wal_debt_bytes := debt\<rparr>) x = view_byte committed v x"
    by (rule advance_view [OF inv new less_imp_le [OF chk(1)] chk(2) size]) blast
  let ?debt = "if rs_base_wal_seq new_root = vs_last_applied_seq v then 0 else vs_wal_debt_bytes v1"
  have "advance_root v new_root = (v1\<lparr>vs_root := new_root, vs_wal_debt_bytes := ?debt\<rparr>, Inr ())"
    using v1(1-3) chk size by (cases v1) (simp add: advance_root_def Let_def)
  then show thesis using that v1(2,4,5) by simp
qed

text \<open>
  Compaction works on a snapshot while records keep arriving: the live overlay differs from
  the snapshot only where a later record was written.
\<close>

definition later_than :: "compaction_snapshot \<Rightarrow> read_view \<Rightarrow> bool" where
  "later_than sn v \<longleftrightarrow> vs_root v = sn_root sn \<and> sn_target_wal_seq sn \<le> vs_last_applied_seq v \<and>
    sn_wal_debt_bytes sn \<le> vs_wal_debt_bytes v \<and>
    (\<forall>x. overlay_at (vs_overlay v) x = overlay_at (sn_overlay sn) x \<or>
      (\<exists>s r k. overlay_at (vs_overlay v) x = Some (s, r, k) \<and> sn_target_wal_seq sn < s))"

definition compacts :: "(root_snapshot \<Rightarrow> nat \<Rightarrow> u8) \<Rightarrow> compaction_snapshot \<Rightarrow> root_snapshot \<Rightarrow> bool" where
  "compacts committed sn new_root \<longleftrightarrow> rs_base_wal_seq new_root = sn_target_wal_seq sn \<and>
    rs_size_bytes new_root = rs_size_bytes (sn_root sn) \<and>
    (\<forall>x. committed new_root x = (case overlay_byte (sn_overlay sn) x of Some b \<Rightarrow> b | None \<Rightarrow> committed (sn_root sn) x))"

lemma compacts_carries_on:
  assumes "later_than sn v" "compacts committed sn new_root"
  shows "carries_on committed v new_root"
  unfolding carries_on_def
proof (intro allI conjI impI)
  fix x
  have at: "overlay_at (vs_overlay v) x = overlay_at (sn_overlay sn) x \<or>
      (\<exists>s r k. overlay_at (vs_overlay v) x = Some (s, r, k) \<and> sn_target_wal_seq sn < s)" and r: "vs_root v = sn_root sn"
    using assms(1) by (auto simp: later_than_def)
  have new: "committed new_root x = (case overlay_byte (sn_overlay sn) x of Some b \<Rightarrow> b | None \<Rightarrow> committed (sn_root sn) x)"
    and chk: "rs_base_wal_seq new_root = sn_target_wal_seq sn" using assms(2) by (auto simp: compacts_def)
  show "committed new_root x = committed (vs_root v) x" if "overlay_at (vs_overlay v) x = None"
    using at that new r by (simp add: overlay_byte_def)
  assume "retired_at (vs_overlay v) (rs_base_wal_seq new_root) x"
  then obtain s r k where s: "overlay_at (vs_overlay v) x = Some (s, r, k)" "s \<le> sn_target_wal_seq sn"
    using chk by (auto simp: retired_at_def)
  then have "overlay_at (sn_overlay sn) x = Some (s, r, k)" using at by auto
  then show "overlay_byte (vs_overlay v) x = Some (committed new_root x)" using s(1) new by (simp add: overlay_byte_def)
qed

lemma advance_after_compaction_ok:
  assumes inv: "view_inv committed v" and later: "later_than sn v" and new: "compacts committed sn new_root"
    and chk: "rs_base_wal_seq (sn_root sn) < sn_target_wal_seq sn"
  obtains v' where "advance_after_compaction v new_root sn = (v', Inr ())" "view_inv committed v'" "vs_root v' = new_root"
    "\<And>x. view_byte committed v' x = view_byte committed v x" "vs_last_applied_seq v' = vs_last_applied_seq v"
    "vs_wal_debt_bytes v' = (if sn_target_wal_seq sn = vs_last_applied_seq v then 0 else vs_wal_debt_bytes v - sn_wal_debt_bytes sn)"
proof -
  have l: "vs_root v = sn_root sn" "sn_target_wal_seq sn \<le> vs_last_applied_seq v" "sn_wal_debt_bytes sn \<le> vs_wal_debt_bytes v"
    using later by (auto simp: later_than_def)
  have n: "rs_base_wal_seq new_root = sn_target_wal_seq sn" "rs_size_bytes new_root = rs_size_bytes (vs_root v)"
    using new l(1) by (auto simp: compacts_def)
  have le: "rs_base_wal_seq (vs_root v) \<le> rs_base_wal_seq new_root" "rs_base_wal_seq new_root \<le> vs_last_applied_seq v"
    using chk n(1) l by simp_all
  obtain v1 where v1: "retire_through v (rs_base_wal_seq new_root) = (v1, Inr ())"
    "vs_last_applied_seq v1 = vs_last_applied_seq v" "vs_wal_debt_bytes v1 = vs_wal_debt_bytes v"
    "\<And>debt. view_inv committed (v1\<lparr>vs_root := new_root, vs_wal_debt_bytes := debt\<rparr>)"
    "\<And>debt x. view_byte committed (v1\<lparr>vs_root := new_root, vs_wal_debt_bytes := debt\<rparr>) x = view_byte committed v x"
    by (rule advance_view [OF inv compacts_carries_on [OF later new] le n(2)]) blast
  let ?debt = "if rs_base_wal_seq new_root = vs_last_applied_seq v then 0 else vs_wal_debt_bytes v1 - sn_wal_debt_bytes sn"
  have "advance_after_compaction v new_root sn = (v1\<lparr>vs_root := new_root, vs_wal_debt_bytes := ?debt\<rparr>, Inr ())"
    using v1(1-3) chk n l by (cases v1) (simp add: advance_after_compaction_def Let_def)
  then show thesis using that v1(2-5) n(1) by simp
qed

lemma capture_later:
  assumes "view_inv committed v" "capture_compaction_snapshot v = Some sn"
  shows "later_than sn v" "rs_base_wal_seq (sn_root sn) < sn_target_wal_seq sn" "sn_root sn = vs_root v"
    "sn_overlay sn = vs_overlay v" "sn_target_wal_seq sn = vs_last_applied_seq v"
  using assms(2) by (auto simp: capture_compaction_snapshot_def later_than_def split: if_splits)

lemma applied_later:
  assumes "later_than sn v" "vs_root v' = vs_root v" "vs_last_applied_seq v' = wrec_seq r" "wrec_seq r = vs_last_applied_seq v + 1"
    "vs_wal_debt_bytes v' = vs_wal_debt_bytes v + length (wrec_data r)"
    "\<And>x. overlay_at (vs_overlay v') x =
      (if covers r x then Some (wrec_seq r, r, x - br_start (wrec_range r)) else overlay_at (vs_overlay v) x)"
  shows "later_than sn v'"
  using assms unfolding later_than_def by auto

section \<open>The readers of the source\<close>

text \<open>
  The committed bytes of a tree: a chunk without a leaf is zero, a leaf names the blob of its
  chunk. Nothing lies beyond the size of the export.
\<close>

definition tree_reader_of :: "root_snapshot \<Rightarrow> tree_metadata_reader option" where
  "tree_reader_of root = (case rs_tree_format root of None \<Rightarrow> None | Some fmt \<Rightarrow>
    (case new_geometry fmt (rs_size_bytes root) of Inl _ \<Rightarrow> None
     | Inr g \<Rightarrow> Some \<lparr>mr_geometry = g, mr_layout_kind = CowImmutableTree, mr_root_node_id = rs_root_node_id root\<rparr>))"

definition chunk_key :: "catalog_db \<Rightarrow> tree_metadata_reader \<Rightarrow> chunk_index \<Rightarrow> blob_key option" where
  "chunk_key db r c = Option.bind (mr_root_node_id r) (\<lambda>root.
    map_option (\<lambda>n. tl_storage_key (the (leaf_at db n))) (follow db root (path_of (mr_geometry r) c)))"

definition tree_byte :: "catalog_db \<Rightarrow> blob_dir \<Rightarrow> root_snapshot \<Rightarrow> nat \<Rightarrow> u8" where
  "tree_byte db dir root x =
    (if x < rs_size_bytes root then
       (case Option.bind (tree_reader_of root) (\<lambda>r. chunk_key db r (x div TREE_CHUNK_BYTES)) of
          None \<Rightarrow> 0
        | Some key \<Rightarrow> the (file_bytes dir key) ! (x mod TREE_CHUNK_BYTES))
     else 0)"

text \<open>A root is well formed when its tree is and every leaf's blob holds a whole chunk.\<close>

definition blobs_ok :: "catalog_db \<Rightarrow> blob_dir \<Rightarrow> tree_metadata_reader \<Rightarrow> bool" where
  "blobs_ok db dir r \<longleftrightarrow> (\<forall>c key. c * TREE_CHUNK_BYTES < tg_size_bytes (mr_geometry r) \<longrightarrow> chunk_key db r c = Some key \<longrightarrow>
    is_ok (new_blob_key key) \<and> (\<exists>bs. file_bytes dir key = Some bs \<and> length bs = TREE_CHUNK_BYTES))"

definition cow_root_ok :: "catalog_db \<Rightarrow> blob_dir \<Rightarrow> root_snapshot \<Rightarrow> bool" where
  "cow_root_ok db dir root \<longleftrightarrow> tables_ok db \<and> \<not> is_zero_backed root \<and> 0 < rs_size_bytes root \<and>
    rs_size_bytes root + TREE_CHUNK_BYTES \<le> u64_max \<and>
    (\<forall>r. tree_reader_of root = Some r \<longrightarrow> tree_ok db ImmutableBlob r \<and> blobs_ok db dir r)"

lemma chunk_bytes_eq: "TREE_CHUNK_BYTES = 2 ^ 25"
  by (simp add: TREE_CHUNK_BYTES_def)

lemma cow_reader:
  assumes "cow_root_ok db dir root"
  obtains fmt r where "rs_tree_format root = Some fmt" "tree_reader_of root = Some r"
    "new_geometry fmt (rs_size_bytes root) = Inr (mr_geometry r)" "geometry_ok (mr_geometry r)"
    "tg_size_bytes (mr_geometry r) = rs_size_bytes root"
    "r = \<lparr>mr_geometry = mr_geometry r, mr_layout_kind = CowImmutableTree, mr_root_node_id = rs_root_node_id root\<rparr>"
proof -
  have n: "0 < rs_size_bytes root" "rs_size_bytes root + (2 ^ 25 - 1) \<le> u64_max" "\<not> is_zero_backed root"
    using assms by (auto simp: cow_root_ok_def chunk_bytes_eq)
  obtain fmt where fmt: "rs_tree_format root = Some fmt" using n(3) by (cases root) auto
  obtain g where g: "new_geometry fmt (rs_size_bytes root) = Inr g" "geometry_ok g" "tg_size_bytes g = rs_size_bytes root"
    using new_geometry_ok [OF n(1,2)] by metis
  show thesis
    by (rule that [of fmt "\<lparr>mr_geometry = g, mr_layout_kind = CowImmutableTree, mr_root_node_id = rs_root_node_id root\<rparr>"])
      (use fmt g in \<open>simp_all add: tree_reader_of_def\<close>)
qed

lemma cow_load_leaf_ok:
  assumes ok: "cow_root_ok db dir root" and c: "c * TREE_CHUNK_BYTES < rs_size_bytes root"
    and r: "tree_reader_of root = Some r"
  shows "cow_load_leaf (sqlite_tree_store db_ok db) root c = Inr (Option.bind (mr_root_node_id r) (\<lambda>root.
    map_option (\<lambda>n. \<lparr>ll_chunk_index = c, ll_node = the (node_at db n), ll_leaf_ref = the (leaf_at db n)\<rparr>)
      (follow db root (path_of (mr_geometry r) c))))"
proof -
  obtain fmt r' where r': "rs_tree_format root = Some fmt" "tree_reader_of root = Some r'"
    "new_geometry fmt (rs_size_bytes root) = Inr (mr_geometry r')" "tg_size_bytes (mr_geometry r') = rs_size_bytes root"
    "r' = \<lparr>mr_geometry = mr_geometry r', mr_layout_kind = CowImmutableTree, mr_root_node_id = rs_root_node_id root\<rparr>"
    using cow_reader [OF ok] by metis
  then have "r' = r" using r by simp
  moreover have "tables_ok db" "tree_ok db ImmutableBlob r" using ok r by (auto simp: cow_root_ok_def)
  ultimately have "load_leaf (sqlite_tree_store db_ok db) r c = Inr (Option.bind (mr_root_node_id r) (\<lambda>root.
    map_option (\<lambda>n. \<lparr>ll_chunk_index = c, ll_node = the (node_at db n), ll_leaf_ref = the (leaf_at db n)\<rparr>)
      (follow db root (path_of (mr_geometry r) c))))"
    using c r'(4) by (intro load_leaf_ok) (simp_all add: chunk_bytes_eq)
  moreover have "cow_load_leaf (sqlite_tree_store db_ok db) root c = load_leaf (sqlite_tree_store db_ok db) r c"
    using r'(1,3,5) \<open>r' = r\<close> by (simp add: cow_load_leaf_def)
  ultimately show ?thesis by simp
qed

lemma cow_load_leaf_mono:
  "cow_load_leaf (sqlite_tree_store env db) root c = Inr l \<Longrightarrow> cow_load_leaf (sqlite_tree_store db_ok db) root c = Inr l"
  by (auto simp: cow_load_leaf_def and_then_Inr_iff load_leaf_mono split: option.splits)

text \<open>What the reader does for one chunk.\<close>

lemma cow_part_ok:
  assumes ok: "cow_root_ok db dir root" and c: "off + len \<le> TREE_CHUNK_BYTES" "c * TREE_CHUNK_BYTES < rs_size_bytes root" "0 < len"
    "c * TREE_CHUNK_BYTES + off + len \<le> rs_size_bytes root"
    and leaf: "cow_load_leaf (sqlite_tree_store env db) root c = Inr l"
  shows "l = None \<longrightarrow> (\<forall>i < len. tree_byte db dir root (c * TREE_CHUNK_BYTES + off + i) = 0)"
    "l = Some leaf \<longrightarrow> tl_storage_kind (ll_leaf_ref leaf) = ImmutableBlob \<and> is_ok (new_blob_key (tl_storage_key (ll_leaf_ref leaf))) \<and>
      (\<exists>bs. file_bytes dir (tl_storage_key (ll_leaf_ref leaf)) = Some bs \<and> length bs = TREE_CHUNK_BYTES \<and>
        (\<forall>i < len. tree_byte db dir root (c * TREE_CHUNK_BYTES + off + i) = bs ! (off + i)))"
proof -
  obtain r where r: "tree_reader_of root = Some r" "tg_size_bytes (mr_geometry r) = rs_size_bytes root" "geometry_ok (mr_geometry r)"
    using cow_reader [OF ok] by metis
  have tr: "tree_ok db ImmutableBlob r" "blobs_ok db dir r" using ok r(1) by (auto simp: cow_root_ok_def)
  have l: "l = Option.bind (mr_root_node_id r) (\<lambda>root.
    map_option (\<lambda>n. \<lparr>ll_chunk_index = c, ll_node = the (node_at db n), ll_leaf_ref = the (leaf_at db n)\<rparr>)
      (follow db root (path_of (mr_geometry r) c)))"
    using cow_load_leaf_mono [OF leaf] cow_load_leaf_ok [OF ok c(2) r(1)] by simp
  then have key: "chunk_key db r c = map_option (\<lambda>leaf. tl_storage_key (ll_leaf_ref leaf)) l"
    by (cases "mr_root_node_id r") (simp_all add: chunk_key_def option.map_comp comp_def)
  have byte: "tree_byte db dir root (c * TREE_CHUNK_BYTES + off + i) =
      (case chunk_key db r c of None \<Rightarrow> 0 | Some key \<Rightarrow> the (file_bytes dir key) ! (off + i))" if "i < len" for i
  proof -
    have "(c * TREE_CHUNK_BYTES + off + i) div TREE_CHUNK_BYTES = c" "(c * TREE_CHUNK_BYTES + off + i) mod TREE_CHUNK_BYTES = off + i"
      using that c(1) by (auto intro!: div_nat_eqI simp: algebra_simps mod_nat_eqI)
    then show ?thesis using that c(4) r(1) by (simp add: tree_byte_def split: option.split)
  qed
  show "l = None \<longrightarrow> (\<forall>i < len. tree_byte db dir root (c * TREE_CHUNK_BYTES + off + i) = 0)"
    using byte key by simp
  show "l = Some leaf \<longrightarrow> tl_storage_kind (ll_leaf_ref leaf) = ImmutableBlob \<and> is_ok (new_blob_key (tl_storage_key (ll_leaf_ref leaf))) \<and>
      (\<exists>bs. file_bytes dir (tl_storage_key (ll_leaf_ref leaf)) = Some bs \<and> length bs = TREE_CHUNK_BYTES \<and>
        (\<forall>i < len. tree_byte db dir root (c * TREE_CHUNK_BYTES + off + i) = bs ! (off + i)))"
  proof
    assume some: "l = Some leaf"
    then obtain n root' where n: "mr_root_node_id r = Some root'" "follow db root' (path_of (mr_geometry r) c) = Some n"
      "ll_leaf_ref leaf = the (leaf_at db n)" using l by (cases "mr_root_node_id r") auto
    have "c * 2 ^ 25 < tg_size_bytes (mr_geometry r)" using c(2) r(2) by (simp add: chunk_bytes_eq)
    then obtain sp where "try_fold (child_span (mr_geometry r)) (root_span (mr_geometry r)) (path_of (mr_geometry r) c) = Inr sp"
      using path_spans [OF r(3)] by blast
    then have "\<exists>l. leaf_at db n = Some l \<and> tl_storage_kind l = ImmutableBlob"
      using subtree_follow(2) [of db "mr_layout_kind r" ImmutableBlob "mr_geometry r" "path_of (mr_geometry r) c"] tr(1) n
      by (auto simp: tree_ok_def path_of_def)
    then have kind: "tl_storage_kind (ll_leaf_ref leaf) = ImmutableBlob" using n(3) by auto
    have "is_ok (new_blob_key (tl_storage_key (ll_leaf_ref leaf))) \<and>
        (\<exists>bs. file_bytes dir (tl_storage_key (ll_leaf_ref leaf)) = Some bs \<and> length bs = TREE_CHUNK_BYTES)"
      using tr(2) c(2) r(2) key some by (simp add: blobs_ok_def)
    then show "tl_storage_kind (ll_leaf_ref leaf) = ImmutableBlob \<and> is_ok (new_blob_key (tl_storage_key (ll_leaf_ref leaf))) \<and>
      (\<exists>bs. file_bytes dir (tl_storage_key (ll_leaf_ref leaf)) = Some bs \<and> length bs = TREE_CHUNK_BYTES \<and>
        (\<forall>i < len. tree_byte db dir root (c * TREE_CHUNK_BYTES + off + i) = bs ! (off + i)))"
      using kind byte key some by auto
  qed
qed

lemma parts_tile_covers:
  "parts_tile a ps b \<Longrightarrow> a \<le> x \<Longrightarrow> x < b \<Longrightarrow> \<exists>p \<in> set ps. x \<in> range_bytes (part_range p)"
proof (induction ps arbitrary: a)
  case (Cons p ps)
  then show ?case
    by (cases "x < a + br_len (part_range p)") (auto simp: range_bytes_def)
qed simp

lemma cow_parts_loop_step:
  assumes "copied < br_len rng"
  defines "off \<equiv> (br_start rng + copied) mod TREE_CHUNK_BYTES" and "c \<equiv> (br_start rng + copied) div TREE_CHUNK_BYTES"
  defines "n \<equiv> min (TREE_CHUNK_BYTES - off) (br_len rng - copied)"
  shows "cow_parts_loop store get root rng copied =
      and_then (cow_load_leaf store root c) (\<lambda>leaf.
          and_then (case leaf of
              Some l \<Rightarrow>
                if tl_storage_kind (ll_leaf_ref l) \<noteq> ImmutableBlob then Inl (Catalog None)
                else and_then (get (tl_storage_key (ll_leaf_ref l)) off n) (\<lambda>data.
                  Inr (DataPart (new_range (br_start rng + copied) n) data))
            | None \<Rightarrow> Inr (ZeroPart (new_range (br_start rng + copied) n))) (\<lambda>part.
          and_then (cow_parts_loop store get root rng (copied + n)) (\<lambda>parts. Inr (part # parts))))"
    "0 < n" "off + n \<le> TREE_CHUNK_BYTES" "c * TREE_CHUNK_BYTES + off = br_start rng + copied" "copied + n \<le> br_len rng"
proof -
  show "cow_parts_loop store get root rng copied =
      and_then (cow_load_leaf store root c) (\<lambda>leaf.
          and_then (case leaf of
              Some l \<Rightarrow>
                if tl_storage_kind (ll_leaf_ref l) \<noteq> ImmutableBlob then Inl (Catalog None)
                else and_then (get (tl_storage_key (ll_leaf_ref l)) off n) (\<lambda>data.
                  Inr (DataPart (new_range (br_start rng + copied) n) data))
            | None \<Rightarrow> Inr (ZeroPart (new_range (br_start rng + copied) n))) (\<lambda>part.
          and_then (cow_parts_loop store get root rng (copied + n)) (\<lambda>parts. Inr (part # parts))))"
    unfolding n_def off_def c_def by (subst cow_parts_loop.simps) (simp only: Let_def if_True assms(1))
  have "off < TREE_CHUNK_BYTES" by (simp add: off_def TREE_CHUNK_BYTES_def)
  then show "0 < n" "off + n \<le> TREE_CHUNK_BYTES" "copied + n \<le> br_len rng" using assms(1) by (auto simp: n_def)
  show "c * TREE_CHUNK_BYTES + off = br_start rng + copied" by (simp add: c_def off_def)
qed

lemma cow_parts_loop_ok:
  assumes ok: "cow_root_ok db dir root" and rng: "br_start rng + br_len rng \<le> rs_size_bytes root"
    and run: "cow_parts_loop (sqlite_tree_store env db) (get_blob io dir) root rng copied = Inr pts" "copied \<le> br_len rng"
  shows "parts_tile (br_start rng + copied) pts (br_start rng + br_len rng) \<and>
    (\<forall>p \<in> set pts. \<forall>x \<in> range_bytes (part_range p). part_bytes p ! (x - br_start (part_range p)) = tree_byte db dir root x)"
  using run
proof (induction "br_len rng - copied" arbitrary: copied pts rule: less_induct)
  case less
  show ?case
  proof (cases "copied < br_len rng")
    case True
    let ?off = "(br_start rng + copied) mod TREE_CHUNK_BYTES" and ?c = "(br_start rng + copied) div TREE_CHUNK_BYTES"
    define n where "n = min (TREE_CHUNK_BYTES - ?off) (br_len rng - copied)"
    let ?rng = "new_range (br_start rng + copied) n"
    note step = cow_parts_loop_step [OF True, folded n_def]
    obtain l part ps where l: "cow_load_leaf (sqlite_tree_store env db) root ?c = Inr l"
      and part: "(case l of
              Some l \<Rightarrow>
                if tl_storage_kind (ll_leaf_ref l) \<noteq> ImmutableBlob then Inl (Catalog None)
                else and_then (get_blob io dir (tl_storage_key (ll_leaf_ref l)) ?off n) (\<lambda>data. Inr (DataPart ?rng data))
            | None \<Rightarrow> Inr (ZeroPart ?rng)) = Inr part"
      and ps: "cow_parts_loop (sqlite_tree_store env db) (get_blob io dir) root rng (copied + n) = Inr ps" "pts = part # ps"
      using less.prems(1) unfolding step(1) by (auto simp: and_then_Inr_iff)
    have IH: "parts_tile (br_start rng + (copied + n)) ps (br_start rng + br_len rng)"
      "\<forall>p \<in> set ps. \<forall>x \<in> range_bytes (part_range p). part_bytes p ! (x - br_start (part_range p)) = tree_byte db dir root x"
      using less.hyps [OF _ ps(1)] step(2,5) by auto
    have lt: "?c * TREE_CHUNK_BYTES < rs_size_bytes root" "?c * TREE_CHUNK_BYTES + ?off + n \<le> rs_size_bytes root"
      using step(2,4,5) rng by linarith+
    note po = cow_part_ok [OF ok step(3) lt(1) step(2) lt(2) l]
    have "part_len_ok part \<and> part_range part = ?rng \<and>
      (\<forall>x \<in> range_bytes ?rng. part_bytes part ! (x - br_start ?rng) = tree_byte db dir root x)"
    proof (cases l)
      case None
      then have "part = ZeroPart ?rng" using part by simp
      moreover have "tree_byte db dir root x = 0" if "x \<in> range_bytes ?rng" for x
        using po(1) None that step(4) spec [of "\<lambda>i. i < n \<longrightarrow> tree_byte db dir root (?c * TREE_CHUNK_BYTES + ?off + i) = 0"
            "x - (br_start rng + copied)"] by (auto simp: range_bytes_def)
      ultimately show ?thesis by (auto simp: range_bytes_def)
    next
      case (Some leaf)
      obtain bs where bs: "file_bytes dir (tl_storage_key (ll_leaf_ref leaf)) = Some bs" "length bs = TREE_CHUNK_BYTES"
        "\<And>i. i < n \<Longrightarrow> tree_byte db dir root (?c * TREE_CHUNK_BYTES + ?off + i) = bs ! (?off + i)"
        using po(2) [of leaf] Some by auto
      have "part = DataPart ?rng (slice bs ?off n)"
        using part Some bs(1) by (auto simp: and_then_Inr_iff get_blob_Inr_iff split: if_splits)
      moreover have "slice bs ?off n ! (x - (br_start rng + copied)) = tree_byte db dir root x" if "x \<in> range_bytes ?rng" for x
        using bs(2) bs(3) [of "x - (br_start rng + copied)"] that step(3,4) by (auto simp: range_bytes_def nth_slice)
      ultimately show ?thesis using bs(2) step(3) by (simp add: length_slice)
    qed
    then show ?thesis using IH ps(2) by (simp add: add.assoc)
  next
    case False
    then have "pts = []" "copied = br_len rng" using less.prems by (simp_all add: cow_parts_loop.simps)
    then show ?thesis by simp
  qed
qed

lemma cow_parts_loop_total:
  assumes ok: "cow_root_ok db dir root" and rng: "br_start rng + br_len rng \<le> rs_size_bytes root"
  shows "copied \<le> br_len rng \<Longrightarrow> \<exists>pts. cow_parts_loop (sqlite_tree_store db_ok db) (get_blob io_ok dir) root rng copied = Inr pts"
proof (induction "br_len rng - copied" arbitrary: copied rule: less_induct)
  case less
  show ?case
  proof (cases "copied < br_len rng")
    case True
    let ?off = "(br_start rng + copied) mod TREE_CHUNK_BYTES" and ?c = "(br_start rng + copied) div TREE_CHUNK_BYTES"
    define n where "n = min (TREE_CHUNK_BYTES - ?off) (br_len rng - copied)"
    note step = cow_parts_loop_step [OF True, folded n_def]
    have lt: "?c * TREE_CHUNK_BYTES < rs_size_bytes root" "?c * TREE_CHUNK_BYTES + ?off + n \<le> rs_size_bytes root"
      using step(2,4,5) rng by linarith+
    obtain r where r: "tree_reader_of root = Some r" using cow_reader [OF ok] by metis
    obtain l where l: "cow_load_leaf (sqlite_tree_store db_ok db) root ?c = Inr l" using cow_load_leaf_ok [OF ok lt(1) r] by blast
    note po = cow_part_ok [OF ok step(3) lt(1) step(2) lt(2) l]
    obtain ps where ps: "cow_parts_loop (sqlite_tree_store db_ok db) (get_blob io_ok dir) root rng (copied + n) = Inr ps"
      using less(1) [of "copied + n"] diff_less_mono2 [of copied "copied + n" "br_len rng"] step(2,5) True by auto
    show ?thesis
    proof (cases l)
      case None
      then show ?thesis unfolding step(1) using l ps by simp
    next
      case (Some leaf)
      then have "\<exists>data. get_blob io_ok dir (tl_storage_key (ll_leaf_ref leaf)) ?off n = Inr data"
        "tl_storage_kind (ll_leaf_ref leaf) = ImmutableBlob"
        using po(2) [of leaf] step(3) by (auto simp: get_blob_Inr_iff io_ok_def)
      then show ?thesis unfolding step(1) using l ps Some by auto
    qed
  qed (simp add: cow_parts_loop.simps)
qed

lemma cow_committed_block:
  assumes ok: "cow_root_ok db dir root"
    and run: "cow_read_committed (sqlite_tree_store env db) (get_blob io dir) root rng = Inr b"
  shows "new_block rng (blk_parts b) = Inr b \<and> (\<forall>x \<in> range_bytes rng. materialize b ! (x - br_start rng) = tree_byte db dir root x)"
proof -
  have rng: "br_start rng + br_len rng \<le> rs_size_bytes root"
    using run by (auto simp: cow_read_committed_def and_then_Inr_iff validate_range_def validate_request_range_def checked_arith
        split: if_splits)
  obtain pts where p: "cow_parts_loop (sqlite_tree_store env db) (get_blob io dir) root rng 0 = Inr pts" "new_block rng pts = Inr b"
    using run by (auto simp: cow_read_committed_def and_then_Inr_iff split: if_splits)
  note loop = cow_parts_loop_ok [OF ok rng p(1)]
  note mb = materialize_block [OF p(2)]
  have "materialize b ! (x - br_start rng) = tree_byte db dir root x" if x: "x \<in> range_bytes rng" for x
  proof -
    obtain q where q: "q \<in> set pts" "x \<in> range_bytes (part_range q)"
      using parts_tile_covers [of "br_start rng" pts "br_start rng + br_len rng" x] loop x by (auto simp: range_bytes_def)
    then show ?thesis using mb(4) [OF q] loop by auto
  qed
  then show ?thesis using mb(3) p(2) by simp
qed

lemma cow_read_total:
  assumes ok: "cow_root_ok db dir root" and rng: "br_start rng + br_len rng \<le> rs_size_bytes root"
  shows "\<exists>b. cow_read_committed (sqlite_tree_store db_ok db) (get_blob io_ok dir) root rng = Inr b"
proof -
  obtain pts where p: "cow_parts_loop (sqlite_tree_store db_ok db) (get_blob io_ok dir) root rng 0 = Inr pts"
    using cow_parts_loop_total [OF ok rng, of 0] by auto
  have le: "br_start rng + br_len rng \<le> u64_max" using rng ok by (simp add: cow_root_ok_def)
  have "new_block rng pts = Inr \<lparr>blk_range = rng, blk_parts = pts\<rparr>"
    using cow_parts_loop_ok [OF ok rng p] le by (simp add: new_block_Inr_iff)
  then show ?thesis using p rng le ok
    by (simp add: cow_read_committed_def validate_range_def validate_request_range_def checked_add_def cow_root_ok_def)
qed

interpretation cow_tree: tree_reader "cow_read_committed (sqlite_tree_store env db) (get_blob io dir)" "tree_byte db dir" "cow_root_ok db dir"
  by unfold_locales (rule cow_committed_block)

lemma zero_committed_block:
  assumes "zero_read_committed root rng = Inr b"
  shows "new_block rng (blk_parts b) = Inr b \<and> (\<forall>x \<in> range_bytes rng. materialize b ! (x - br_start rng) = 0)"
proof -
  have nb: "new_block rng (if range_is_empty rng then [] else [ZeroPart rng]) = Inr b"
    using assms by (auto simp: zero_read_committed_def and_then_Inr_iff split: if_splits)
  have "materialize b ! (x - br_start rng) = 0" if "x \<in> range_bytes rng" for x
    using materialize_block(4) [OF nb, of "ZeroPart rng" x] that by (auto simp: range_bytes_def range_is_empty_def)
  then show ?thesis using materialize_block(3) [OF nb] nb by simp
qed

interpretation zero_tree: tree_reader zero_read_committed "\<lambda>_ _. 0" is_zero_backed
  by unfold_locales (rule zero_committed_block)

section \<open>Reads that find their blocks succeed\<close>

context tree_reader
begin

lemma read_misses_total:
  assumes "root_ok root" "\<And>m. m \<in> set misses \<Longrightarrow> \<exists>b. read_committed root m = Inr b"
    and "\<And>m. m \<in> set misses \<Longrightarrow> br_start rng \<le> br_start m \<and> br_start m + br_len m \<le> range_end rng"
  shows "\<exists>d. read_misses read_committed root rng misses data = Inr d"
  using assms(2,3)
proof (induction misses arbitrary: data)
  case (Cons m misses)
  obtain b where b: "read_committed root m = Inr b" using Cons.prems(1) by auto
  note nb = committed_block [OF assms(1) b]
  then have "blk_range b = m" "length (materialize b) = br_len m" using materialize_block(1,2) by blast+
  moreover have "range_end m \<le> br_start m + br_len m" by (simp add: range_end_def saturating_add_def)
  ultimately have "\<exists>d. copy_tree_block rng b data = Inr d"
    using Cons.prems(2) [of m] by (auto simp: copy_tree_block_def Let_def)
  then obtain d where d: "copy_tree_block rng b data = Inr d" by blast
  obtain e where "read_misses read_committed root rng misses d = Inr e" using Cons by (metis list.set_intros(2))
  then show ?case using b d \<open>blk_range b = m\<close> by (cases e) auto
qed auto

lemma view_read_total:
  assumes inv: "view_inv committed v" and ok: "root_ok (vs_root v)"
    and rng: "br_start rng + br_len rng \<le> rs_size_bytes (vs_root v)" "br_len rng \<le> u32_max"
    and total: "\<And>m. br_start m + br_len m \<le> rs_size_bytes (vs_root v) \<Longrightarrow> \<exists>b. read_committed (vs_root v) m = Inr b"
  shows "\<exists>v' data. view_read read_committed v rng = (v', Inr data)"
proof -
  note vr = view_range [OF inv rng(1)]
  have ov: "overlay_inv (vs_overlay v)" using inv by (simp add: view_inv_def overlay_in_def)
  obtain plan where plan: "plan_read v rng = Inr plan" "plan_ok v rng plan" using plan_read_ok [OF inv rng] by blast
  let ?m = "clip split_at (br_start rng) (range_end rng) (vs_overlay v)"
  have plan': "rp_root plan = vs_root v" "rp_overlay_slices plan = map slice_of ?m"
    "\<And>s. s \<in> set (rp_cache_slices plan) \<Longrightarrow> cslice_ok (vs_cache v) rng s"
    "\<And>m. m \<in> set (rp_tree_misses plan) \<Longrightarrow> br_start rng \<le> br_start m \<and> br_start m + br_len m \<le> range_end rng"
    using plan(2) gaps_betweenD(1) unfolding plan_ok_def by blast+
  obtain d1 where d1: "try_fold (\<lambda>data s. slice_copy_to s rng data) (replicate (br_len rng) 0) (rp_cache_slices plan) = Inr d1"
    using try_fold_writes [of "rp_cache_slices plan" rng "\<lambda>data s. slice_copy_to s rng data"
        "\<lambda>s. {cs_start s ..< cs_end s}" "view_byte committed v" "replicate (br_len rng) 0"]
      slice_copy_writes [OF inv vr(1) plan'(3)] by auto
  have "\<exists>d. read_misses read_committed (vs_root v) rng (rp_tree_misses plan) d1 = Inr d"
  proof (rule read_misses_total [OF ok _ plan'(4)])
    fix m assume "m \<in> set (rp_tree_misses plan)"
    then show "\<exists>b. read_committed (vs_root v) m = Inr b" using plan'(4) [of m] rng(1) vr(1) by (intro total) simp
  qed
  then obtain d2 fills where d2: "read_misses read_committed (vs_root v) rng (rp_tree_misses plan) d1 = Inr (d2, fills)" by auto
  have "\<exists>d. try_fold (\<lambda>data s. overlay_record rng s data) d2 ss = Inr d" for d2 ss
    by (induction ss arbitrary: d2) (auto simp: overlay_record_def Let_def)
  then obtain d3 where "try_fold (\<lambda>data s. overlay_record rng s data) d2 (rp_overlay_slices plan) = Inr d3" by blast
  then have d: "read_data read_committed rng plan = Inr (d3, fills)" using d1 d2 plan'(1) by (simp add: read_data_def)
  note rd = read_data_view [OF inv ok plan(2) rng d]
  obtain v' where "read_finish v plan fills = (v', Inr ())" using read_finish_ok [OF inv, of fills plan] rd(2) plan'(1) by auto
  then show ?thesis using plan(1) d by (simp add: view_read_def)
qed

end

section \<open>Properties\<close>

text \<open>
  C37. A read of an open export sees the latest write: over a well-formed tree in the catalog
  and the blob store, every byte it returns is that of the last record in the overlay that
  covers it, else the committed byte, whatever the cache holds and whichever parts come from
  it; the read leaves what the view shows unchanged. When no statement and no file operation
  fails, every read inside the export returns.
\<close>

theorem view_read_sees_latest:
  assumes "view_inv (tree_byte db dir) v" "cow_root_ok db dir (vs_root v)"
    and "br_start rng + br_len rng \<le> rs_size_bytes (vs_root v)" "br_len rng \<le> u32_max"
  shows "(view_read (cow_read_committed (sqlite_tree_store env db) (get_blob io dir)) v rng = (v', Inr data) \<longrightarrow>
      data = map (view_byte (tree_byte db dir) v) [br_start rng ..< br_start rng + br_len rng] \<and>
      view_inv (tree_byte db dir) v' \<and> (\<forall>x. view_byte (tree_byte db dir) v' x = view_byte (tree_byte db dir) v x)) \<and>
    (\<exists>w bs. view_read (cow_read_committed (sqlite_tree_store db_ok db) (get_blob io_ok dir)) v rng = (w, Inr bs))"
  using cow_tree.view_read_ok [OF assms, of env io v' data] cow_tree.view_read_total [OF assms cow_read_total [OF assms(2)]]
    same_view_byte by blast

definition sample_root :: root_snapshot where "sample_root = CowBacking None 0 4096 Bounded32V1"

definition sample_view :: read_view where "sample_view = new_view sample_root DEFAULT_READ_CACHE_BYTES"

lemma sample_root_ok: "cow_root_ok empty_db [] sample_root"
proof -
  obtain g where "new_geometry Bounded32V1 4096 = Inr g" "geometry_ok g" "tg_size_bytes g = 4096"
    by (rule new_geometry_ok [of 4096]) (simp_all add: u64_max_def)
  then show ?thesis
    by (simp add: cow_root_ok_def sample_root_def tables_ok_def empty_db_def tree_reader_of_def tree_ok_def blobs_ok_def
        chunk_key_def TREE_CHUNK_BYTES_def u64_max_def)
qed

lemma sample_view_inv: "view_inv (tree_byte db dir) sample_view"
  unfolding sample_view_def by (rule new_view_inv) (simp add: sample_root_def CACHE_BLOCK_BYTES_def u64_max_def)

theorem view_read_sees_latest_witness:
  "\<exists>w bs. view_read (cow_read_committed (sqlite_tree_store db_ok empty_db) (get_blob io_ok [])) sample_view (new_range 8 16) = (w, Inr bs)"
  using view_read_sees_latest [of empty_db "[]" sample_view "new_range 8 16" db_ok io_ok] sample_view_inv sample_root_ok
  by (simp add: sample_view_def new_view_def sample_root_def u32_max_def)



text \<open>
  C39. Compaction never changes what the export shows: a snapshot is captured, any number of
  records are applied meanwhile, and when the root that compacts the snapshot is installed the
  view shows the same bytes as just before, keeps its invariant and its position in the log.
\<close>

theorem compaction_is_invisible:
  assumes "view_inv committed v" "capture_compaction_snapshot v = Some sn"
    and "\<And>r. r \<in> set rs \<Longrightarrow> record_fits v r"
    and "loop_st apply_wal_record v rs = (w, Inr ())" "compacts committed sn new_root"
  shows "\<exists>w'. advance_after_compaction w new_root sn = (w', Inr ()) \<and> view_inv committed w' \<and> vs_root w' = new_root \<and>
    vs_last_applied_seq w' = vs_last_applied_seq w \<and> (\<forall>x. view_byte committed w' x = view_byte committed w x)"
proof -
  note cap = capture_later [OF assms(1,2)]
  have "view_inv committed w \<and> later_than sn w"
    using assms(1,3,4) cap(1)
  proof (induction rs arbitrary: v)
    case (Cons r rs)
    obtain v1 where v1: "apply_wal_record v r = (v1, Inr ())" "loop_st apply_wal_record v1 rs = (w, Inr ())"
      using Cons.prems(3) by (auto simp: then_st_Inr_iff)
    have sq: "wrec_seq r = vs_last_applied_seq v + 1" "vs_last_applied_seq v + 1 \<le> u64_max"
      using apply_wal_record_seq [OF v1(1)] by auto
    have fits: "record_fits v r" using Cons.prems(2) by simp
    have debt: "vs_wal_debt_bytes v + length (wrec_data r) \<le> u64_max" using apply_wal_record_seq [OF v1(1)] by simp
    obtain v1' where v1': "apply_wal_record v r = (v1', Inr ())" "view_inv committed v1'" "vs_root v1' = vs_root v"
      "vs_last_applied_seq v1' = wrec_seq r" "vs_wal_debt_bytes v1' = vs_wal_debt_bytes v + length (wrec_data r)"
      "\<And>x. overlay_at (vs_overlay v1') x =
        (if covers r x then Some (wrec_seq r, r, x - br_start (wrec_range r)) else overlay_at (vs_overlay v) x)"
      using apply_wal_record_ok [OF Cons.prems(1) fits sq debt] by blast
    then have "v1' = v1" using v1(1) by simp
    then show ?case
      using Cons.IH [of v1] v1(2) v1' applied_later [OF Cons.prems(4) v1'(3,4) sq(1) v1'(5,6)] Cons.prems(2)
      by (simp add: record_fits_def)
  qed simp
  then show ?thesis using advance_after_compaction_ok [OF _ _ assms(5) cap(2)] by metis
qed

definition sample_write :: wal_record where
  "sample_write = \<lparr>wrec_seq = 1, wrec_range = new_range 8 1, wrec_data = [7]\<rparr>"

definition sample_committed :: "root_snapshot \<Rightarrow> nat \<Rightarrow> u8" where
  "sample_committed root x = (if rs_base_wal_seq root = 1 \<and> x = 8 then 7 else 0)"

theorem compaction_is_invisible_witness:
  "\<exists>v sn w'. apply_wal_record sample_view sample_write = (v, Inr ()) \<and> capture_compaction_snapshot v = Some sn \<and>
    advance_after_compaction v (CowBacking None 1 4096 Bounded32V1) sn = (w', Inr ()) \<and>
    (\<forall>x. view_byte sample_committed w' x = view_byte sample_committed v x)"
proof -
  have inv: "view_inv sample_committed sample_view"
    unfolding sample_view_def by (rule new_view_inv) (simp add: sample_root_def CACHE_BLOCK_BYTES_def u64_max_def)
  have sel: "vs_root sample_view = sample_root" "vs_last_applied_seq sample_view = 0" "vs_wal_debt_bytes sample_view = 0"
    "overlay_at (vs_overlay sample_view) x = None" for x
    by (simp_all add: sample_view_def new_view_def sample_root_def overlay_new_def em_new_def)
  have fits: "record_fits sample_view sample_write"
    by (simp add: record_fits_def sample_write_def rec_ok_def sel sample_root_def u64_max_def u32_max_def)
  have w: "wrec_seq sample_write = 1" "br_start (wrec_range sample_write) = 8" "length (wrec_data sample_write) = 1"
    by (simp_all add: sample_write_def)
  have "wrec_seq sample_write = vs_last_applied_seq sample_view + 1" "vs_last_applied_seq sample_view + 1 \<le> u64_max"
    "vs_wal_debt_bytes sample_view + length (wrec_data sample_write) \<le> u64_max"
    unfolding sel w by (simp_all add: u64_max_def)
  from apply_wal_record_ok [OF inv fits this, unfolded sel w]
  obtain v where v: "apply_wal_record sample_view sample_write = (v, Inr ())" "view_inv sample_committed v" "vs_root v = sample_root"
    "vs_last_applied_seq v = 1" and at: "\<And>x. overlay_at (vs_overlay v) x =
      (if covers sample_write x then Some (1, sample_write, x - 8) else None)" by blast
  have "\<not> overlay_is_empty (vs_overlay v)"
    using at [of 8] by (auto simp: overlay_is_empty_def em_is_empty_def covers_def range_bytes_def sample_write_def)
  then obtain sn where sn: "capture_compaction_snapshot v = Some sn"
    using v(3,4) by (auto simp: capture_compaction_snapshot_def sample_root_def)
  note cap = capture_later [OF v(2) sn]
  have "compacts sample_committed sn (CowBacking None 1 4096 Bounded32V1)"
    using cap(3-5) v(3,4) at
    by (auto simp: compacts_def sample_root_def overlay_byte_def sample_committed_def covers_def range_bytes_def sample_write_def)
  with compaction_is_invisible [OF v(2) sn, of "[]" v] v(1) sn show ?thesis by auto
qed

end
