(* ===== verification/Cow_Planner.thy ===== *)
theory Cow_Planner
  imports Read_View "HOL-Library.AList" "HOL-Library.Multiset"
begin

text \<open>
  The planner of copy-on-write tree updates, \<open>CowTreePublishPlanner\<close> of
  \<open>nbd-server/src/engines/wal_durable/compaction.rs\<close>: it copies the path to every
  touched chunk, keeps the edges to the untouched subtrees, and collects the records of the
  new tree. The lemmas show what a walk of the new tree finds once the records are in the
  tables, and that every other tree is as before.
\<close>

section \<open>The planner\<close>

text \<open>
  The node ids drawn so far are counted by \<open>pl_drawn\<close>. The pending edges are an
  association list with distinct keys, drained in the order of the hash map.
\<close>

record cow_tree_publish_planner =
  pl_geometry :: tree_geometry
  pl_factory :: tree_record_factory
  pl_old_root_node_id :: "node_id option"
  pl_new_root_node_id :: node_id
  pl_copied_parents :: "node_id set"
  pl_new_internal_edges :: "(node_id \<times> nat) \<rightharpoonup> node_id"
  pl_pending_edges :: "((node_id \<times> nat) \<times> node_id) list"
  pl_records :: tree_record_batch
  pl_drawn :: nat

definition new_planner :: "(nat \<Rightarrow> node_id) \<Rightarrow> tree_geometry \<Rightarrow> export_id \<Rightarrow> node_id option \<Rightarrow> cow_tree_publish_planner" where
  "new_planner ids g eid old_root =
    (let new_root = ids 0;
         factory = \<lparr>rf_geometry = g, rf_layout_kind = CowImmutableTree, rf_owner_export_id = Some eid\<rparr>
     in \<lparr>pl_geometry = g, pl_factory = factory, pl_old_root_node_id = old_root, pl_new_root_node_id = new_root,
       pl_copied_parents = {}, pl_new_internal_edges = Map.empty, pl_pending_edges = [],
       pl_records = empty_batch\<lparr>tb_nodes := [root_node factory new_root]\<rparr>, pl_drawn = 1\<rparr>)"

definition compact_load_required_node :: "tree_store \<Rightarrow> node_id \<Rightarrow> (server_error, tree_node_record) result" where
  "compact_load_required_node store nid =
    and_then (map_err catalog_err (ts_load_node store nid)) (ok_or (Catalog None))"

definition compact_load_child_edge :: "tree_store \<Rightarrow> node_id \<Rightarrow> nat \<Rightarrow> (server_error, tree_edge_record option) result" where
  "compact_load_child_edge store parent slot =
    and_then (map_err catalog_err (ts_load_child_edges store [\<lparr>tel_parent_node_id = parent, tel_slots = [slot]\<rparr>])) (\<lambda>edges.
      if length edges > 1 then Inl (Catalog None)
      else case edges of
        [] \<Rightarrow> Inr None
      | e # _ \<Rightarrow> if te_parent_node_id e \<noteq> parent \<or> te_slot e \<noteq> slot then Inl (Catalog None) else Inr (Some e))"

definition validate_existing_node ::
  "tree_node_record \<Rightarrow> export_layout_kind \<Rightarrow> tree_node_span \<Rightarrow> tree_node_kind \<Rightarrow> (server_error, unit) result" where
  "validate_existing_node n layout nspan kind =
    (if tn_layout_kind n \<noteq> layout \<or> tn_kind n \<noteq> kind \<or> tn_level n \<noteq> ns_level nspan \<or>
        tn_span_start_bytes n \<noteq> ns_start_bytes nspan \<or> tn_span_len_bytes n \<noteq> ns_len_bytes nspan
     then Inl (Catalog None) else Inr ())"

fun copy_edges :: "tree_geometry \<Rightarrow> node_id \<Rightarrow> node_id \<Rightarrow> ((node_id \<times> nat) \<times> node_id) list \<Rightarrow> tree_edge_record list
    \<Rightarrow> (server_error, ((node_id \<times> nat) \<times> node_id) list) result" where
  "copy_edges g old_parent new_parent pending [] = Inr pending"
| "copy_edges g old_parent new_parent pending (e # edges) =
    (if te_parent_node_id e \<noteq> old_parent then Inl (Catalog None)
     else if te_slot e \<ge> tg_fanout g then Inl (Catalog None)
     else copy_edges g old_parent new_parent
       (AList.update (new_parent, te_slot e) (te_child_node_id e) pending) edges)"

definition copy_existing_edges_once ::
  "tree_store \<Rightarrow> node_id option \<Rightarrow> node_id \<Rightarrow> tree_node_span \<Rightarrow> cow_tree_publish_planner
    \<Rightarrow> (server_error, cow_tree_publish_planner) result" where
  "copy_existing_edges_once store old_parent new_parent nspan pl =
    (case old_parent of
       None \<Rightarrow> Inr pl
     | Some old_parent \<Rightarrow>
         if new_parent \<in> pl_copied_parents pl then Inr pl
         else
         let pl = pl\<lparr>pl_copied_parents := insert new_parent (pl_copied_parents pl)\<rparr> in
         and_then (compact_load_required_node store old_parent) (\<lambda>n.
         and_then (validate_existing_node n CowImmutableTree nspan Internal) (\<lambda>_.
         and_then (map_err catalog_err (ts_load_child_edges store
             [\<lparr>tel_parent_node_id = old_parent, tel_slots = [0..<tg_fanout (pl_geometry pl)]\<rparr>])) (\<lambda>edges.
         and_then (copy_edges (pl_geometry pl) old_parent new_parent (pl_pending_edges pl) edges) (\<lambda>pending.
           Inr (pl\<lparr>pl_pending_edges := pending\<rparr>))))))"

text \<open>The leaf of a chunk, and a new internal node, under a parent of the new tree.\<close>

definition plan_leaf :: "(nat \<Rightarrow> node_id) \<Rightarrow> chunk_ref \<Rightarrow> node_id \<times> nat \<Rightarrow> tree_node_span \<Rightarrow> cow_tree_publish_planner
    \<Rightarrow> cow_tree_publish_planner" where
  "plan_leaf ids chunk edge_key nspan pl =
    (let child = ids (pl_drawn pl); records = pl_records pl in
     pl\<lparr>pl_drawn := pl_drawn pl + 1,
       pl_records := records\<lparr>tb_nodes := tb_nodes records @ [leaf_node (pl_factory pl) child nspan],
         tb_leaf_refs := tb_leaf_refs records @ [factory_leaf_ref (pl_factory pl) child ImmutableBlob (cr_blob_key chunk)]\<rparr>,
       pl_pending_edges := AList.update edge_key child (pl_pending_edges pl)\<rparr>)"

definition plan_internal ::
  "tree_store \<Rightarrow> (nat \<Rightarrow> node_id) \<Rightarrow> node_id \<times> nat \<Rightarrow> tree_node_span \<Rightarrow> node_id option \<Rightarrow> cow_tree_publish_planner
    \<Rightarrow> (server_error, node_id \<times> cow_tree_publish_planner) result" where
  "plan_internal store ids edge_key nspan old_child pl =
    (case pl_new_internal_edges pl edge_key of
       Some child \<Rightarrow> Inr (child, pl)
     | None \<Rightarrow>
         and_then (case old_child of
             None \<Rightarrow> Inr ()
           | Some oc \<Rightarrow> and_then (compact_load_required_node store oc) (\<lambda>n.
               validate_existing_node n CowImmutableTree nspan Internal)) (\<lambda>_.
         let child = ids (pl_drawn pl); records = pl_records pl in
         Inr (child, pl\<lparr>pl_drawn := pl_drawn pl + 1,
           pl_records := records\<lparr>tb_nodes := tb_nodes records @ [internal_node (pl_factory pl) child nspan]\<rparr>,
           pl_pending_edges := AList.update edge_key child (pl_pending_edges pl),
           pl_new_internal_edges := (pl_new_internal_edges pl)(edge_key \<mapsto> child)\<rparr>)))"

fun plan_slots :: "tree_store \<Rightarrow> (nat \<Rightarrow> node_id) \<Rightarrow> chunk_ref \<Rightarrow> nat list \<Rightarrow> node_id option \<Rightarrow> node_id \<Rightarrow> tree_node_span
    \<Rightarrow> cow_tree_publish_planner \<Rightarrow> (server_error, cow_tree_publish_planner) result" where
  "plan_slots store ids chunk [] old_parent new_parent parent_span pl = Inr pl"
| "plan_slots store ids chunk (slot # slots) old_parent new_parent parent_span pl =
    and_then (child_span (pl_geometry pl) parent_span slot) (\<lambda>nspan.
    and_then (case old_parent of
        None \<Rightarrow> Inr None
      | Some parent \<Rightarrow> and_then (compact_load_child_edge store parent slot) (\<lambda>e.
          Inr (map_option te_child_node_id e))) (\<lambda>old_child.
    if ns_level nspan = 0 then Inr (plan_leaf ids chunk (new_parent, slot) nspan pl)
    else
    and_then (plan_internal store ids (new_parent, slot) nspan old_child pl) (\<lambda>(child, pl).
    and_then (copy_existing_edges_once store old_child child nspan pl) (\<lambda>pl.
      plan_slots store ids chunk slots old_child child nspan pl))))"

definition plan_chunk ::
  "tree_store \<Rightarrow> (nat \<Rightarrow> node_id) \<Rightarrow> cow_tree_publish_planner \<Rightarrow> chunk_ref
    \<Rightarrow> (server_error, cow_tree_publish_planner) result" where
  "plan_chunk store ids pl chunk =
    and_then (path_for_chunk (pl_geometry pl) (cr_chunk_index chunk)) (\<lambda>path.
    and_then (copy_existing_edges_once store (pl_old_root_node_id pl) (pl_new_root_node_id pl)
        (root_span (pl_geometry pl)) pl) (\<lambda>pl.
      plan_slots store ids chunk (tp_slots path) (pl_old_root_node_id pl) (pl_new_root_node_id pl)
        (root_span (pl_geometry pl)) pl))"

definition plan_chunks ::
  "tree_store \<Rightarrow> (nat \<Rightarrow> node_id)
    \<Rightarrow> (((node_id \<times> nat) \<times> node_id) list \<Rightarrow> ((node_id \<times> nat) \<times> node_id) list)
    \<Rightarrow> cow_tree_publish_planner \<Rightarrow> chunk_ref list \<Rightarrow> (server_error, tree_record_batch) result" where
  "plan_chunks store ids hash_order pl chunks =
    and_then (try_fold (plan_chunk store ids) pl chunks) (\<lambda>pl.
    and_then (try_map (\<lambda>((parent, slot), child).
        and_then (map_err catalog_err (new_node_id parent)) (\<lambda>parent. Inr (child_edge parent slot child)))
        (hash_order (pl_pending_edges pl))) (\<lambda>edges.
      Inr ((pl_records pl)\<lparr>tb_edges := tb_edges (pl_records pl) @ edges\<rparr>)))"

section \<open>Lookups of the planner\<close>

lemma compact_lookups:
  "compact_load_required_node = load_required_node"
  "compact_load_child_edge = load_child_edge"
  "validate_existing_node n layout sp kind = validate_node layout n sp kind"
  by (auto simp: fun_eq_iff compact_load_required_node_def load_required_node_def compact_load_child_edge_def
      load_child_edge_def validate_existing_node_def validate_node_def invalid_tree_def intro!: and_then_cong split: list.split)

text \<open>The node of the old tree at a path from the root.\<close>

definition old_at :: "catalog_db \<Rightarrow> node_id option \<Rightarrow> nat list \<Rightarrow> node_id option" where
  "old_at db old p = Option.bind old (\<lambda>o'. follow db o' p)"

lemma follow_append: "follow db n (p @ q) = Option.bind (follow db n p) (\<lambda>m. follow db m q)"
  by (induction p arbitrary: n) (auto split: option.split)

lemma old_at_snoc: "old_at db old (p @ [s]) = Option.bind (old_at db old p) (\<lambda>m. child_at db m s)"
  by (cases old) (auto simp: old_at_def follow_append split: option.split bind_split)

definition span_at :: "tree_geometry \<Rightarrow> nat list \<Rightarrow> (server_error, tree_node_span) result" where
  "span_at g p = try_fold (child_span g) (root_span g) p"

lemma and_then_Inr [simp]: "and_then m Inr = m"
  by (cases m) auto

lemma span_at_snoc: "span_at g (p @ [s]) = and_then (span_at g p) (\<lambda>sp. child_span g sp s)"
  by (simp add: span_at_def try_fold_append)

lemma child_span_Inr:
  "child_span g sp s = Inr sp' \<Longrightarrow> s < tg_fanout g \<and> ns_level sp = Suc (ns_level sp')"
  by (auto simp: child_span_def node_span_def and_then_Inr_iff Let_def split: if_splits)

lemma span_at_level: "span_at g p = Inr sp \<Longrightarrow> ns_level sp + length p = tg_root_level g"
proof (induction p arbitrary: sp rule: rev_induct)
  case Nil
  then show ?case by (auto simp: span_at_def root_span_def)
next
  case (snoc s p)
  then show ?case by (auto simp: span_at_snoc and_then_Inr_iff dest!: child_span_Inr)
qed

lemma path_injective:
  assumes "geometry_ok g" "c * 2 ^ 25 < tg_size_bytes g" "c' * 2 ^ 25 < tg_size_bytes g" "path_of g c = path_of g c'"
  shows "c = c'"
proof -
  have "c div 32 ^ tg_root_level g = 0" "c' div 32 ^ tg_root_level g = 0"
    using chunk_below_capacity [OF assms(1,2)] chunk_below_capacity [OF assms(1,3)] by simp_all
  then show ?thesis using digits_value [of c "tg_root_level g"] digits_value [of c' "tg_root_level g"] assms(4)
    unfolding path_of_def by metis
qed

lemma load_all_edges:
  assumes "tables_ok db"
  shows "load_child_edges db_ok db [\<lparr>tel_parent_node_id = nid, tel_slots = slots\<rparr>] = Inr (List.map_filter (\<lambda>s.
    map_option (\<lambda>c. \<lparr>te_parent_node_id = nid, te_slot = s, te_child_node_id = c\<rparr>) (child_at db nid s)) slots)"
proof -
  have "transpose_opt row_to_edge (find (\<lambda>r. gr_parent_node_id r = nid \<and> gr_slot r = u16_to_i64 s) (db_edges db)) =
      Inr (map_option (\<lambda>c. \<lparr>te_parent_node_id = nid, te_slot = s, te_child_node_id = c\<rparr>) (child_at db nid s))" for s
  proof (cases "find (\<lambda>r. gr_parent_node_id r = nid \<and> gr_slot r = u16_to_i64 s) (db_edges db)")
    case (Some r)
    then have r: "is_ok (row_to_edge r)" "gr_parent_node_id r = nid" "gr_slot r = int s"
      using assms find_SomeD [OF Some] by (auto simp: tables_ok_def u16_to_i64_def)
    then obtain d where d: "row_to_edge r = Inr d" by (auto simp: is_ok_iff)
    then show ?thesis using Some row_ids(2) [OF d] r(2,3) by (simp add: child_at_def transpose_opt_def)
  qed (simp add: child_at_def transpose_opt_def)
  then have "try_map (\<lambda>(parent, slot). and_then (statement db_ok ''load edge'') (\<lambda>_. transpose_opt row_to_edge
        (find (\<lambda>r. gr_parent_node_id r = parent \<and> gr_slot r = u16_to_i64 slot) (db_edges db)))) (map (Pair nid) slots) =
      Inr (map (\<lambda>s. map_option (\<lambda>c. \<lparr>te_parent_node_id = nid, te_slot = s, te_child_node_id = c\<rparr>) (child_at db nid s)) slots)"
    by (simp add: try_map_Inr_iff list_all2_conv_all_nth)
  then show ?thesis by (simp add: load_child_edges_def List.map_filter_def comp_def filter_map o_def)
qed

section \<open>The invariant of the planner\<close>

text \<open>
  The ghost map \<open>N\<close> gives the new node at a path. Its domain is closed under prefixes;
  the pending edges of a new node are its new children and, once its old counterpart has been
  copied, the old children at the other slots.
\<close>

definition inner :: "(nat list \<rightharpoonup> node_id) \<Rightarrow> nat \<Rightarrow> node_id set" where
  "inner N L = {n. \<exists>p. N p = Some n \<and> length p < L}"

definition names_ok :: "(nat \<Rightarrow> node_id) \<Rightarrow> (nat list \<rightharpoonup> node_id) \<Rightarrow> cow_tree_publish_planner \<Rightarrow> bool" where
  "names_ok ids N pl \<longleftrightarrow> N [] = Some (pl_new_root_node_id pl) \<and> (\<forall>p q n. N p = Some n \<longrightarrow> N q = Some n \<longrightarrow> p = q) \<and>
    (\<forall>p n. N p = Some n \<longrightarrow> n \<in> ids ` {..<pl_drawn pl} \<and> length p \<le> tg_root_level (pl_geometry pl)) \<and>
    (\<forall>p s. N (p @ [s]) \<noteq> None \<longrightarrow> N p \<noteq> None) \<and>
    pl_copied_parents pl \<subseteq> inner N (tg_root_level (pl_geometry pl))"

definition links_ok :: "catalog_db \<Rightarrow> node_id option \<Rightarrow> (nat list \<rightharpoonup> node_id) \<Rightarrow> cow_tree_publish_planner \<Rightarrow> bool" where
  "links_ok db old N pl \<longleftrightarrow>
    (\<forall>p n s. N p = Some n \<longrightarrow> length p < tg_root_level (pl_geometry pl) \<longrightarrow>
      map_of (pl_pending_edges pl) (n, s) = (case N (p @ [s]) of Some c \<Rightarrow> Some c
        | None \<Rightarrow> if n \<in> pl_copied_parents pl \<and> s < tg_fanout (pl_geometry pl) then old_at db old (p @ [s]) else None) \<and>
      (n \<notin> pl_copied_parents pl \<longrightarrow> old_at db old p \<noteq> None \<longrightarrow> N (p @ [s]) = None) \<and>
      pl_new_internal_edges pl (n, s) = (if Suc (length p) < tg_root_level (pl_geometry pl) then N (p @ [s]) else None)) \<and>
    (\<forall>n s. (n, s) \<in> fst ` set (pl_pending_edges pl) \<longrightarrow> n \<in> inner N (tg_root_level (pl_geometry pl)) \<and> s < tg_fanout (pl_geometry pl)) \<and>
    (\<forall>n s. pl_new_internal_edges pl (n, s) \<noteq> None \<longrightarrow> n \<in> inner N (tg_root_level (pl_geometry pl))) \<and>
    distinct (map fst (pl_pending_edges pl))"

definition records_ok :: "(nat \<Rightarrow> node_id) \<Rightarrow> export_id \<Rightarrow> (nat list \<rightharpoonup> node_id) \<Rightarrow> (nat list \<Rightarrow> blob_key)
    \<Rightarrow> cow_tree_publish_planner \<Rightarrow> bool" where
  "records_ok ids eid N K pl \<longleftrightarrow> tb_edges (pl_records pl) = [] \<and>
    pl_factory pl = \<lparr>rf_geometry = pl_geometry pl, rf_layout_kind = CowImmutableTree, rf_owner_export_id = Some eid\<rparr> \<and>
    (\<forall>m \<in> set (tb_nodes (pl_records pl)). tn_id m \<in> ids ` {..<pl_drawn pl} \<and> tn_owner_export_id m = Some eid \<and>
      tn_level m \<le> tg_root_level (pl_geometry pl)) \<and>
    (\<forall>l \<in> set (tb_leaf_refs (pl_records pl)). tl_node_id l \<in> ids ` {..<pl_drawn pl} \<and>
      is_ok (new_blob_key (tl_storage_key l))) \<and>
    (\<forall>p n. N p = Some n \<longrightarrow> (\<exists>sp m. span_at (pl_geometry pl) p = Inr sp \<and>
        find (\<lambda>m. tn_id m = n) (tb_nodes (pl_records pl)) = Some m \<and>
        validate_node CowImmutableTree m sp (span_kind sp) = Inr ()) \<and>
      (length p = tg_root_level (pl_geometry pl) \<longrightarrow>
        (\<exists>l. find (\<lambda>l. tl_node_id l = n) (tb_leaf_refs (pl_records pl)) = Some l \<and>
          tl_storage_kind l = ImmutableBlob \<and> tl_storage_key l = K p)))"

definition plan_inv :: "catalog_db \<Rightarrow> (nat \<Rightarrow> node_id) \<Rightarrow> export_id \<Rightarrow> node_id option \<Rightarrow> (nat list \<rightharpoonup> node_id)
    \<Rightarrow> (nat list \<Rightarrow> blob_key) \<Rightarrow> cow_tree_publish_planner \<Rightarrow> bool" where
  "plan_inv db ids eid old N K pl \<longleftrightarrow> names_ok ids N pl \<and> links_ok db old N pl \<and> records_ok ids eid N K pl"

definition copied_but :: "catalog_db \<Rightarrow> node_id option \<Rightarrow> (nat list \<rightharpoonup> node_id) \<Rightarrow> cow_tree_publish_planner \<Rightarrow> nat list set \<Rightarrow> bool" where
  "copied_but db old N pl P \<longleftrightarrow> (\<forall>p n. N p = Some n \<longrightarrow> length p < tg_root_level (pl_geometry pl) \<longrightarrow> p \<notin> P \<longrightarrow>
    old_at db old p \<noteq> None \<longrightarrow> n \<in> pl_copied_parents pl)"

lemma new_planner_sel [simp]:
  "pl_geometry (new_planner ids g eid old) = g" "pl_new_root_node_id (new_planner ids g eid old) = ids 0"
  "pl_old_root_node_id (new_planner ids g eid old) = old" "pl_copied_parents (new_planner ids g eid old) = {}"
  "pl_new_internal_edges (new_planner ids g eid old) = Map.empty" "pl_pending_edges (new_planner ids g eid old) = []"
  "pl_drawn (new_planner ids g eid old) = 1"
  "pl_factory (new_planner ids g eid old) =
    \<lparr>rf_geometry = g, rf_layout_kind = CowImmutableTree, rf_owner_export_id = Some eid\<rparr>"
  "tb_nodes (pl_records (new_planner ids g eid old)) = [root_node
    \<lparr>rf_geometry = g, rf_layout_kind = CowImmutableTree, rf_owner_export_id = Some eid\<rparr> (ids 0)]"
  "tb_edges (pl_records (new_planner ids g eid old)) = []" "tb_leaf_refs (pl_records (new_planner ids g eid old)) = []"
  by (simp_all add: new_planner_def Let_def empty_batch_def)

lemma new_planner_inv:
  assumes "geometry_ok g"
  shows "plan_inv db ids eid old [[] \<mapsto> ids 0] K (new_planner ids g eid old)"
    "copied_but db old [[] \<mapsto> ids 0] (new_planner ids g eid old) {[]}"
proof -
  have L: "0 < tg_root_level g" using assms by (simp add: geometry_ok_def)
  have "names_ok ids [[] \<mapsto> ids 0] (new_planner ids g eid old)" by (auto simp: names_ok_def split: if_splits)
  moreover have "links_ok db old [[] \<mapsto> ids 0] (new_planner ids g eid old)" by (auto simp: links_ok_def split: if_splits)
  moreover have "records_ok ids eid [[] \<mapsto> ids 0] K (new_planner ids g eid old)"
    using L by (simp add: records_ok_def root_node_def internal_node_def span_at_def validate_node_def span_kind_def root_span_def)
  ultimately show "plan_inv db ids eid old [[] \<mapsto> ids 0] K (new_planner ids g eid old)" by (simp add: plan_inv_def)
  show "copied_but db old [[] \<mapsto> ids 0] (new_planner ids g eid old) {[]}" by (auto simp: copied_but_def split: if_splits)
qed

text \<open>A new node at a path whose parent has been copied.\<close>

lemma names_okD:
  assumes "names_ok ids N pl"
  shows "N [] = Some (pl_new_root_node_id pl)" "N p = Some n \<Longrightarrow> N q = Some n \<Longrightarrow> p = q"
    "N p = Some n \<Longrightarrow> n \<in> ids ` {..<pl_drawn pl}" "N p = Some n \<Longrightarrow> length p \<le> tg_root_level (pl_geometry pl)"
    "N (p @ [s]) = Some n \<Longrightarrow> \<exists>m. N p = Some m" "pl_copied_parents pl \<subseteq> inner N (tg_root_level (pl_geometry pl))"
  using assms unfolding names_ok_def by blast+

lemma drawn_new: "names_ok ids N pl \<Longrightarrow> inj ids \<Longrightarrow> N q \<noteq> Some (ids (pl_drawn pl))"
  by (auto dest!: names_okD(3) dest: injD)

lemma inner_add: "N q = None \<or> L \<le> length q \<Longrightarrow> inner N L \<subseteq> inner (N(q \<mapsto> x)) L"
proof
  fix n assume q: "N q = None \<or> L \<le> length q" and "n \<in> inner N L"
  then obtain p where p: "N p = Some n" "length p < L" by (auto simp: inner_def)
  then have "p \<noteq> q" using q by auto
  then have "(N(q \<mapsto> x)) p = Some n" using p by simp
  then show "n \<in> inner (N(q \<mapsto> x)) L" using p(2) unfolding inner_def by blast
qed

lemma names_add:
  assumes inv: "names_ok ids N pl" and "inj ids" "N p = Some n" "length p < tg_root_level (pl_geometry pl)"
    and pl': "pl_geometry pl' = pl_geometry pl" "pl_new_root_node_id pl' = pl_new_root_node_id pl"
      "pl_copied_parents pl' = pl_copied_parents pl" "pl_drawn pl' = pl_drawn pl + 1"
    and old: "N (p @ [s]) = None \<or> tg_root_level (pl_geometry pl) \<le> Suc (length p)"
  shows "names_ok ids (N(p @ [s] \<mapsto> ids (pl_drawn pl))) pl'"
  unfolding names_ok_def
proof (intro conjI allI impI)
  let ?N = "N(p @ [s] \<mapsto> ids (pl_drawn pl))"
  note new = drawn_new [OF inv \<open>inj ids\<close>]
  show "?N [] = Some (pl_new_root_node_id pl')" using names_okD(1) [OF inv] pl'(2) by simp
  show "q = q'" if "?N q = Some m" "?N q' = Some m" for q q' m
    using that new names_okD(2) [OF inv] by (auto split: if_splits)
  show "m \<in> ids ` {..<pl_drawn pl'}" if "?N q = Some m" for q m
    using that names_okD(3) [OF inv] pl'(4) by (fastforce split: if_splits)
  show "length q \<le> tg_root_level (pl_geometry pl')" if "?N q = Some m" for q m
    using that names_okD(4) [OF inv] pl'(1) assms(4) by (auto split: if_splits)
  show "?N q \<noteq> None" if "?N (q @ [t]) \<noteq> None" for q t
    using that names_okD(5) [OF inv] assms(3) by (auto split: if_splits)
  show "pl_copied_parents pl' \<subseteq> inner ?N (tg_root_level (pl_geometry pl'))"
    using names_okD(6) [OF inv] inner_add [of N "p @ [s]"] old unfolding pl' by (simp add: subset_iff)
qed

lemma links_okD:
  assumes "links_ok db old N pl"
  shows "N p = Some n \<Longrightarrow> length p < tg_root_level (pl_geometry pl) \<Longrightarrow>
      map_of (pl_pending_edges pl) (n, s) = (case N (p @ [s]) of Some c \<Rightarrow> Some c
        | None \<Rightarrow> if n \<in> pl_copied_parents pl \<and> s < tg_fanout (pl_geometry pl) then old_at db old (p @ [s]) else None)"
    "N p = Some n \<Longrightarrow> length p < tg_root_level (pl_geometry pl) \<Longrightarrow> n \<notin> pl_copied_parents pl \<Longrightarrow> old_at db old p \<noteq> None \<Longrightarrow>
      N (p @ [s]) = None"
    "N p = Some n \<Longrightarrow> length p < tg_root_level (pl_geometry pl) \<Longrightarrow>
      pl_new_internal_edges pl (n, s) = (if Suc (length p) < tg_root_level (pl_geometry pl) then N (p @ [s]) else None)"
    "(n, s) \<in> fst ` set (pl_pending_edges pl) \<Longrightarrow>
      n \<in> inner N (tg_root_level (pl_geometry pl)) \<and> s < tg_fanout (pl_geometry pl)"
    "pl_new_internal_edges pl (n, s) \<noteq> None \<Longrightarrow> n \<in> inner N (tg_root_level (pl_geometry pl))"
    "distinct (map fst (pl_pending_edges pl))"
  using assms unfolding links_ok_def by blast+

lemma links_add:
  assumes inv: "names_ok ids N pl" "links_ok db old N pl" "inj ids" and p: "N p = Some n" "length p < tg_root_level (pl_geometry pl)"
    and s: "s < tg_fanout (pl_geometry pl)" and copied: "old_at db old p \<noteq> None \<longrightarrow> n \<in> pl_copied_parents pl"
    and pl': "pl_geometry pl' = pl_geometry pl" "pl_copied_parents pl' = pl_copied_parents pl"
      "pl_pending_edges pl' = AList.update (n, s) (ids (pl_drawn pl)) (pl_pending_edges pl)"
      "pl_new_internal_edges pl' = (if Suc (length p) < tg_root_level (pl_geometry pl)
        then (pl_new_internal_edges pl)((n, s) \<mapsto> ids (pl_drawn pl)) else pl_new_internal_edges pl)"
    and new: "N (p @ [s]) = None \<or> tg_root_level (pl_geometry pl) \<le> Suc (length p)"
  shows "links_ok db old (N(p @ [s] \<mapsto> ids (pl_drawn pl))) pl'"
proof -
  let ?x = "ids (pl_drawn pl)" and ?L = "tg_root_level (pl_geometry pl)"
  let ?N = "N(p @ [s] \<mapsto> ?x)"
  note fresh = drawn_new [OF inv(1,3)]
  have grow: "inner N ?L \<subseteq> inner ?N ?L" using new by (intro inner_add) auto
  have own: "n \<in> inner N ?L" using p by (auto simp: inner_def)
  have free: "?x \<notin> inner N ?L" using fresh by (auto simp: inner_def)
  have unused: "map_of (pl_pending_edges pl) (?x, t) = None" "pl_new_internal_edges pl (?x, t) = None" "?x \<notin> pl_copied_parents pl" for t
    using links_okD(4,5) [OF inv(2), of ?x t] names_okD(6) [OF inv(1)] free
    by (cases "pl_new_internal_edges pl (?x, t)"; auto simp: map_of_eq_None_iff)+
  have node: "map_of (pl_pending_edges pl') (m, t) = (case ?N (q @ [t]) of Some c \<Rightarrow> Some c
        | None \<Rightarrow> if m \<in> pl_copied_parents pl' \<and> t < tg_fanout (pl_geometry pl') then old_at db old (q @ [t]) else None) \<and>
      (m \<notin> pl_copied_parents pl' \<longrightarrow> old_at db old q \<noteq> None \<longrightarrow> ?N (q @ [t]) = None) \<and>
      pl_new_internal_edges pl' (m, t) = (if Suc (length q) < tg_root_level (pl_geometry pl') then ?N (q @ [t]) else None)"
    if q: "?N q = Some m" "length q < ?L" for q m t
  proof (cases "q = p @ [s]")
    case True
    then have "m = ?x" "N (p @ [s]) = None" using q new by auto
    moreover from this(2) have "N (p @ [s, t]) = None" using names_okD(5) [OF inv(1), of "p @ [s]" t]
      by (cases "N (p @ [s, t])") auto
    moreover have "n \<noteq> ?x" using fresh p(1) by auto
    ultimately show ?thesis using True unused unfolding pl' by (simp add: update_conv)
  next
    case False
    then have m: "N q = Some m" using q(1) by simp
    show ?thesis
    proof (cases "q = p \<and> t = s")
      case True
      then have "m = n" using m p(1) by simp
      then show ?thesis using True copied links_okD(3) [OF inv(2) p, of s] unfolding pl'
        by (cases "old_at db old p") (simp_all add: update_conv)
    next
      case False
      then have ne: "(m, t) \<noteq> (n, s)" "q @ [t] \<noteq> p @ [s]" using names_okD(2) [OF inv(1) m] p(1) by auto
      then have "map_of (pl_pending_edges pl') (m, t) = map_of (pl_pending_edges pl) (m, t)" "?N (q @ [t]) = N (q @ [t])"
          "pl_new_internal_edges pl' (m, t) = pl_new_internal_edges pl (m, t)"
        unfolding pl' update_conv by (auto simp: fun_upd_def)
      then show ?thesis using links_okD(1-3) [OF inv(2) m q(2)] unfolding pl'(1,2) by simp
    qed
  qed
  have pend: "m \<in> inner ?N ?L \<and> t < tg_fanout (pl_geometry pl)" if "(m, t) \<in> fst ` set (pl_pending_edges pl')" for m t
    using that links_okD(4) [OF inv(2), of m t] own s grow unfolding pl' dom_update by auto
  have int: "m \<in> inner ?N ?L" if "pl_new_internal_edges pl' (m, t) \<noteq> None" for m t
    using that links_okD(5) [OF inv(2), of m t] own grow unfolding pl' by (auto split: if_splits)
  have "distinct (map fst (pl_pending_edges pl'))" using links_okD(6) [OF inv(2)] unfolding pl' by (rule distinct_update)
  then show ?thesis unfolding links_ok_def using node pend int unfolding pl'(1) by blast
qed

lemma records_okD:
  assumes "records_ok ids eid N K pl"
  shows "tb_edges (pl_records pl) = []"
    "pl_factory pl = \<lparr>rf_geometry = pl_geometry pl, rf_layout_kind = CowImmutableTree, rf_owner_export_id = Some eid\<rparr>"
    "m \<in> set (tb_nodes (pl_records pl)) \<Longrightarrow> tn_id m \<in> ids ` {..<pl_drawn pl} \<and> tn_owner_export_id m = Some eid \<and>
      tn_level m \<le> tg_root_level (pl_geometry pl)"
    "l \<in> set (tb_leaf_refs (pl_records pl)) \<Longrightarrow> tl_node_id l \<in> ids ` {..<pl_drawn pl} \<and> is_ok (new_blob_key (tl_storage_key l))"
    "N p = Some n \<Longrightarrow> \<exists>sp m. span_at (pl_geometry pl) p = Inr sp \<and> find (\<lambda>m. tn_id m = n) (tb_nodes (pl_records pl)) = Some m \<and>
      validate_node CowImmutableTree m sp (span_kind sp) = Inr ()"
    "N p = Some n \<Longrightarrow> length p = tg_root_level (pl_geometry pl) \<Longrightarrow>
      \<exists>l. find (\<lambda>l. tl_node_id l = n) (tb_leaf_refs (pl_records pl)) = Some l \<and> tl_storage_kind l = ImmutableBlob \<and> tl_storage_key l = K p"
  using assms unfolding records_ok_def by blast+

lemma records_add:
  assumes inv: "names_ok ids N pl" "records_ok ids eid N K pl" "inj ids" and p: "length p < tg_root_level (pl_geometry pl)"
    and pl': "pl_geometry pl' = pl_geometry pl" "pl_factory pl' = pl_factory pl" "pl_drawn pl' = pl_drawn pl + 1"
      "tb_edges (pl_records pl') = tb_edges (pl_records pl)"
      "tb_nodes (pl_records pl') = tb_nodes (pl_records pl) @ [m]"
      "tb_leaf_refs (pl_records pl') = tb_leaf_refs (pl_records pl) @ ls"
    and m: "tn_id m = ids (pl_drawn pl)" "tn_owner_export_id m = Some eid" "span_at (pl_geometry pl) (p @ [s]) = Inr sp"
      "validate_node CowImmutableTree m sp (span_kind sp) = Inr ()" "tn_level m \<le> tg_root_level (pl_geometry pl)"
    and ls: "ls = (if Suc (length p) = tg_root_level (pl_geometry pl) then [l] else [])"
      "tl_node_id l = ids (pl_drawn pl)" "tl_storage_kind l = ImmutableBlob" "tl_storage_key l = key" "is_ok (new_blob_key key)"
  shows "records_ok ids eid (N(p @ [s] \<mapsto> ids (pl_drawn pl))) (K(p @ [s] := key)) pl'"
proof -
  let ?x = "ids (pl_drawn pl)" and ?L = "tg_root_level (pl_geometry pl)"
  have grow: "ids ` {..<pl_drawn pl} \<subseteq> ids ` {..<pl_drawn pl'}" "?x \<in> ids ` {..<pl_drawn pl'}" using pl'(3) by auto
  have fresh: "?x \<notin> ids ` {..<pl_drawn pl}" using inv(3) by (auto dest: injD)
  have none: "find (\<lambda>m. tn_id m = ?x) (tb_nodes (pl_records pl)) = None" "find (\<lambda>l. tl_node_id l = ?x) (tb_leaf_refs (pl_records pl)) = None"
    using records_okD(3,4) [OF inv(2)] fresh unfolding find_None_iff by metis+
  have nodes: "tn_id n \<in> ids ` {..<pl_drawn pl'} \<and> tn_owner_export_id n = Some eid \<and> tn_level n \<le> ?L"
    if "n \<in> set (tb_nodes (pl_records pl'))" for n
    using that records_okD(3) [OF inv(2), of n] grow m(1,2,5) unfolding pl'(5) by auto
  have leaves: "tl_node_id k \<in> ids ` {..<pl_drawn pl'} \<and> is_ok (new_blob_key (tl_storage_key k))"
    if "k \<in> set (tb_leaf_refs (pl_records pl'))" for k
    using that records_okD(4) [OF inv(2), of k] grow ls unfolding pl'(6) by (auto split: if_splits)
  have at: "(\<exists>sp m. span_at (pl_geometry pl) q = Inr sp \<and> find (\<lambda>m. tn_id m = n) (tb_nodes (pl_records pl')) = Some m \<and>
        validate_node CowImmutableTree m sp (span_kind sp) = Inr ()) \<and>
      (length q = ?L \<longrightarrow> (\<exists>l. find (\<lambda>l. tl_node_id l = n) (tb_leaf_refs (pl_records pl')) = Some l \<and>
        tl_storage_kind l = ImmutableBlob \<and> tl_storage_key l = (K(p @ [s] := key)) q))"
    if q: "(N(p @ [s] \<mapsto> ?x)) q = Some n" for q n
  proof (cases "q = p @ [s]")
    case True
    then have "n = ?x" using q by simp
    then show ?thesis using True none m ls unfolding pl'(5,6) by (simp add: find_append)
  next
    case False
    then have n: "N q = Some n" using q by simp
    then have "n \<noteq> ?x" using drawn_new [OF inv(1,3)] by auto
    then show ?thesis using False m(1) ls(1,2) records_okD(5,6) [OF inv(2) n] unfolding pl'(5,6) by (auto simp: find_append)
  qed
  show ?thesis
    unfolding records_ok_def pl'(1,2,4) using records_okD(1,2) [OF inv(2)] nodes leaves at by blast
qed

lemma plan_add:
  assumes inv: "plan_inv db ids eid old N K pl" "inj ids" and p: "N p = Some n" "length p < tg_root_level (pl_geometry pl)"
    and s: "s < tg_fanout (pl_geometry pl)" and copied: "old_at db old p \<noteq> None \<longrightarrow> n \<in> pl_copied_parents pl"
    and new: "N (p @ [s]) = None \<or> tg_root_level (pl_geometry pl) \<le> Suc (length p)"
    and pl': "pl_geometry pl' = pl_geometry pl" "pl_new_root_node_id pl' = pl_new_root_node_id pl" "pl_copied_parents pl' = pl_copied_parents pl" "pl_drawn pl' = pl_drawn pl + 1"
      "pl_factory pl' = pl_factory pl" "tb_edges (pl_records pl') = tb_edges (pl_records pl)"
      "pl_pending_edges pl' = AList.update (n, s) (ids (pl_drawn pl)) (pl_pending_edges pl)"
      "pl_new_internal_edges pl' = (if Suc (length p) < tg_root_level (pl_geometry pl)
        then (pl_new_internal_edges pl)((n, s) \<mapsto> ids (pl_drawn pl)) else pl_new_internal_edges pl)"
      "tb_nodes (pl_records pl') = tb_nodes (pl_records pl) @ [m]" "tb_leaf_refs (pl_records pl') = tb_leaf_refs (pl_records pl) @ ls"
    and m: "tn_id m = ids (pl_drawn pl)" "tn_owner_export_id m = Some eid" "span_at (pl_geometry pl) (p @ [s]) = Inr sp"
      "validate_node CowImmutableTree m sp (span_kind sp) = Inr ()"
    and ls: "ls = (if Suc (length p) = tg_root_level (pl_geometry pl) then [l] else [])"
      "tl_node_id l = ids (pl_drawn pl)" "tl_storage_kind l = ImmutableBlob" "tl_storage_key l = key" "is_ok (new_blob_key key)"
  shows "plan_inv db ids eid old (N(p @ [s] \<mapsto> ids (pl_drawn pl))) (K(p @ [s] := key)) pl'"
    "copied_but db old N pl P \<Longrightarrow> copied_but db old (N(p @ [s] \<mapsto> ids (pl_drawn pl))) pl' (insert (p @ [s]) P)"
proof -
  have "tn_level m = ns_level sp" using m(4) by (simp add: validate_node_def split: if_splits)
  then have level: "tn_level m \<le> tg_root_level (pl_geometry pl)" using span_at_level [OF m(3)] by simp
  have parts: "names_ok ids N pl" "links_ok db old N pl" "records_ok ids eid N K pl" using inv(1) by (simp_all add: plan_inv_def)
  show "plan_inv db ids eid old (N(p @ [s] \<mapsto> ids (pl_drawn pl))) (K(p @ [s] := key)) pl'"
    unfolding plan_inv_def
    using names_add [OF parts(1) inv(2) p pl'(1-4) new] links_add [OF parts(1,2) inv(2) p s copied pl'(1,3,7,8) new]
      records_add [OF parts(1,3) inv(2) p(2) pl'(1,5,4,6,9,10) m level ls] by blast
  show "copied_but db old (N(p @ [s] \<mapsto> ids (pl_drawn pl))) pl' (insert (p @ [s]) P)" if "copied_but db old N pl P"
    using that unfolding copied_but_def pl'(1,3) by (auto split: if_splits)
qed

section \<open>Planning a chunk\<close>

lemma copy_edges_ok:
  assumes "copy_edges g ob n pend (List.map_filter (\<lambda>s.
      map_option (\<lambda>c. \<lparr>te_parent_node_id = ob, te_slot = s, te_child_node_id = c\<rparr>) (child_at db ob s)) slots) = Inr pend'"
    and "distinct (map fst pend)"
  shows "distinct (map fst pend') \<and> fst ` set pend' \<subseteq> fst ` set pend \<union> {n} \<times> {..<tg_fanout g} \<and>
    (\<forall>m t. map_of pend' (m, t) = (if m = n \<and> t \<in> set slots \<and> child_at db ob t \<noteq> None then child_at db ob t else map_of pend (m, t)))"
  using assms
proof (induction slots arbitrary: pend)
  case (Cons s slots)
  show ?case
  proof (cases "child_at db ob s")
    case None
    then show ?thesis using Cons.IH [of pend] Cons.prems by (auto simp: List.map_filter_simps)
  next
    case (Some c)
    let ?pend = "AList.update (n, s) c pend"
    have s: "s < tg_fanout g" and rest: "copy_edges g ob n ?pend (List.map_filter (\<lambda>s.
        map_option (\<lambda>c. \<lparr>te_parent_node_id = ob, te_slot = s, te_child_node_id = c\<rparr>) (child_at db ob s)) slots) = Inr pend'"
      using Cons.prems(1) Some by (auto simp: List.map_filter_simps split: if_splits)
    note IH = Cons.IH [OF rest distinct_update [OF Cons.prems(2)]]
    have "map_of pend' (m, t) = (if m = n \<and> t \<in> set (s # slots) \<and> child_at db ob t \<noteq> None then child_at db ob t else map_of pend (m, t))" for m t
      using IH Some by (cases "m = n \<and> t = s") (auto simp: update_conv)
    then show ?thesis using IH s by (auto simp: dom_update)
  qed
qed (simp add: List.map_filter_simps)

lemma links_copy:
  assumes inv: "names_ok ids N pl" "links_ok db old N pl" and p: "N p = Some n" "length p < tg_root_level (pl_geometry pl)"
    and ob: "old_at db old p = Some ob" "n \<notin> pl_copied_parents pl"
    and edges: "copy_edges (pl_geometry pl) ob n (pl_pending_edges pl) (List.map_filter (\<lambda>s.
      map_option (\<lambda>c. \<lparr>te_parent_node_id = ob, te_slot = s, te_child_node_id = c\<rparr>) (child_at db ob s))
      [0..<tg_fanout (pl_geometry pl)]) = Inr pending"
    and pl': "pl' = pl\<lparr>pl_copied_parents := insert n (pl_copied_parents pl), pl_pending_edges := pending\<rparr>"
  shows "links_ok db old N pl'"
proof -
  let ?L = "tg_root_level (pl_geometry pl)"
  have sel: "pl_geometry pl' = pl_geometry pl" "pl_copied_parents pl' = insert n (pl_copied_parents pl)"
    "pl_pending_edges pl' = pending" "pl_new_internal_edges pl' = pl_new_internal_edges pl"
    unfolding pl' by simp_all
  note cp = copy_edges_ok [OF edges links_okD(6) [OF inv(2)]]
  have own: "n \<in> inner N ?L" using p by (auto simp: inner_def)
  have node: "map_of pending (m, t) = (case N (q @ [t]) of Some c \<Rightarrow> Some c
        | None \<Rightarrow> if m \<in> insert n (pl_copied_parents pl) \<and> t < tg_fanout (pl_geometry pl) then old_at db old (q @ [t]) else None) \<and>
      (m \<notin> insert n (pl_copied_parents pl) \<longrightarrow> old_at db old q \<noteq> None \<longrightarrow> N (q @ [t]) = None) \<and>
      pl_new_internal_edges pl (m, t) = (if Suc (length q) < ?L then N (q @ [t]) else None)"
    if q: "N q = Some m" "length q < ?L" for q m t
  proof (cases "m = n")
    case True
    then have "q = p" using names_okD(2) [OF inv(1)] q p by blast
    moreover have none: "N (p @ [t]) = None" using links_okD(2) [OF inv(2) p ob(2)] ob(1) by simp
    moreover have "map_of (pl_pending_edges pl) (n, t) = None" using links_okD(1) [OF inv(2) p, of t] none ob(2) by simp
    moreover have "old_at db old (p @ [t]) = child_at db ob t" using ob(1) by (simp add: old_at_snoc)
    ultimately show ?thesis using True cp links_okD(3) [OF inv(2) p, of t] by auto
  next
    case False
    then have "map_of pending (m, t) = map_of (pl_pending_edges pl) (m, t)"
        "m \<in> insert n (pl_copied_parents pl) \<longleftrightarrow> m \<in> pl_copied_parents pl" using cp by simp_all
    then show ?thesis using links_okD(1-3) [OF inv(2) q, of t] by auto
  qed
  have "m \<in> inner N ?L \<and> t < tg_fanout (pl_geometry pl)" if "(m, t) \<in> fst ` set pending" for m t
    using that cp links_okD(4) [OF inv(2), of m t] own by blast
  then show ?thesis
    unfolding links_ok_def sel using node cp links_okD(5) [OF inv(2)] by blast
qed

lemma copy_once_ok:
  assumes db: "tables_ok db" and inv: "plan_inv db ids eid old N K pl" "copied_but db old N pl P"
    and p: "N p = Some n" "length p < tg_root_level (pl_geometry pl)"
    and run: "copy_existing_edges_once (sqlite_tree_store env db) (old_at db old p) n sp pl = Inr pl'"
  shows "plan_inv db ids eid old N K pl'" "copied_but db old N pl' (P - {p})" "pl_geometry pl' = pl_geometry pl"
    "pl_new_root_node_id pl' = pl_new_root_node_id pl" "pl_old_root_node_id pl' = pl_old_root_node_id pl"
    "old_at db old p \<noteq> None \<longrightarrow> n \<in> pl_copied_parents pl'"
proof -
  have parts: "names_ok ids N pl" "links_ok db old N pl" "records_ok ids eid N K pl" using inv(1) by (simp_all add: plan_inv_def)
  have "plan_inv db ids eid old N K pl' \<and> copied_but db old N pl' (P - {p}) \<and> pl_geometry pl' = pl_geometry pl \<and>
    pl_new_root_node_id pl' = pl_new_root_node_id pl \<and> pl_old_root_node_id pl' = pl_old_root_node_id pl \<and>
    (old_at db old p \<noteq> None \<longrightarrow> n \<in> pl_copied_parents pl')"
  proof (cases "old_at db old p = None \<or> n \<in> pl_copied_parents pl")
    case True
    then have "pl' = pl" using run by (auto simp: copy_existing_edges_once_def split: option.splits)
    then show ?thesis using True inv p(1) by (auto simp: copied_but_def)
  next
    case False
    then obtain ob where ob: "old_at db old p = Some ob" "n \<notin> pl_copied_parents pl" by auto
    obtain edges pending where e: "load_child_edges env db [\<lparr>tel_parent_node_id = ob, tel_slots = [0..<tg_fanout (pl_geometry pl)]\<rparr>] = Inr edges"
        "copy_edges (pl_geometry pl) ob n (pl_pending_edges pl) edges = Inr pending"
        "pl' = pl\<lparr>pl_copied_parents := insert n (pl_copied_parents pl), pl_pending_edges := pending\<rparr>"
      using run ob by (auto simp: copy_existing_edges_once_def and_then_Inr_iff Let_def)
    have "edges = List.map_filter (\<lambda>s. map_option (\<lambda>c. \<lparr>te_parent_node_id = ob, te_slot = s, te_child_node_id = c\<rparr>) (child_at db ob s))
        [0..<tg_fanout (pl_geometry pl)]"
      using load_child_edges_mono [OF e(1)] load_all_edges [OF db] by simp
    note links = links_copy [OF parts(1,2) p ob e(2) [unfolded this] e(3)]
    have own: "n \<in> inner N (tg_root_level (pl_geometry pl))" using p by (auto simp: inner_def)
    have "names_ok ids N pl'" using parts(1) own unfolding names_ok_def e(3) by simp
    moreover have "records_ok ids eid N K pl'" using parts(3) unfolding records_ok_def e(3) by simp
    moreover have "copied_but db old N pl' (P - {p})" using inv(2) p(1) unfolding copied_but_def e(3) by auto
    ultimately show ?thesis using links by (simp add: plan_inv_def e(3))
  qed
  then show "plan_inv db ids eid old N K pl'" "copied_but db old N pl' (P - {p})" "pl_geometry pl' = pl_geometry pl"
    "pl_new_root_node_id pl' = pl_new_root_node_id pl" "pl_old_root_node_id pl' = pl_old_root_node_id pl"
    "old_at db old p \<noteq> None \<longrightarrow> n \<in> pl_copied_parents pl'" by blast+
qed

text \<open>What one step of the descent adds: a leaf at the last level, an internal node above.\<close>

lemma plan_leaf_sel [simp]:
  "pl_geometry (plan_leaf ids chunk k sp pl) = pl_geometry pl"
  "pl_new_root_node_id (plan_leaf ids chunk k sp pl) = pl_new_root_node_id pl"
  "pl_old_root_node_id (plan_leaf ids chunk k sp pl) = pl_old_root_node_id pl"
  by (simp_all add: plan_leaf_def Let_def)

lemma copied_leaf: "copied_but db old N pl (insert q P) \<Longrightarrow> tg_root_level (pl_geometry pl) \<le> length q \<Longrightarrow> copied_but db old N pl P"
  unfolding copied_but_def by (metis insert_iff leD)

lemma plan_leaf_ok:
  assumes inv: "plan_inv db ids eid old N K pl" "copied_but db old N pl {}" "inj ids"
    and p: "N p = Some n" "Suc (length p) = tg_root_level (pl_geometry pl)"
    and sp: "span_at (pl_geometry pl) p = Inr psp" "child_span (pl_geometry pl) psp s = Inr sp"
    and key: "is_ok (new_blob_key (cr_blob_key chunk))"
  shows "plan_inv db ids eid old (N(p @ [s] \<mapsto> ids (pl_drawn pl))) (K(p @ [s] := cr_blob_key chunk))
      (plan_leaf ids chunk (n, s) sp pl)"
    "copied_but db old (N(p @ [s] \<mapsto> ids (pl_drawn pl))) (plan_leaf ids chunk (n, s) sp pl) {}"
proof -
  have f: "pl_factory pl = \<lparr>rf_geometry = pl_geometry pl, rf_layout_kind = CowImmutableTree, rf_owner_export_id = Some eid\<rparr>"
    using inv(1) by (simp add: plan_inv_def records_ok_def)
  have at: "span_at (pl_geometry pl) (p @ [s]) = Inr sp" using sp by (simp add: span_at_snoc)
  have level: "ns_level sp = 0" using span_at_level [OF at] p(2) by simp
  have copied: "old_at db old p \<noteq> None \<longrightarrow> n \<in> pl_copied_parents pl" using inv(2) p unfolding copied_but_def by auto
  note add = plan_add [OF inv(1,3) p(1) _ conjunct1 [OF child_span_Inr [OF sp(2)]] copied,
      of "plan_leaf ids chunk (n, s) sp pl" "leaf_node (pl_factory pl) (ids (pl_drawn pl)) sp"
        "[factory_leaf_ref (pl_factory pl) (ids (pl_drawn pl)) ImmutableBlob (cr_blob_key chunk)]"
        sp "factory_leaf_ref (pl_factory pl) (ids (pl_drawn pl)) ImmutableBlob (cr_blob_key chunk)" "cr_blob_key chunk"]
  show "plan_inv db ids eid old (N(p @ [s] \<mapsto> ids (pl_drawn pl))) (K(p @ [s] := cr_blob_key chunk))
      (plan_leaf ids chunk (n, s) sp pl)"
    by (rule add(1)) (use p at key level in \<open>simp_all add: f plan_leaf_def leaf_node_def factory_leaf_ref_def
        validate_node_def span_kind_def Let_def\<close>)
  have "copied_but db old (N(p @ [s] \<mapsto> ids (pl_drawn pl))) (plan_leaf ids chunk (n, s) sp pl) {p @ [s]}"
    by (rule add(2) [where P = "{}"]) (use p at key level inv(2) in \<open>simp_all add: f plan_leaf_def leaf_node_def factory_leaf_ref_def
        validate_node_def span_kind_def Let_def\<close>)
  then show "copied_but db old (N(p @ [s] \<mapsto> ids (pl_drawn pl))) (plan_leaf ids chunk (n, s) sp pl) {}"
    by (rule copied_leaf) (use p(2) in \<open>simp add: plan_leaf_def Let_def\<close>)
qed

lemma plan_internal_ok:
  assumes inv: "plan_inv db ids eid old N K pl" "copied_but db old N pl {}" "inj ids"
    and p: "N p = Some n" "Suc (length p) < tg_root_level (pl_geometry pl)"
    and sp: "span_at (pl_geometry pl) p = Inr psp" "child_span (pl_geometry pl) psp s = Inr sp"
    and run: "plan_internal store ids (n, s) sp oc pl = Inr (c, pl')"
  obtains N' where "plan_inv db ids eid old N' K pl'" "copied_but db old N' pl' {p @ [s]}" "N' (p @ [s]) = Some c"
    "\<And>q. length q = tg_root_level (pl_geometry pl) \<Longrightarrow> N' q = N q" "pl_geometry pl' = pl_geometry pl"
    "pl_new_root_node_id pl' = pl_new_root_node_id pl" "pl_old_root_node_id pl' = pl_old_root_node_id pl"
proof (cases "pl_new_internal_edges pl (n, s)")
  case (Some d)
  then have "c = d" "pl' = pl" using run by (simp_all add: plan_internal_def)
  moreover have "links_ok db old N pl" using inv(1) by (simp add: plan_inv_def)
  from links_okD(3) [OF this p(1), of s] have "N (p @ [s]) = Some d" using p(2) Some by simp
  moreover have "copied_but db old N pl {p @ [s]}" using inv(2) by (simp add: copied_but_def)
  ultimately show thesis using that [of N] inv(1) by simp
next
  case None
  let ?m = "internal_node (pl_factory pl) (ids (pl_drawn pl)) sp"
  have f: "pl_factory pl = \<lparr>rf_geometry = pl_geometry pl, rf_layout_kind = CowImmutableTree, rf_owner_export_id = Some eid\<rparr>"
    using inv(1) by (simp add: plan_inv_def records_ok_def)
  have links: "links_ok db old N pl" using inv(1) by (simp add: plan_inv_def)
  have at: "span_at (pl_geometry pl) (p @ [s]) = Inr sp" using sp by (simp add: span_at_snoc)
  have level: "ns_level sp \<noteq> 0" using span_at_level [OF at] p(2) by simp
  have new: "N (p @ [s]) = None" using links_okD(3) [OF links p(1), of s] p(2) None by simp
  have copied: "old_at db old p \<noteq> None \<longrightarrow> n \<in> pl_copied_parents pl" using inv(2) p unfolding copied_but_def by auto
  have c: "c = ids (pl_drawn pl)" and pl': "pl' = pl\<lparr>pl_drawn := pl_drawn pl + 1,
      pl_records := (pl_records pl)\<lparr>tb_nodes := tb_nodes (pl_records pl) @ [?m]\<rparr>,
      pl_pending_edges := AList.update (n, s) (ids (pl_drawn pl)) (pl_pending_edges pl),
      pl_new_internal_edges := (pl_new_internal_edges pl)((n, s) \<mapsto> ids (pl_drawn pl))\<rparr>"
    using run None by (auto simp: plan_internal_def and_then_Inr_iff Let_def)
  define l :: tree_leaf_ref_record where "l = \<lparr>tl_node_id = ids (pl_drawn pl), tl_storage_kind = ImmutableBlob,
    tl_storage_key = ''k'', tl_len_bytes = 0\<rparr>"
  have key: "is_ok (new_blob_key ''k'')" by code_simp
  note add = plan_add [OF inv(1,3) p(1) _ conjunct1 [OF child_span_Inr [OF sp(2)]] copied, of pl' ?m "[]" sp l "''k''"]
  have i: "plan_inv db ids eid old (N(p @ [s] \<mapsto> c)) (K(p @ [s] := ''k'')) pl'"
    unfolding c by (rule add(1)) (use p at key level new in \<open>simp_all add: f pl' internal_node_def l_def validate_node_def span_kind_def\<close>)
  then have i': "plan_inv db ids eid old (N(p @ [s] \<mapsto> c)) K pl'"
    using p(2) unfolding plan_inv_def records_ok_def pl' by (auto split: if_splits)
  have "copied_but db old (N(p @ [s] \<mapsto> c)) pl' {p @ [s]}"
    unfolding c by (rule add(2) [where P = "{}"])
      (use p at key level new inv(2) in \<open>simp_all add: f pl' internal_node_def l_def validate_node_def span_kind_def\<close>)
  note rest = this
  show thesis
    by (rule that [OF i' rest]) (use p(2) in \<open>auto simp: pl'\<close>)
qed

lemma plan_slots_ok:
  assumes db: "tables_ok db" and ids: "inj ids" and key: "is_ok (new_blob_key (cr_blob_key chunk))"
    and run: "plan_slots (sqlite_tree_store env db) ids chunk slots (old_at db old p) n sp pl = Inr pl'"
    and "slots \<noteq> []" "span_at (pl_geometry pl) p = Inr sp" "length p + length slots = tg_root_level (pl_geometry pl)"
      "N p = Some n" "plan_inv db ids eid old N K pl" "copied_but db old N pl {}"
  shows "\<exists>N'. plan_inv db ids eid old N' (K(p @ slots := cr_blob_key chunk)) pl' \<and> copied_but db old N' pl' {} \<and>
    N' (p @ slots) \<noteq> None \<and> (\<forall>q. length q = tg_root_level (pl_geometry pl) \<longrightarrow> q \<noteq> p @ slots \<longrightarrow> N' q = N q) \<and>
    pl_geometry pl' = pl_geometry pl \<and> pl_new_root_node_id pl' = pl_new_root_node_id pl \<and>
    pl_old_root_node_id pl' = pl_old_root_node_id pl"
  using assms(4-)
proof (induction slots arbitrary: p n sp pl N)
  case (Cons s slots)
  let ?L = "tg_root_level (pl_geometry pl)"
  obtain csp oc where csp: "child_span (pl_geometry pl) sp s = Inr csp"
    and oc: "(case old_at db old p of None \<Rightarrow> Inr None | Some parent \<Rightarrow>
        and_then (compact_load_child_edge (sqlite_tree_store env db) parent s) (\<lambda>e. Inr (map_option te_child_node_id e))) = Inr oc"
    and rest: "(if ns_level csp = 0 then Inr (plan_leaf ids chunk (n, s) csp pl)
      else and_then (plan_internal (sqlite_tree_store env db) ids (n, s) csp oc pl) (\<lambda>(child, pl).
        and_then (copy_existing_edges_once (sqlite_tree_store env db) oc child csp pl) (\<lambda>pl.
        plan_slots (sqlite_tree_store env db) ids chunk slots oc child csp pl))) = Inr pl'"
    using Cons.prems(1) by (auto simp: and_then_Inr_iff)
  have at: "span_at (pl_geometry pl) (p @ [s]) = Inr csp" using Cons.prems(3) csp by (simp add: span_at_snoc)
  have oc: "oc = old_at db old (p @ [s])"
  proof (cases "old_at db old p")
    case (Some ob)
    then obtain e where e: "load_child_edge (sqlite_tree_store env db) ob s = Inr e" "oc = map_option te_child_node_id e"
      using oc by (auto simp: compact_lookups(2) and_then_Inr_iff)
    have "e = map_option (\<lambda>c. \<lparr>te_parent_node_id = ob, te_slot = s, te_child_node_id = c\<rparr>) (child_at db ob s)"
      using load_child_edge_mono [OF e(1)] load_child_edge_ok [OF db, of ob s] by simp
    then show ?thesis using Some e(2) by (cases "child_at db ob s") (simp_all add: old_at_snoc)
  qed (use oc in \<open>simp add: old_at_snoc\<close>)
  show ?case
  proof (cases "slots = []")
    case True
    then have "ns_level csp = 0" "Suc (length p) = ?L" using span_at_level [OF at] Cons.prems(4) by simp_all
    then have "pl' = plan_leaf ids chunk (n, s) csp pl" using rest by simp
    moreover note leaf = plan_leaf_ok [OF Cons.prems(6,7) ids Cons.prems(5) \<open>Suc (length p) = ?L\<close> Cons.prems(3) csp key]
    ultimately show ?thesis unfolding True
      by (intro exI [of _ "N(p @ [s] \<mapsto> ids (pl_drawn pl))"] conjI) (simp_all only: leaf plan_leaf_sel, simp_all)
  next
    case False
    then have lt: "Suc (length p) < ?L" "ns_level csp \<noteq> 0" using span_at_level [OF at] Cons.prems(4) by (cases slots; simp)+
    then obtain c pl1 pl2 where c: "plan_internal (sqlite_tree_store env db) ids (n, s) csp oc pl = Inr (c, pl1)"
        "copy_existing_edges_once (sqlite_tree_store env db) oc c csp pl1 = Inr pl2"
        "plan_slots (sqlite_tree_store env db) ids chunk slots oc c csp pl2 = Inr pl'"
      using rest by (auto simp: and_then_Inr_iff)
    obtain N1 where N1: "plan_inv db ids eid old N1 K pl1" "copied_but db old N1 pl1 {p @ [s]}" "N1 (p @ [s]) = Some c"
        "\<And>q. length q = ?L \<Longrightarrow> N1 q = N q" "pl_geometry pl1 = pl_geometry pl"
        "pl_new_root_node_id pl1 = pl_new_root_node_id pl" "pl_old_root_node_id pl1 = pl_old_root_node_id pl"
      by (rule plan_internal_ok [OF Cons.prems(6,7) ids Cons.prems(5) lt(1) Cons.prems(3) csp c(1)]) blast
    note copy = copy_once_ok [OF db N1(1-3) _ c(2) [unfolded oc]]
    have "length (p @ [s]) < tg_root_level (pl_geometry pl1)" using lt(1) N1(5) by simp
    note copy = copy [OF this]
    have g: "pl_geometry pl2 = pl_geometry pl" using copy(3) N1(5) by simp
    have "\<exists>N'. plan_inv db ids eid old N' (K((p @ [s]) @ slots := cr_blob_key chunk)) pl' \<and> copied_but db old N' pl' {} \<and>
        N' ((p @ [s]) @ slots) \<noteq> None \<and>
        (\<forall>q. length q = tg_root_level (pl_geometry pl2) \<longrightarrow> q \<noteq> (p @ [s]) @ slots \<longrightarrow> N' q = N1 q) \<and>
        pl_geometry pl' = pl_geometry pl2 \<and> pl_new_root_node_id pl' = pl_new_root_node_id pl2 \<and>
        pl_old_root_node_id pl' = pl_old_root_node_id pl2"
      by (rule Cons.IH [OF c(3) [unfolded oc] False _ _ N1(3) copy(1)])
        (use at g Cons.prems(4) copy(2) in simp_all)
    then obtain N' where "plan_inv db ids eid old N' (K(p @ s # slots := cr_blob_key chunk)) pl'" "copied_but db old N' pl' {}"
        "N' (p @ s # slots) \<noteq> None" "\<forall>q. length q = ?L \<longrightarrow> q \<noteq> p @ s # slots \<longrightarrow> N' q = N1 q"
        "pl_geometry pl' = pl_geometry pl" "pl_new_root_node_id pl' = pl_new_root_node_id pl2"
        "pl_old_root_node_id pl' = pl_old_root_node_id pl2"
      unfolding append_assoc append.simps g by blast
    then show ?thesis using copy(4,5) N1(4,6,7) by (intro exI [of _ N'] conjI) (simp_all add: fun_upd_def)
  qed
qed simp

lemma plan_chunk_ok:
  assumes db: "tables_ok db" and ids: "inj ids" and g: "geometry_ok (pl_geometry pl)"
    and c: "cr_chunk_index chunk * 2 ^ 25 < tg_size_bytes (pl_geometry pl)" "is_ok (new_blob_key (cr_blob_key chunk))"
    and inv: "plan_inv db ids eid (pl_old_root_node_id pl) N K pl" "copied_but db (pl_old_root_node_id pl) N pl {[]}"
    and run: "plan_chunk (sqlite_tree_store env db) ids pl chunk = Inr pl'"
  shows "\<exists>N'. plan_inv db ids eid (pl_old_root_node_id pl) N' (K(path_of (pl_geometry pl) (cr_chunk_index chunk) := cr_blob_key chunk)) pl' \<and>
    copied_but db (pl_old_root_node_id pl) N' pl' {} \<and> N' (path_of (pl_geometry pl) (cr_chunk_index chunk)) \<noteq> None \<and>
    (\<forall>q. length q = tg_root_level (pl_geometry pl) \<longrightarrow> q \<noteq> path_of (pl_geometry pl) (cr_chunk_index chunk) \<longrightarrow> N' q = N q) \<and>
    pl_geometry pl' = pl_geometry pl \<and> pl_new_root_node_id pl' = pl_new_root_node_id pl \<and>
    pl_old_root_node_id pl' = pl_old_root_node_id pl"
proof -
  let ?old = "pl_old_root_node_id pl" and ?g = "pl_geometry pl"
  let ?path = "path_of ?g (cr_chunk_index chunk)"
  have L: "0 < tg_root_level ?g" "length ?path = tg_root_level ?g" using g by (simp_all add: geometry_ok_def path_of_def)
  have root: "N [] = Some (pl_new_root_node_id pl)" using inv(1) by (simp add: plan_inv_def names_ok_def)
  have at: "old_at db ?old [] = ?old" by (cases ?old) (simp_all add: old_at_def)
  obtain pl1 where pl1: "copy_existing_edges_once (sqlite_tree_store env db) ?old (pl_new_root_node_id pl) (root_span ?g) pl = Inr pl1"
      "plan_slots (sqlite_tree_store env db) ids chunk ?path (pl_old_root_node_id pl1) (pl_new_root_node_id pl1) (root_span (pl_geometry pl1)) pl1 = Inr pl'"
    using run path_for_chunk_ok [OF g c(1)] by (auto simp: plan_chunk_def path_of_def and_then_Inr_iff)
  have "copy_existing_edges_once (sqlite_tree_store env db) (old_at db ?old []) (pl_new_root_node_id pl) (root_span ?g) pl = Inr pl1"
      "length [] < tg_root_level ?g" using L pl1(1) by (simp_all only: at list.size)
  note copy = copy_once_ok [OF db inv root this(2,1)]
  have "plan_slots (sqlite_tree_store env db) ids chunk ?path (old_at db ?old []) (pl_new_root_node_id pl) (root_span ?g) pl1 = Inr pl'"
    using pl1(2) copy(3-5) by (simp add: at)
  from plan_slots_ok [OF db ids c(2) this, where N = N and eid = eid and K = K] have
    "\<exists>N'. plan_inv db ids eid ?old N' (K([] @ ?path := cr_blob_key chunk)) pl' \<and> copied_but db ?old N' pl' {} \<and> N' ([] @ ?path) \<noteq> None \<and>
    (\<forall>q. length q = tg_root_level (pl_geometry pl1) \<longrightarrow> q \<noteq> [] @ ?path \<longrightarrow> N' q = N q) \<and>
    pl_geometry pl' = pl_geometry pl1 \<and> pl_new_root_node_id pl' = pl_new_root_node_id pl1 \<and>
    pl_old_root_node_id pl' = pl_old_root_node_id pl1"
    using L copy root by (fastforce simp: span_at_def)
  then show ?thesis unfolding append_Nil copy(3-5) .
qed

lemma plan_fold_ok:
  assumes db: "tables_ok db" and ids: "inj ids" and g: "geometry_ok g"
    and "\<forall>c \<in> set cs. cr_chunk_index c * 2 ^ 25 < tg_size_bytes g \<and> is_ok (new_blob_key (cr_blob_key c))"
      "distinct (map cr_chunk_index cs)"
      "plan_inv db ids eid old N K pl" "copied_but db old N pl P" "pl_geometry pl = g" "pl_old_root_node_id pl = old"
      "P \<subseteq> {[]}" "try_fold (plan_chunk (sqlite_tree_store env db) ids) pl cs = Inr pl'"
  shows "\<exists>N' K'. plan_inv db ids eid old N' K' pl' \<and> copied_but db old N' pl' (if cs = [] then P else {}) \<and>
    pl_geometry pl' = g \<and> pl_new_root_node_id pl' = pl_new_root_node_id pl \<and>
    (\<forall>q. length q = tg_root_level g \<longrightarrow> (N' q \<noteq> None \<longleftrightarrow> N q \<noteq> None \<or> q \<in> path_of g ` cr_chunk_index ` set cs)) \<and>
    (\<forall>c \<in> set cs. K' (path_of g (cr_chunk_index c)) = cr_blob_key c) \<and>
    (\<forall>q. q \<notin> path_of g ` cr_chunk_index ` set cs \<longrightarrow> K' q = K q)"
  using assms(4-)
proof (induction cs arbitrary: N K pl P)
  case (Cons c cs)
  let ?p = "path_of g (cr_chunk_index c)"
  obtain pl1 where pl1: "plan_chunk (sqlite_tree_store env db) ids pl c = Inr pl1"
      "try_fold (plan_chunk (sqlite_tree_store env db) ids) pl1 cs = Inr pl'"
    using Cons.prems(8) by (auto simp: and_then_Inr_iff)
  have "copied_but db old N pl {[]}" using Cons.prems(4,7) by (auto simp: copied_but_def)
  then obtain N1 where N1: "plan_inv db ids eid old N1 (K(?p := cr_blob_key c)) pl1" "copied_but db old N1 pl1 {}" "N1 ?p \<noteq> None"
      "\<forall>q. length q = tg_root_level g \<longrightarrow> q \<noteq> ?p \<longrightarrow> N1 q = N q" "pl_geometry pl1 = g"
      "pl_new_root_node_id pl1 = pl_new_root_node_id pl" "pl_old_root_node_id pl1 = old"
    using plan_chunk_ok [OF db ids, of pl c eid N K env pl1] g Cons.prems pl1(1) by auto
  have "\<forall>c \<in> set cs. cr_chunk_index c * 2 ^ 25 < tg_size_bytes g \<and> is_ok (new_blob_key (cr_blob_key c))"
      "distinct (map cr_chunk_index cs)" "{} \<subseteq> {[]}" using Cons.prems(1,2) by simp_all
  from Cons.IH [OF this(1,2) N1(1,2,5,7) this(3) pl1(2), unfolded if_cancel] obtain N' K' where
    N': "plan_inv db ids eid old N' K' pl'" "copied_but db old N' pl' {}" "pl_geometry pl' = g"
      "pl_new_root_node_id pl' = pl_new_root_node_id pl1"
      "\<forall>q. length q = tg_root_level g \<longrightarrow> (N' q \<noteq> None \<longleftrightarrow> N1 q \<noteq> None \<or> q \<in> path_of g ` cr_chunk_index ` set cs)"
      "\<forall>c \<in> set cs. K' (path_of g (cr_chunk_index c)) = cr_blob_key c"
      "\<forall>q. q \<notin> path_of g ` cr_chunk_index ` set cs \<longrightarrow> K' q = (K(?p := cr_blob_key c)) q" by blast
  have new: "?p \<notin> path_of g ` cr_chunk_index ` set cs"
  proof
    assume "?p \<in> path_of g ` cr_chunk_index ` set cs"
    then obtain d where d: "d \<in> set cs" "path_of g (cr_chunk_index c) = path_of g (cr_chunk_index d)" by auto
    have "cr_chunk_index c = cr_chunk_index d" by (rule path_injective [OF g _ _ d(2)]) (use Cons.prems(1) d(1) in simp_all)
    then show False using d(1) Cons.prems(2) by auto
  qed
  have "N' q \<noteq> None \<longleftrightarrow> N q \<noteq> None \<or> q \<in> path_of g ` cr_chunk_index ` set (c # cs)" if "length q = tg_root_level g" for q
    using N'(5) N1(3,4) that by (cases "q = ?p") auto
  moreover have "K' (path_of g (cr_chunk_index d)) = cr_blob_key d" if "d \<in> set (c # cs)" for d
    using that N'(6,7) new by auto
  moreover have "K' q = K q" if "q \<notin> path_of g ` cr_chunk_index ` set (c # cs)" for q using that N'(7) by auto
  ultimately show ?case using N'(1-4) N1(6) by (intro exI [of _ N'] exI [of _ K']) simp
qed auto

section \<open>The tables after a publication\<close>

text \<open>The ids drawn for a compaction are new to the tables.\<close>

definition fresh_ids :: "(nat \<Rightarrow> node_id) \<Rightarrow> catalog_db \<Rightarrow> bool" where
  "fresh_ids ids db \<longleftrightarrow> inj ids \<and> (\<forall>j. valid_id (ids j) \<and> ids j \<notin> nr_id ` set (db_nodes db) \<and>
    ids j \<notin> gr_parent_node_id ` set (db_edges db) \<and> ids j \<notin> gr_child_node_id ` set (db_edges db) \<and>
    ids j \<notin> lr_node_id ` set (db_leaf_refs db))"

lemma fresh_idsD:
  assumes "fresh_ids ids db"
  shows "inj ids" "valid_id (ids j)" "node_at db (ids j) = None" "child_at db (ids j) s = None" "leaf_at db (ids j) = None"
    "child_at db n s \<noteq> Some (ids j)"
proof -
  show "inj ids" "valid_id (ids j)" using assms by (auto simp: fresh_ids_def)
  have "find (\<lambda>r. nr_id r = ids j) (db_nodes db) = None" "find (\<lambda>r. lr_node_id r = ids j) (db_leaf_refs db) = None"
      "find (\<lambda>r. gr_parent_node_id r = ids j \<and> gr_slot r = u16_to_i64 s) (db_edges db) = None"
    using assms unfolding fresh_ids_def find_None_iff image_iff by metis+
  then show "node_at db (ids j) = None" "child_at db (ids j) s = None" "leaf_at db (ids j) = None"
    by (simp_all add: node_at_def child_at_def leaf_at_def)
  show "child_at db n s \<noteq> Some (ids j)"
  proof
    assume "child_at db n s = Some (ids j)"
    then obtain r where "r \<in> set (db_edges db)" "gr_child_node_id r = ids j" by (auto simp: child_at_def dest: find_SomeD)
    then show False using assms unfolding fresh_ids_def by force
  qed
qed

lemma child_valid:
  assumes "tables_ok db" "child_at db n s = Some c"
  shows "valid_id c"
proof -
  obtain r where r: "r \<in> set (db_edges db)" "gr_child_node_id r = c" using assms(2) by (auto simp: child_at_def dest: find_SomeD)
  then have "is_ok (row_to_edge r)" using assms(1) by (simp add: tables_ok_def)
  then show ?thesis using r(2) by (auto simp: is_ok_iff row_to_edge_def new_node_id_def and_then_Inr_iff valid_id_def)
qed

lemma edges_find:
  assumes "distinct (map fst pend)" "mset pend' = mset pend"
  shows "map_option te_child_node_id (find (\<lambda>e. te_parent_node_id e = n \<and> te_slot e = s)
    (map (\<lambda>((parent, slot), c). child_edge parent slot c) pend')) = map_of pend (n, s)"
proof -
  have "map_option te_child_node_id (find (\<lambda>e. te_parent_node_id e = n \<and> te_slot e = s)
      (map (\<lambda>((parent, slot), c). child_edge parent slot c) pend')) = map_of pend' (n, s)"
    by (induction pend') (auto simp: child_edge_def)
  moreover have "distinct (map fst pend')" using assms by (metis mset_map distinct_count_atmost_1 set_mset_mset)
  then have "map_of pend' = map_of pend" using assms mset_eq_setD by (metis map_of_inject_set)
  ultimately show ?thesis by simp
qed

lemma try_map_edges:
  "try_map (\<lambda>((parent, slot), child). and_then (map_err catalog_err (new_node_id parent)) (\<lambda>parent. Inr (child_edge parent slot child))) xs = Inr es
    \<Longrightarrow> es = map (\<lambda>((parent, slot), c). child_edge parent slot c) xs"
  by (auto simp: try_map_Inr_iff list_all2_conv_all_nth and_then_Inr_iff new_node_id_def intro!: nth_equalityI split: prod.splits)

definition batch_of :: "cow_tree_publish_planner \<Rightarrow> ((node_id \<times> nat) \<times> node_id) list \<Rightarrow> tree_record_batch" where
  "batch_of pl pend = (pl_records pl)\<lparr>tb_edges := map (\<lambda>((parent, slot), c). child_edge parent slot c) pend\<rparr>"

lemma pending_child:
  assumes "plan_inv db ids eid old N K pl" "N p = Some n" "length p < tg_root_level (pl_geometry pl)" "copied_but db old N pl {}"
  shows "map_of (pl_pending_edges pl) (n, s) = (case N (p @ [s]) of Some c \<Rightarrow> Some c
    | None \<Rightarrow> if s < tg_fanout (pl_geometry pl) then old_at db old (p @ [s]) else None)"
proof -
  have "links_ok db old N pl" using assms(1) by (simp add: plan_inv_def)
  note at = links_okD(1) [OF this assms(2,3), of s]
  show ?thesis
  proof (cases "old_at db old p")
    case None
    then show ?thesis using at by (simp add: old_at_snoc split: option.splits)
  next
    case (Some ob)
    then have "n \<in> pl_copied_parents pl" using assms(2-4) unfolding copied_but_def by auto
    then show ?thesis using at by simp
  qed
qed

lemma pending_inner:
  assumes "plan_inv db ids eid old N K pl" "((n, s), c) \<in> set pend" "set pend = set (pl_pending_edges pl)"
  obtains p where "N p = Some n" "length p < tg_root_level (pl_geometry pl)" "s < tg_fanout (pl_geometry pl)"
    "map_of (pl_pending_edges pl) (n, s) = Some c"
proof -
  have l: "links_ok db old N pl" using assms(1) by (simp add: plan_inv_def)
  have "((n, s), c) \<in> set (pl_pending_edges pl)" using assms(2,3) by simp
  then have "(n, s) \<in> fst ` set (pl_pending_edges pl)" "map_of (pl_pending_edges pl) (n, s) = Some c"
    using links_okD(6) [OF l] by (force, simp)
  then show thesis using that links_okD(4) [OF l, of n s] by (auto simp: inner_def)
qed

lemma batch_of_valid:
  assumes db: "tables_ok db" "fresh_ids ids db" "valid_id eid" and g: "geometry_ok (pl_geometry pl)"
    and inv: "plan_inv db ids eid old N K pl" "copied_but db old N pl {}" and pend: "set pend = set (pl_pending_edges pl)"
  shows "batch_valid (batch_of pl pend)"
proof -
  have parts: "names_ok ids N pl" "records_ok ids eid N K pl" using inv(1) by (simp_all add: plan_inv_def)
  have L: "tg_root_level (pl_geometry pl) \<le> 8" "tg_fanout (pl_geometry pl) = 32" using g by (simp_all add: geometry_ok_def)
  have ids: "x \<in> ids ` A \<Longrightarrow> valid_id x" for x A using fresh_idsD(2) [OF db(2)] by auto
  have "valid_id (tn_id m) \<and> (\<forall>x. tn_owner_export_id m = Some x \<longrightarrow> valid_id x) \<and> tn_level m < 2 ^ 16"
    if "m \<in> set (tb_nodes (pl_records pl))" for m
    using records_okD(3) [OF parts(2) that] db(3) L ids by auto
  moreover have "valid_id (tl_node_id l) \<and> new_blob_key (tl_storage_key l) = Inr (tl_storage_key l)"
    if "l \<in> set (tb_leaf_refs (pl_records pl))" for l
    using records_okD(4) [OF parts(2) that] ids by (auto simp: is_ok_iff new_blob_key_Inr_iff)
  moreover have "valid_id n \<and> s < 2 ^ 16 \<and> valid_id c" if e: "((n, s), c) \<in> set pend" for n s c
  proof -
    obtain p where p: "N p = Some n" "length p < tg_root_level (pl_geometry pl)" "s < tg_fanout (pl_geometry pl)"
        "map_of (pl_pending_edges pl) (n, s) = Some c"
      by (rule pending_inner [OF inv(1) e pend])
    have "valid_id c"
    proof (cases "N (p @ [s])")
      case None
      then have "old_at db old (p @ [s]) = Some c" using pending_child [OF inv(1) p(1,2) inv(2), of s] p(3,4) by simp
      then show ?thesis using child_valid [OF db(1)] by (auto simp: old_at_snoc split: bind_splits)
    next
      case (Some d)
      then have "c = d" using pending_child [OF inv(1) p(1,2) inv(2), of s] p(4) by simp
      then show ?thesis using names_okD(3) [OF parts(1) Some] ids by blast
    qed
    then show ?thesis using names_okD(3) [OF parts(1) p(1)] ids p(3) L(2) by auto
  qed
  ultimately show ?thesis unfolding batch_valid_def batch_of_def by (auto simp: child_edge_def)
qed

definition same_tables :: "catalog_db \<Rightarrow> catalog_db \<Rightarrow> bool" where
  "same_tables db db' \<longleftrightarrow> db_nodes db' = db_nodes db \<and> db_edges db' = db_edges db \<and> db_leaf_refs db' = db_leaf_refs db"

lemma same_tablesD:
  assumes "same_tables db db'"
  shows "node_at db' n = node_at db n" "child_at db' n s = child_at db n s" "leaf_at db' n = leaf_at db n" "tables_ok db' = tables_ok db"
  using assms by (simp_all add: same_tables_def node_at_def child_at_def leaf_at_def tables_ok_def)

text \<open>Ids that a plan does not draw stay new to the tables.\<close>

lemma planned_fresh:
  assumes db: "tables_ok db" "fresh_ids ids' db" and new: "range ids' \<inter> range ids = {}"
    and inv: "plan_inv db ids eid old N K pl" "copied_but db old N pl {}" and pend: "set pend = set (pl_pending_edges pl)"
    and ins: "insert_tree_records env (batch_of pl pend) db = Inr db1" and same: "same_tables db1 db'"
  shows "fresh_ids ids' db'"
proof -
  have parts: "names_ok ids N pl" "records_ok ids eid N K pl" using inv(1) by (simp_all add: plan_inv_def)
  have ne: "ids' j \<noteq> n" if "n \<in> ids ` A" for j n A using new that by auto
  have rows: "db_nodes db' = db_nodes db @ map node_row_of (tb_nodes (pl_records pl))"
      "db_edges db' = db_edges db @ map edge_row_of (map (\<lambda>((parent, slot), c). child_edge parent slot c) pend)"
      "db_leaf_refs db' = db_leaf_refs db @ map leaf_row_of (tb_leaf_refs (pl_records pl))"
    using insert_tree_records_rows(1) [OF ins] same by (simp_all add: same_tables_def batch_of_def)
  have "ids' j \<noteq> n \<and> ids' j \<noteq> c" if e: "((n, s), c) \<in> set pend" for j n s c
  proof -
    obtain p where p: "N p = Some n" "length p < tg_root_level (pl_geometry pl)" "s < tg_fanout (pl_geometry pl)"
        "map_of (pl_pending_edges pl) (n, s) = Some c"
      by (rule pending_inner [OF inv(1) e pend])
    have "ids' j \<noteq> c"
    proof (cases "N (p @ [s])")
      case None
      then have "old_at db old (p @ [s]) = Some c" using pending_child [OF inv(1) p(1,2) inv(2), of s] p(3,4) by simp
      then show ?thesis using fresh_idsD(6) [OF db(2)] by (auto simp: old_at_snoc split: bind_splits)
    next
      case (Some d)
      then show ?thesis using pending_child [OF inv(1) p(1,2) inv(2), of s] p(4) names_okD(3) [OF parts(1) Some] ne by simp
    qed
    then show ?thesis using names_okD(3) [OF parts(1) p(1)] ne by simp
  qed
  moreover have "ids' j \<noteq> tn_id m" if "m \<in> set (tb_nodes (pl_records pl))" for j m
    using records_okD(3) [OF parts(2) that] ne by blast
  moreover have "ids' j \<noteq> tl_node_id l" if "l \<in> set (tb_leaf_refs (pl_records pl))" for j l
    using records_okD(4) [OF parts(2) that] ne by blast
  ultimately show ?thesis using db(2) unfolding fresh_ids_def rows
    by (fastforce simp: node_row_of_def edge_row_of_def leaf_row_of_def child_edge_def)
qed

text \<open>
  After the insertion the tables hold the new nodes, and nothing changes for the others.
\<close>

lemma planned_lookups:
  assumes db: "tables_ok db" "fresh_ids ids db" "valid_id eid" and g: "geometry_ok (pl_geometry pl)"
    and inv: "plan_inv db ids eid old N K pl" "copied_but db old N pl {}" and pend: "mset pend = mset (pl_pending_edges pl)"
    and ins: "insert_tree_records env (batch_of pl pend) db = Inr db1" and same: "same_tables db1 db'"
  shows "n \<notin> range ids \<Longrightarrow> node_at db' n = node_at db n \<and> child_at db' n s = child_at db n s \<and> leaf_at db' n = leaf_at db n"
    "N p = Some n \<Longrightarrow> length p < tg_root_level (pl_geometry pl) \<Longrightarrow> child_at db' n s = (case N (p @ [s]) of Some c \<Rightarrow> Some c
      | None \<Rightarrow> if s < tg_fanout (pl_geometry pl) then old_at db old (p @ [s]) else None)"
    "N p = Some n \<Longrightarrow> \<exists>sp. span_at (pl_geometry pl) p = Inr sp \<and> node_ok db' CowImmutableTree sp n"
    "N p = Some n \<Longrightarrow> length p = tg_root_level (pl_geometry pl) \<Longrightarrow>
      \<exists>l. leaf_at db' n = Some l \<and> tl_storage_kind l = ImmutableBlob \<and> tl_storage_key l = K p"
    "tables_ok db'"
proof -
  have parts: "names_ok ids N pl" "links_ok db old N pl" "records_ok ids eid N K pl" using inv(1) by (simp_all add: plan_inv_def)
  have set: "set pend = set (pl_pending_edges pl)" using pend by (metis mset_eq_setD)
  note valid = batch_of_valid [OF db g inv set]
  note look = lookups_insert [OF valid ins, folded same_tablesD [OF same]]
  have edges: "map_option te_child_node_id (find (\<lambda>e. te_parent_node_id e = m \<and> te_slot e = t) (tb_edges (batch_of pl pend))) =
      map_of (pl_pending_edges pl) (m, t)" for m t
    using edges_find [OF links_okD(6) [OF parts(2)] pend] by (simp add: batch_of_def)
  show "tables_ok db'" unfolding same_tablesD(4) [OF same] by (rule tables_ok_insert [OF db(1) valid ins])
  have new: "N p = Some n \<Longrightarrow> node_at db n = None \<and> child_at db n s = None \<and> leaf_at db n = None" for p n s
    using names_okD(3) [OF parts(1), of p n] fresh_idsD(3-5) [OF db(2)] by auto
  show "node_at db' n = node_at db n \<and> child_at db' n s = child_at db n s \<and> leaf_at db' n = leaf_at db n" if n: "n \<notin> range ids"
  proof -
    have "find (\<lambda>m. tn_id m = n) (tb_nodes (batch_of pl pend)) = None" "find (\<lambda>l. tl_node_id l = n) (tb_leaf_refs (batch_of pl pend)) = None"
      using records_okD(3,4) [OF parts(3)] n unfolding find_None_iff batch_of_def by force+
    moreover have "n \<notin> inner N (tg_root_level (pl_geometry pl))" using names_okD(3) [OF parts(1)] n by (auto simp: inner_def)
    then have "map_of (pl_pending_edges pl) (n, s) = None" using links_okD(4) [OF parts(2), of n s] by (auto simp: map_of_eq_None_iff)
    ultimately show ?thesis unfolding look edges by (simp split: option.split)
  qed
  show "child_at db' n s = (case N (p @ [s]) of Some c \<Rightarrow> Some c
      | None \<Rightarrow> if s < tg_fanout (pl_geometry pl) then old_at db old (p @ [s]) else None)"
    if "N p = Some n" "length p < tg_root_level (pl_geometry pl)"
    using pending_child [OF inv(1) that inv(2)] new [OF that(1)] unfolding look edges by simp
  show "\<exists>sp. span_at (pl_geometry pl) p = Inr sp \<and> node_ok db' CowImmutableTree sp n" if "N p = Some n"
    using records_okD(5) [OF parts(3) that] new [OF that] unfolding node_ok_def look batch_of_def by auto
  show "\<exists>l. leaf_at db' n = Some l \<and> tl_storage_kind l = ImmutableBlob \<and> tl_storage_key l = K p"
    if "N p = Some n" "length p = tg_root_level (pl_geometry pl)"
    using records_okD(6) [OF parts(3) that] new [OF that(1)] unfolding look batch_of_def by auto
qed

section \<open>The trees after a publication\<close>

definition kept :: "(nat \<Rightarrow> node_id) \<Rightarrow> catalog_db \<Rightarrow> catalog_db \<Rightarrow> bool" where
  "kept ids db db' \<longleftrightarrow> (\<forall>n s. n \<notin> range ids \<longrightarrow> node_at db' n = node_at db n \<and> child_at db' n s = child_at db n s \<and>
    leaf_at db' n = leaf_at db n)"

lemma keptD:
  assumes "kept ids db db'" "fresh_ids ids db" "n \<notin> range ids"
  shows "node_at db' n = node_at db n" "child_at db' n s = child_at db n s" "leaf_at db' n = leaf_at db n"
    "child_at db n s = Some c \<Longrightarrow> c \<notin> range ids"
  using assms(1,3) fresh_idsD(6) [OF assms(2)] by (auto simp: kept_def)

lemma kept_follow:
  assumes "kept ids db db'" "fresh_ids ids db"
  shows "n \<notin> range ids \<Longrightarrow> follow db' n q = follow db n q"
    "n \<notin> range ids \<Longrightarrow> follow db n q = Some m \<Longrightarrow> m \<notin> range ids"
proof (induction q arbitrary: n)
  case (Cons s q)
  note kd = keptD [OF assms]
  { case 1
    then show ?case using kd(2,4) [OF 1] Cons.IH(1) by (auto split: option.split)
  next
    case 2
    then obtain c where c: "child_at db n s = Some c" "follow db c q = Some m" by (auto split: option.splits)
    show ?case by (rule Cons.IH(2) [OF kd(4) [OF 2(1) c(1)] c(2)]) }
qed simp_all

lemma kept_subtree:
  assumes "kept ids db db'" "fresh_ids ids db"
  shows "n \<notin> range ids \<Longrightarrow> subtree_ok db layout sk g k sp n \<Longrightarrow> subtree_ok db' layout sk g k sp n"
proof (induction k arbitrary: sp n)
  case 0
  then show ?case using keptD(1,3) [OF assms 0(1)] by (simp add: node_ok_def)
next
  case (Suc k)
  note kd = keptD [OF assms Suc.prems(1)]
  have "subtree_ok db' layout sk g k sp' c" if "child_at db' n s = Some c" "child_span g sp s = Inr sp'" for s c sp'
    using that Suc.prems(2) kd(2,4) Suc.IH [of c sp'] by simp
  then show ?case using Suc.prems(2) kd(1) by (simp add: node_ok_def)
qed

lemma subtree_prefix:
  "subtree_ok db layout sk g (length p + k) sp0 nid \<Longrightarrow> try_fold (child_span g) sp0 p = Inr sp \<Longrightarrow> follow db nid p = Some n \<Longrightarrow>
    subtree_ok db layout sk g k sp n"
proof (induction p arbitrary: sp0 nid)
  case (Cons s p)
  obtain c sp' where "child_at db nid s = Some c" "child_span g sp0 s = Inr sp'"
      "try_fold (child_span g) sp' p = Inr sp" "follow db c p = Some n"
    using Cons.prems(2,3) by (auto simp: and_then_Inr_iff split: option.splits)
  then show ?case using Cons.IH [of sp' c] Cons.prems(1) by simp
qed simp

lemma tree_root_new:
  assumes "tree_ok db sk r" "mr_root_node_id r = Some root" "fresh_ids ids db"
  shows "root \<notin> range ids"
proof -
  have "node_ok db (mr_layout_kind r) (root_span (mr_geometry r)) root"
    using assms(1,2) subtree_node_ok by (auto simp: tree_ok_def)
  then show ?thesis using fresh_idsD(3) [OF assms(3)] by (auto simp: node_ok_def)
qed

lemma kept_root:
  assumes kept: "kept ids db db'" "fresh_ids ids db" "tables_ok db'" and ok: "cow_root_ok db dir root"
    and dir: "file_bytes dir \<subseteq>\<^sub>m file_bytes dir'"
  shows "cow_root_ok db' dir' root" "tree_byte db' dir' root = tree_byte db dir root"
proof -
  obtain r where r: "tree_reader_of root = Some r" "tg_size_bytes (mr_geometry r) = rs_size_bytes root" "geometry_ok (mr_geometry r)"
    using cow_reader [OF ok] by metis
  have tr: "tree_ok db ImmutableBlob r" "blobs_ok db dir r" using ok r(1) by (auto simp: cow_root_ok_def)
  have tree: "tree_ok db' ImmutableBlob r"
    using tr(1) kept_subtree [OF kept(1,2)] tree_root_new [OF tr(1) _ kept(2)] by (auto simp: tree_ok_def)
  have key: "chunk_key db' r c = chunk_key db r c" for c
  proof (cases "mr_root_node_id r")
    case (Some nid)
    note new = tree_root_new [OF tr(1) Some kept(2)]
    show ?thesis using Some kept_follow [OF kept(1,2) new] keptD(3) [OF kept(1,2)]
      by (cases "follow db nid (path_of (mr_geometry r) c)") (simp_all add: chunk_key_def)
  qed (simp add: chunk_key_def)
  have blob: "file_bytes dir' k = Some bs" if "file_bytes dir k = Some bs" for k bs
    using dir that by (auto simp: map_le_def dom_def)
  have "blobs_ok db' dir' r" using tr(2) blob unfolding blobs_ok_def key by blast
  then show "cow_root_ok db' dir' root" using ok tree kept(3) r(1) by (auto simp: cow_root_ok_def)
  have "tree_byte db' dir' root x = tree_byte db dir root x" for x
  proof (cases "x < rs_size_bytes root")
    case True
    have "x div TREE_CHUNK_BYTES * TREE_CHUNK_BYTES < tg_size_bytes (mr_geometry r)"
      using True r(2) by (simp add: le_less_trans [OF div_times_less_eq_dividend])
    then have "the (file_bytes dir' k) = the (file_bytes dir k)" if "chunk_key db r (x div TREE_CHUNK_BYTES) = Some k" for k
      using that tr(2) blob unfolding blobs_ok_def by fastforce
    then show ?thesis using True r(1) unfolding tree_byte_def
      by (cases "chunk_key db r (x div TREE_CHUNK_BYTES)") (auto simp: key)
  qed (simp add: tree_byte_def)
  then show "tree_byte db' dir' root = tree_byte db dir root" ..
qed

lemma new_tree_follow:
  assumes old: "\<And>o'. old = Some o' \<Longrightarrow> o' \<notin> range ids" and kept: "kept ids db db'" "fresh_ids ids db" and root: "N [] = Some n0"
    and closed: "\<And>p s. N (p @ [s]) \<noteq> None \<Longrightarrow> N p \<noteq> None"
    and child: "\<And>p n s. N p = Some n \<Longrightarrow> length p < L \<Longrightarrow> child_at db' n s = (case N (p @ [s]) of Some c \<Rightarrow> Some c
      | None \<Rightarrow> if s < w then old_at db old (p @ [s]) else None)"
  shows "length q \<le> L \<Longrightarrow> \<forall>s \<in> set q. s < w \<Longrightarrow> follow db' n0 q = (case N q of Some n \<Rightarrow> Some n | None \<Rightarrow> old_at db old q)"
proof (induction q rule: rev_induct)
  case Nil
  then show ?case using root by simp
next
  case (snoc s q)
  then have IH: "follow db' n0 q = (case N q of Some n \<Rightarrow> Some n | None \<Rightarrow> old_at db old q)" by simp
  show ?case
  proof (cases "N q")
    case None
    then have "N (q @ [s]) = None" using closed by blast
    moreover have "ob \<notin> range ids" if "old_at db old q = Some ob" for ob
      using that kept_follow(2) [OF kept] old by (cases old) (auto simp: old_at_def)
    ultimately show ?thesis using None IH keptD(2) [OF kept]
      by (cases "old_at db old q") (auto simp: follow_append old_at_snoc split: option.split)
  next
    case (Some n)
    then show ?thesis using IH child [of q n s] snoc.prems
      by (auto simp: follow_append split: option.split)
  qed
qed

lemma new_subtree:
  assumes kept: "kept ids db db'" "fresh_ids ids db" and L: "length p + k = tg_root_level g"
    and child: "\<And>p n s. N p = Some n \<Longrightarrow> length p < tg_root_level g \<Longrightarrow> child_at db' n s = (case N (p @ [s]) of Some c \<Rightarrow> Some c
      | None \<Rightarrow> if s < w then old_at db old (p @ [s]) else None)"
    and node: "\<And>p n. N p = Some n \<Longrightarrow> \<exists>sp. span_at g p = Inr sp \<and> node_ok db' layout sp n"
    and leaf: "\<And>p n. N p = Some n \<Longrightarrow> length p = tg_root_level g \<Longrightarrow> \<exists>l. leaf_at db' n = Some l \<and> tl_storage_kind l = sk"
    and old: "\<And>o'. old = Some o' \<Longrightarrow> o' \<notin> range ids \<and> subtree_ok db layout sk g (tg_root_level g) (root_span g) o'"
    and p: "N p = Some n" "span_at g p = Inr sp"
  shows "subtree_ok db' layout sk g k sp n"
  using L p
proof (induction k arbitrary: p n sp)
  case 0
  then show ?case using node [of p n] leaf [of p n] by auto
next
  case (Suc k)
  have "subtree_ok db' layout sk g k sp' c" if c: "child_at db' n s = Some c" "child_span g sp s = Inr sp'" for s c sp'
  proof (cases "N (p @ [s])")
    case (Some d)
    then have "d = c" using child [of p n s] Suc.prems c(1) by simp
    then show ?thesis using Suc.IH [of "p @ [s]" c sp'] Suc.prems Some c(2) by (simp add: span_at_snoc)
  next
    case None
    then have "old_at db old (p @ [s]) = Some c" using child [of p n s] Suc.prems c(1) by (simp split: if_splits)
    then obtain o' where o': "old = Some o'" "follow db o' (p @ [s]) = Some c" by (cases old) (auto simp: old_at_def)
    have "try_fold (child_span g) (root_span g) (p @ [s]) = Inr sp'" using Suc.prems(3) c(2) span_at_snoc [of g p s] by (simp add: span_at_def)
    then have "subtree_ok db layout sk g k sp' c"
      by (rule subtree_prefix [OF _ _ o'(2), rotated]) (use old [OF o'(1)] Suc.prems(1) in simp)
    moreover have "c \<notin> range ids" using kept_follow(2) [OF kept _ o'(2)] old [OF o'(1)] by simp
    ultimately show ?thesis by (intro kept_subtree [OF kept])
  qed
  then show ?case using node [OF Suc.prems(2)] Suc.prems(3) by auto
qed

text \<open>
  The tree of a plan: its leaves are the planned chunks, and the old leaves elsewhere. The old
  tables stay as they are.
\<close>

lemma plan_chunks_ok:
  assumes db: "tables_ok db" "fresh_ids ids db" "valid_id eid" and g: "geometry_ok (mr_geometry r)"
    and tree: "tree_ok db ImmutableBlob r" "mr_layout_kind r = CowImmutableTree"
    and cs: "\<forall>c \<in> set cs. cr_chunk_index c * 2 ^ 25 < tg_size_bytes (mr_geometry r) \<and> is_ok (new_blob_key (cr_blob_key c))"
      "distinct (map cr_chunk_index cs)" "cs \<noteq> []"
    and order: "\<And>xs. mset (hash_order xs) = mset xs"
    and plan: "plan_chunks (sqlite_tree_store env db) ids hash_order (new_planner ids (mr_geometry r) eid (mr_root_node_id r)) cs = Inr b"
    and ins: "insert_tree_records env b db = Inr db1" and same: "same_tables db1 db'"
  shows "kept ids db db'" "tables_ok db'" "tree_ok db' ImmutableBlob (r\<lparr>mr_root_node_id := Some (ids 0)\<rparr>)"
    "c * 2 ^ 25 < tg_size_bytes (mr_geometry r) \<Longrightarrow> chunk_key db' (r\<lparr>mr_root_node_id := Some (ids 0)\<rparr>) c =
      (case find (\<lambda>ch. cr_chunk_index ch = c) cs of Some ch \<Rightarrow> Some (cr_blob_key ch) | None \<Rightarrow> chunk_key db r c)"
    "fresh_ids ids' db \<Longrightarrow> range ids' \<inter> range ids = {} \<Longrightarrow> fresh_ids ids' db'"
proof -
  let ?g = "mr_geometry r" and ?old = "mr_root_node_id r"
  let ?L = "tg_root_level ?g"
  note start = new_planner_inv(1) [OF g, of db ids eid ?old "\<lambda>_. []"] new_planner_inv(2) [OF g, of db ?old ids eid]
  obtain pl es where pl: "try_fold (plan_chunk (sqlite_tree_store env db) ids) (new_planner ids ?g eid ?old) cs = Inr pl"
      "es = map (\<lambda>((parent, slot), c). child_edge parent slot c) (hash_order (pl_pending_edges pl))"
      "b = (pl_records pl)\<lparr>tb_edges := tb_edges (pl_records pl) @ es\<rparr>"
    using plan by (auto simp: plan_chunks_def and_then_Inr_iff dest!: try_map_edges)
  obtain N K where N: "plan_inv db ids eid ?old N K pl" "copied_but db ?old N pl {}" "pl_geometry pl = ?g" "pl_new_root_node_id pl = ids 0"
      "\<forall>q. length q = ?L \<longrightarrow> (N q \<noteq> None \<longleftrightarrow> [[] \<mapsto> ids 0] q \<noteq> None \<or> q \<in> path_of ?g ` cr_chunk_index ` set cs)"
      "\<forall>c \<in> set cs. K (path_of ?g (cr_chunk_index c)) = cr_blob_key c"
    using plan_fold_ok [OF db(1) fresh_idsD(1) [OF db(2)] g cs(1,2) start new_planner_sel(1,3) subset_refl pl(1)]
    unfolding if_not_P [OF cs(3)] new_planner_sel(2) by blast
  have "tb_edges (pl_records pl) = []" using N(1) by (simp add: plan_inv_def records_ok_def)
  then have b: "b = batch_of pl (hash_order (pl_pending_edges pl))" using pl(2,3) by (simp add: batch_of_def)
  have gp: "geometry_ok (pl_geometry pl)" using g N(3) by simp
  note look = planned_lookups [OF db gp N(1,2) order ins [unfolded b] same, unfolded N(3)]
  show "fresh_ids ids' db'" if "fresh_ids ids' db" "range ids' \<inter> range ids = {}"
    by (rule planned_fresh [OF db(1) that N(1,2) _ ins [unfolded b] same]) (metis order mset_eq_setD)
  show kept: "kept ids db db'" using look(1) by (simp add: kept_def)
  show "tables_ok db'" by (rule look(5))
  have names: "names_ok ids N pl" using N(1) by (simp add: plan_inv_def)
  have root: "N [] = Some (ids 0)" using names_okD(1) [OF names] N(4) by simp
  have old: "o' \<notin> range ids \<and> subtree_ok db CowImmutableTree ImmutableBlob ?g ?L (root_span ?g) o'" if "?old = Some o'" for o'
    using tree_root_new [OF tree(1) that db(2)] tree that by (simp add: tree_ok_def)
  have w: "tg_fanout ?g = 32" using g by (simp add: geometry_ok_def)
  have "subtree_ok db' CowImmutableTree ImmutableBlob ?g ?L (root_span ?g) (ids 0)"
    by (rule new_subtree [OF kept db(2) _ look(2,3) _ old root]) (use look(4) in \<open>auto simp: span_at_def\<close>)
  then show "tree_ok db' ImmutableBlob (r\<lparr>mr_root_node_id := Some (ids 0)\<rparr>)" using g tree(2) by (simp add: tree_ok_def)
  show "chunk_key db' (r\<lparr>mr_root_node_id := Some (ids 0)\<rparr>) c =
      (case find (\<lambda>ch. cr_chunk_index ch = c) cs of Some ch \<Rightarrow> Some (cr_blob_key ch) | None \<Rightarrow> chunk_key db r c)"
    if c: "c * 2 ^ 25 < tg_size_bytes ?g"
  proof -
    let ?q = "path_of ?g c"
    have q: "length ?q = ?L" "\<forall>s \<in> set ?q. s < tg_fanout ?g" using digit_less by (auto simp: path_of_def w)
    have "?L > 0" using g by (simp add: geometry_ok_def)
    then have "?q \<noteq> []" using q(1) by auto
    then have "N ?q \<noteq> None \<longleftrightarrow> ?q \<in> path_of ?g ` cr_chunk_index ` set cs" using N(5) q(1) by simp
    moreover have "c = c'" if "?q = path_of ?g c'" "c' \<in> cr_chunk_index ` set cs" for c'
      by (rule path_injective [OF g c _ that(1)]) (use that(2) cs(1) in auto)
    ultimately have hit: "N ?q \<noteq> None \<longleftrightarrow> c \<in> cr_chunk_index ` set cs" by blast
    have flw: "follow db' (ids 0) ?q = (case N ?q of Some n \<Rightarrow> Some n | None \<Rightarrow> old_at db ?old ?q)"
      by (rule new_tree_follow [OF _ kept db(2) root _ look(2)]) (use old names_okD(5) [OF names] q in auto)
    show ?thesis
    proof (cases "find (\<lambda>ch. cr_chunk_index ch = c) cs")
      case None
      then have "N ?q = None" using hit by (auto simp: find_None_iff)
      moreover have "m \<notin> range ids" if "old_at db ?old ?q = Some m" for m
        using that old kept_follow(2) [OF kept db(2)] by (cases ?old) (auto simp: old_at_def)
      ultimately show ?thesis using None flw keptD(3) [OF kept db(2)]
        by (cases ?old; cases "old_at db ?old ?q") (auto simp: chunk_key_def old_at_def)
    next
      case (Some ch)
      then have ch: "ch \<in> set cs" "cr_chunk_index ch = c" using find_SomeD [OF Some] by auto
      then obtain n where n: "N ?q = Some n" using hit by blast
      then show ?thesis using Some flw look(4) [OF n q(1)] N(6) ch by (auto simp: chunk_key_def)
    qed
  qed
qed

end
