(* ===== verification/Compaction.thy ===== *)
theory Compaction
  imports Cow_Planner
begin

text \<open>
  The compaction of a write-ahead log into a new copy-on-write tree, from
  \<open>nbd-server/src/engines/wal_durable/compaction.rs\<close>: the images of the touched
  chunks, their blobs, the planner of the new tree records and the publication of the new
  root. The lemmas show that a published root holds the snapshot's overlay over the old
  tree, and that every other tree keeps its bytes.
\<close>

section \<open>Results\<close>

datatype compaction_outcome = CompactionPublished | StalePlan | NoRecords

record compaction_result =
  cx_export_id :: export_id
  cx_base_wal_seq :: wal_seq
  cx_target_wal_seq :: wal_seq
  cx_compacted_records :: nat
  cx_written_leaf_blobs :: nat
  cx_outcome :: compaction_outcome
  cx_published_root :: "root_snapshot option"

text \<open>
  What a compactor runs on: failures of the catalog and of the disk, the supplies of blob keys
  and of node ids (both drawn from \<open>Uuid::new_v4\<close>), the order in which a hash map is
  drained, and the clock of the catalog.
\<close>

record compactor =
  cc_db :: db_env
  cc_io :: io_env
  cc_keys :: "nat \<Rightarrow> blob_key"
  cc_ids :: "nat \<Rightarrow> node_id"
  cc_order :: "((node_id \<times> nat) \<times> node_id) list \<Rightarrow> ((node_id \<times> nat) \<times> node_id) list"
  cc_clock :: "(catalog_error, timestamp) result"

section \<open>Chunk images\<close>

definition compact_overlay :: server_error where "compact_overlay = Wal ''compact overlay slice''"

definition load_committed_chunk ::
  "tree_store \<Rightarrow> (blob_key \<Rightarrow> nat \<Rightarrow> nat \<Rightarrow> (server_error, bytes) result) \<Rightarrow> root_snapshot \<Rightarrow> chunk_index
    \<Rightarrow> (server_error, bytes) result" where
  "load_committed_chunk store get root c =
    (case rs_tree_format root of
       None \<Rightarrow> Inr (replicate TREE_CHUNK_BYTES 0)
     | Some fmt \<Rightarrow>
         and_then (new_geometry fmt (rs_size_bytes root)) (\<lambda>g.
         and_then (load_leaf store
             \<lparr>mr_geometry = g, mr_layout_kind = CowImmutableTree, mr_root_node_id = rs_root_node_id root\<rparr> c) (\<lambda>leaf.
           case leaf of
             None \<Rightarrow> Inr (replicate TREE_CHUNK_BYTES 0)
           | Some l \<Rightarrow>
               if tl_storage_kind (ll_leaf_ref l) \<noteq> ImmutableBlob then Inl (Catalog None)
               else get (tl_storage_key (ll_leaf_ref l)) 0 TREE_CHUNK_BYTES)))"

type_synonym chunk_images = "(chunk_index \<times> bytes) list"

definition load_or_create_root_chunk ::
  "tree_store \<Rightarrow> (blob_key \<Rightarrow> nat \<Rightarrow> nat \<Rightarrow> (server_error, bytes) result) \<Rightarrow> root_snapshot \<Rightarrow> chunk_images
    \<Rightarrow> chunk_index \<Rightarrow> (server_error, chunk_images \<times> bytes) result" where
  "load_or_create_root_chunk store get root images c =
    (case bt_get images c of
       Some chunk \<Rightarrow> Inr (images, chunk)
     | None \<Rightarrow> and_then (load_committed_chunk store get root c) (\<lambda>chunk. Inr (bt_insert c chunk images, chunk)))"

function slice_chunks_loop ::
  "tree_store \<Rightarrow> (blob_key \<Rightarrow> nat \<Rightarrow> nat \<Rightarrow> (server_error, bytes) result) \<Rightarrow> root_snapshot \<Rightarrow> overlay_read_slice
    \<Rightarrow> nat \<Rightarrow> nat \<Rightarrow> chunk_images \<Rightarrow> (server_error, chunk_images) result" where
  "slice_chunks_loop store get root sl total_len copied images =
    (if copied < total_len then
       let current_offset = os_start sl + copied;
           chunk_index = current_offset div TREE_CHUNK_BYTES;
           chunk_offset = current_offset mod TREE_CHUNK_BYTES;
           chunk_available = TREE_CHUNK_BYTES - chunk_offset;
           copy_len = min chunk_available (total_len - copied)
       in and_then (ok_or compact_overlay (checked_add (os_offset sl) copied)) (\<lambda>src_start.
          and_then (ok_or compact_overlay (checked_add src_start copy_len)) (\<lambda>src_end.
          and_then (load_or_create_root_chunk store get root images chunk_index) (\<lambda>(images, chunk).
            slice_chunks_loop store get root sl total_len (copied + copy_len)
              (bt_insert chunk_index
                (copy_at chunk chunk_offset (slice (wrec_data (os_record sl)) src_start copy_len)) images))))
     else Inr images)"
  by pat_completeness auto
termination
  by (relation "measure (\<lambda>(_, _, _, _, total_len, copied, _). total_len - copied)")
    (auto intro!: diff_less_mono2 simp: TREE_CHUNK_BYTES_def)

declare slice_chunks_loop.simps [simp del]

definition apply_overlay_slice_to_chunks ::
  "tree_store \<Rightarrow> (blob_key \<Rightarrow> nat \<Rightarrow> nat \<Rightarrow> (server_error, bytes) result) \<Rightarrow> root_snapshot \<Rightarrow> chunk_images
    \<Rightarrow> overlay_read_slice \<Rightarrow> (server_error, chunk_images) result" where
  "apply_overlay_slice_to_chunks store get root images sl =
    slice_chunks_loop store get root sl (os_end sl - os_start sl) 0 images"

definition validate_overlay_slice_range ::
  "root_snapshot \<Rightarrow> wal_seq \<Rightarrow> overlay_read_slice \<Rightarrow> (server_error, unit) result" where
  "validate_overlay_slice_range root target sl =
    (let out_of_bounds = OutOfBounds ''compact overlay slice'' (os_start sl) (os_end sl - os_start sl) (rs_size_bytes root) in
     if wrec_seq (os_record sl) \<le> rs_base_wal_seq root then Inl compact_overlay
     else if wrec_seq (os_record sl) > target then Inl compact_overlay
     else
     and_then (ok_or out_of_bounds (Option.bind (checked_sub (os_end sl) (os_start sl)) (checked_add (os_start sl)))) (\<lambda>end.
     if end > rs_size_bytes root then Inl out_of_bounds
     else
     and_then (ok_or compact_overlay (checked_add (os_offset sl) (os_end sl - os_start sl))) (\<lambda>record_end.
     if record_end > length (wrec_data (os_record sl)) then Inl compact_overlay
     else Inr ())))"

fun compact_slices ::
  "tree_store \<Rightarrow> (blob_key \<Rightarrow> nat \<Rightarrow> nat \<Rightarrow> (server_error, bytes) result) \<Rightarrow> compaction_snapshot
    \<Rightarrow> wal_seq set \<times> chunk_images \<Rightarrow> overlay_read_slice list \<Rightarrow> (server_error, wal_seq set \<times> chunk_images) result" where
  "compact_slices store get sn (visible, images) [] = Inr (visible, images)"
| "compact_slices store get sn (visible, images) (sl # slices) =
    and_then (validate_overlay_slice_range (sn_root sn) (sn_target_wal_seq sn) sl) (\<lambda>_.
    and_then (apply_overlay_slice_to_chunks store get (sn_root sn) images sl) (\<lambda>images.
      compact_slices store get sn (insert (wrec_seq (os_record sl)) visible, images) slices))"

fun write_leaf_blobs ::
  "io_env \<Rightarrow> (nat \<Rightarrow> blob_key) \<Rightarrow> (chunk_index \<times> chunk_ref) list \<times> nat \<Rightarrow> chunk_images \<Rightarrow> blob_dir \<times> nat
    \<Rightarrow> (blob_dir \<times> nat) \<times> (server_error, (chunk_index \<times> chunk_ref) list \<times> nat) result" where
  "write_leaf_blobs io keys (chunks, written) [] st = (st, Inr (chunks, written))"
| "write_leaf_blobs io keys (chunks, written) ((c, data) # images) st =
    then_st (put_random_blob io keys data st) (\<lambda>st key.
    then_st (st, map_err catalog_err (new_cow_chunk_ref c key TREE_CHUNK_BYTES)) (\<lambda>st chunk.
      write_leaf_blobs io keys (bt_insert c chunk chunks, written + 1) images st))"

section \<open>Publication\<close>

definition publish_lazy_compaction ::
  "compactor \<Rightarrow> export_id \<Rightarrow> root_snapshot \<Rightarrow> wal_seq \<Rightarrow> chunk_ref list \<Rightarrow> catalog_db
    \<Rightarrow> catalog_db \<times> (server_error, compaction_outcome \<times> root_snapshot option) result" where
  "publish_lazy_compaction cc eid root compacted_through chunks db =
    (let store = sqlite_tree_store (cc_db cc) db in
     if chunks = [] then (db, Inr (NoRecords, None))
     else
     then_st (db, ok_or (Catalog None) (rs_tree_format root)) (\<lambda>db fmt.
     then_st (db, new_geometry fmt (rs_size_bytes root)) (\<lambda>db g.
     let planner = new_planner (cc_ids cc) g eid (rs_root_node_id root) in
     then_st (db, plan_chunks store (cc_ids cc) (cc_order cc) planner chunks) (\<lambda>db records.
     then_st (db, map_err catalog_err (new_head_with_tree_format CowImmutableTree (Some (pl_new_root_node_id planner))
         (rs_size_bytes root) compacted_through (Some fmt))) (\<lambda>db next_head.
     then_st (db, to_export_head root) (\<lambda>db expected_head.
     then_st (let (db, res) = publish_tree_update (cc_db cc) (cc_clock cc)
           \<lparr>pu_export_id = eid, pu_expected_head = expected_head, pu_next_head = next_head, pu_records = records\<rparr> db
         in (db, map_err catalog_err res)) (\<lambda>db outcome.
       case outcome of
         Published record \<Rightarrow>
           then_st (db, root_from_head (er_head record)) (\<lambda>db published. (db, Inr (CompactionPublished, Some published)))
       | StaleHead _ \<Rightarrow> (db, Inr (StalePlan, None)))))))))"

definition compact_snapshot ::
  "compactor \<Rightarrow> export_id \<Rightarrow> compaction_snapshot \<Rightarrow> catalog_db \<times> blob_dir \<times> nat
    \<Rightarrow> (catalog_db \<times> blob_dir \<times> nat) \<times> (server_error, compaction_result) result" where
  "compact_snapshot cc eid sn st =
    (let result = \<lparr>cx_export_id = eid, cx_base_wal_seq = rs_base_wal_seq (sn_root sn),
           cx_target_wal_seq = sn_target_wal_seq sn, cx_compacted_records = 0, cx_written_leaf_blobs = 0,
           cx_outcome = NoRecords, cx_published_root = None\<rparr>;
         overlay_slices = all_slices (sn_overlay sn);
         (db, dir, k) = st;
         store = sqlite_tree_store (cc_db cc) db
     in if sn_target_wal_seq sn \<le> rs_base_wal_seq (sn_root sn) then (st, Inr result)
     else if overlay_slices = [] then (st, Inr result)
     else
     then_st (st, compact_slices store (get_blob (cc_io cc) dir) sn ({}, []) overlay_slices) (\<lambda>_ (visible, images).
     then_st (case write_leaf_blobs (cc_io cc) (cc_keys cc) ([], 0) images (dir, k) of
           ((dir, k), res) \<Rightarrow> ((db, dir, k), res)) (\<lambda>(db, dir, k) (chunks, written).
     then_st (case publish_lazy_compaction cc eid (sn_root sn) (sn_target_wal_seq sn) (map snd chunks) db of
           (db, res) \<Rightarrow> ((db, dir, k), res)) (\<lambda>st (outcome, published).
       (st, Inr (result\<lparr>cx_compacted_records := card visible, cx_written_leaf_blobs := written,
         cx_outcome := outcome, cx_published_root := published\<rparr>))))))"

section \<open>The images hold the overlay over the old tree\<close>

lemma load_committed_chunk_eq:
  "load_committed_chunk store get root c = and_then (cow_load_leaf store root c) (\<lambda>leaf.
    case leaf of
      None \<Rightarrow> Inr (replicate TREE_CHUNK_BYTES 0)
    | Some l \<Rightarrow> if tl_storage_kind (ll_leaf_ref l) \<noteq> ImmutableBlob then Inl (Catalog None)
        else get (tl_storage_key (ll_leaf_ref l)) 0 TREE_CHUNK_BYTES)"
proof (cases "rs_tree_format root")
  case (Some fmt)
  then show ?thesis by (cases "new_geometry fmt (rs_size_bytes root)") (simp_all add: load_committed_chunk_def cow_load_leaf_def)
qed (simp add: load_committed_chunk_def cow_load_leaf_def)

definition chunk_shows :: "nat \<Rightarrow> (nat \<Rightarrow> u8) \<Rightarrow> chunk_index \<Rightarrow> bytes \<Rightarrow> bool" where
  "chunk_shows size_bytes content c data \<longleftrightarrow> length data = TREE_CHUNK_BYTES \<and> c * TREE_CHUNK_BYTES < size_bytes \<and>
    (\<forall>i < TREE_CHUNK_BYTES. c * TREE_CHUNK_BYTES + i < size_bytes \<longrightarrow> data ! i = content (c * TREE_CHUNK_BYTES + i))"

lemma load_committed_chunk_ok:
  assumes ok: "cow_root_ok db dir root" and c: "c * TREE_CHUNK_BYTES < rs_size_bytes root"
    and load: "load_committed_chunk (sqlite_tree_store env db) (get_blob io dir) root c = Inr data"
  shows "chunk_shows (rs_size_bytes root) (tree_byte db dir root) c data"
proof -
  let ?len = "min TREE_CHUNK_BYTES (rs_size_bytes root - c * TREE_CHUNK_BYTES)"
  obtain l where l: "cow_load_leaf (sqlite_tree_store env db) root c = Inr l"
      "(case l of None \<Rightarrow> Inr (replicate TREE_CHUNK_BYTES 0)
       | Some l \<Rightarrow> if tl_storage_kind (ll_leaf_ref l) \<noteq> ImmutableBlob then Inl (Catalog None)
           else get_blob io dir (tl_storage_key (ll_leaf_ref l)) 0 TREE_CHUNK_BYTES) = Inr data"
    using load unfolding load_committed_chunk_eq and_then_Inr_iff by blast
  have len: "0 + ?len \<le> TREE_CHUNK_BYTES" "0 < ?len" "c * TREE_CHUNK_BYTES + 0 + ?len \<le> rs_size_bytes root"
    using c by (auto simp: chunk_bytes_eq)
  note part = cow_part_ok [OF ok len(1) c len(2,3) l(1), unfolded add_0_right add_0_left]
  show ?thesis
  proof (cases l)
    case None
    then have "data = replicate TREE_CHUNK_BYTES 0" using l(2) by simp
    then show ?thesis using part(1) None c by (auto simp: chunk_shows_def)
  next
    case (Some leaf)
    then obtain bs where bs: "file_bytes dir (tl_storage_key (ll_leaf_ref leaf)) = Some bs" "length bs = TREE_CHUNK_BYTES"
        "\<forall>i < ?len. tree_byte db dir root (c * TREE_CHUNK_BYTES + i) = bs ! i" using part(2) [of leaf] by blast
    have "get_blob io dir (tl_storage_key (ll_leaf_ref leaf)) 0 TREE_CHUNK_BYTES = Inr data" using l(2) Some by (simp split: if_splits)
    then have "data = bs" using bs(1,2) slice_full [of bs]
      by (auto simp: get_blob_def and_then_Inr_iff blob_path_Inr_iff split: if_splits option.splits)
    then show ?thesis using bs c by (simp add: chunk_shows_def)
  qed
qed

text \<open>The bytes in \<open>S\<close> have been copied from the overlay.\<close>

definition patched :: "(nat \<Rightarrow> u8) \<Rightarrow> (nat \<Rightarrow> u8) \<Rightarrow> nat set \<Rightarrow> nat \<Rightarrow> u8" where
  "patched old new S x = (if x \<in> S then new x else old x)"

definition images_ok :: "nat \<Rightarrow> (nat \<Rightarrow> u8) \<Rightarrow> (nat \<Rightarrow> u8) \<Rightarrow> nat set \<Rightarrow> chunk_images \<Rightarrow> bool" where
  "images_ok n old new S images \<longleftrightarrow> bt_sorted images \<and> (\<forall>x \<in> S. bt_get images (x div TREE_CHUNK_BYTES) \<noteq> None) \<and>
    (\<forall>c data. bt_get images c = Some data \<longrightarrow> chunk_shows n (patched old new S) c data)"

lemma images_add:
  assumes img: "images_ok n old new S images"
    and c: "c * TREE_CHUNK_BYTES + off + length bs \<le> n" "off + length bs \<le> TREE_CHUNK_BYTES" "0 < length bs"
    and load: "\<And>data. load_committed_chunk store get root c = Inr data \<Longrightarrow> chunk_shows n old c data"
    and chunk: "load_or_create_root_chunk store get root images c = Inr (images1, chunk)"
    and bs: "\<And>i. i < length bs \<Longrightarrow> bs ! i = new (c * TREE_CHUNK_BYTES + off + i)"
  shows "images_ok n old new (S \<union> {c * TREE_CHUNK_BYTES + off..<c * TREE_CHUNK_BYTES + off + length bs})
    (bt_insert c (copy_at chunk off bs) images1)"
proof -
  let ?C = TREE_CHUNK_BYTES
  let ?R = "{c * ?C + off..<c * ?C + off + length bs}"
  have pos: "0 < ?C" by (simp add: chunk_bytes_eq)
  have inR: "x div ?C = c" if "x \<in> ?R" for x
    using that c(2) by (intro div_nat_eqI) (auto simp: algebra_simps)
  have images1: "bt_get images1 = (bt_get images)(c \<mapsto> chunk)" "bt_sorted images1" and shows1: "chunk_shows n (patched old new S) c chunk"
  proof -
    have sorted: "bt_sorted images" using img by (simp add: images_ok_def)
    show "bt_get images1 = (bt_get images)(c \<mapsto> chunk)" "bt_sorted images1"
      using chunk sorted by (auto simp: load_or_create_root_chunk_def and_then_Inr_iff bt_get_insert bt_sorted_insert
          fun_upd_idem split: option.splits)
    show "chunk_shows n (patched old new S) c chunk"
    proof (cases "bt_get images c")
      case None
      then have "load_committed_chunk store get root c = Inr chunk"
        using chunk by (auto simp: load_or_create_root_chunk_def and_then_Inr_iff)
      moreover have "patched old new S (c * ?C + i) = old (c * ?C + i)" if "i < ?C" for i
      proof -
        have "(c * ?C + i) div ?C = c" using that by (simp add: pos)
        then show ?thesis using img None by (auto simp: images_ok_def patched_def)
      qed
      ultimately show ?thesis using load by (simp add: chunk_shows_def)
    next
      case (Some data)
      then show ?thesis using chunk img by (auto simp: load_or_create_root_chunk_def images_ok_def)
    qed
  qed
  have new: "chunk_shows n (patched old new (S \<union> ?R)) c (copy_at chunk off bs)"
    unfolding chunk_shows_def
  proof (intro conjI allI impI)
    show "length (copy_at chunk off bs) = ?C" "c * ?C < n" using shows1 c(2) by (simp_all add: chunk_shows_def length_copy_at)
    fix i assume i: "i < ?C" "c * ?C + i < n"
    then have "copy_at chunk off bs ! i = (if off \<le> i \<and> i < off + length bs then bs ! (i - off) else chunk ! i)"
      using shows1 c(2) by (simp add: nth_copy_at chunk_shows_def)
    then show "copy_at chunk off bs ! i = patched old new (S \<union> ?R) (c * ?C + i)"
      using shows1 i bs [of "i - off"] by (auto simp: patched_def chunk_shows_def)
  qed
  have other: "chunk_shows n (patched old new (S \<union> ?R)) d data" if d: "bt_get images d = Some data" "d \<noteq> c" for d data
  proof -
    have "patched old new (S \<union> ?R) (d * ?C + i) = patched old new S (d * ?C + i)" if "i < ?C" for i
    proof -
      have "(d * ?C + i) div ?C = d" using that by (simp add: pos)
      then show ?thesis using inR d(2) by (auto simp: patched_def)
    qed
    then show ?thesis using img d(1) by (simp add: images_ok_def chunk_shows_def)
  qed
  show ?thesis unfolding images_ok_def bt_get_insert images1(1)
    using img new other inR images1(2) by (auto simp: images_ok_def bt_sorted_insert)
qed

lemma slice_chunks_step:
  fixes sl :: overlay_read_slice
  assumes "copied < tot"
  defines "off \<equiv> (os_start sl + copied) mod TREE_CHUNK_BYTES" and "c \<equiv> (os_start sl + copied) div TREE_CHUNK_BYTES"
  defines "n \<equiv> min (TREE_CHUNK_BYTES - off) (tot - copied)"
  shows "slice_chunks_loop store get root sl tot copied images =
      and_then (ok_or compact_overlay (checked_add (os_offset sl) copied)) (\<lambda>src_start.
      and_then (ok_or compact_overlay (checked_add src_start n)) (\<lambda>src_end.
      and_then (load_or_create_root_chunk store get root images c) (\<lambda>(images, chunk).
        slice_chunks_loop store get root sl tot (copied + n)
          (bt_insert c (copy_at chunk off (slice (wrec_data (os_record sl)) src_start n)) images))))"
    "0 < n" "off + n \<le> TREE_CHUNK_BYTES" "c * TREE_CHUNK_BYTES + off = os_start sl + copied" "copied + n \<le> tot"
proof -
  show "slice_chunks_loop store get root sl tot copied images =
      and_then (ok_or compact_overlay (checked_add (os_offset sl) copied)) (\<lambda>src_start.
      and_then (ok_or compact_overlay (checked_add src_start n)) (\<lambda>src_end.
      and_then (load_or_create_root_chunk store get root images c) (\<lambda>(images, chunk).
        slice_chunks_loop store get root sl tot (copied + n)
          (bt_insert c (copy_at chunk off (slice (wrec_data (os_record sl)) src_start n)) images))))"
    unfolding n_def off_def c_def by (subst slice_chunks_loop.simps) (simp only: Let_def if_True assms(1))
  have "off < TREE_CHUNK_BYTES" by (simp add: off_def TREE_CHUNK_BYTES_def)
  then show "0 < n" "off + n \<le> TREE_CHUNK_BYTES" "copied + n \<le> tot" using assms(1) by (auto simp: n_def)
  show "c * TREE_CHUNK_BYTES + off = os_start sl + copied" by (simp add: c_def off_def)
qed

text \<open>A slice whose bytes are those of the new content.\<close>

definition slice_shows :: "nat \<Rightarrow> (nat \<Rightarrow> u8) \<Rightarrow> overlay_read_slice \<Rightarrow> bool" where
  "slice_shows n new sl \<longleftrightarrow> os_start sl \<le> os_end sl \<and> os_end sl \<le> n \<and>
    os_offset sl + (os_end sl - os_start sl) \<le> length (wrec_data (os_record sl)) \<and>
    (\<forall>i < os_end sl - os_start sl. wrec_data (os_record sl) ! (os_offset sl + i) = new (os_start sl + i))"

lemma slice_chunks_loop_ok:
  assumes load: "\<And>c data. c * TREE_CHUNK_BYTES < n \<Longrightarrow> load_committed_chunk store get root c = Inr data \<Longrightarrow> chunk_shows n old c data"
    and sl: "slice_shows n new sl"
    and run: "slice_chunks_loop store get root sl (os_end sl - os_start sl) copied images = Inr images'"
      "copied \<le> os_end sl - os_start sl" "images_ok n old new (S \<union> {os_start sl..<os_start sl + copied}) images"
  shows "images_ok n old new (S \<union> {os_start sl..<os_end sl}) images'"
  using run
proof (induction "os_end sl - os_start sl - copied" arbitrary: copied images rule: less_induct)
  case less
  let ?total = "os_end sl - os_start sl" and ?C = TREE_CHUNK_BYTES
  have le: "os_start sl \<le> os_end sl" using sl by (simp add: slice_shows_def)
  show ?case
  proof (cases "copied < ?total")
    case False
    then have "copied = ?total" using less.prems(2) by simp
    moreover have "images' = images" using less.prems(1) False by (subst (asm) slice_chunks_loop.simps) simp
    ultimately show ?thesis using less.prems(3) le by simp
  next
    case True
    define off where "off = (os_start sl + copied) mod ?C"
    define c where "c = (os_start sl + copied) div ?C"
    define k where "k = min (?C - off) (?total - copied)"
    note step = slice_chunks_step [OF True, where sl = sl, folded off_def c_def, folded k_def]
    let ?bs = "slice (wrec_data (os_record sl)) (os_offset sl + copied) k"
    obtain images1 chunk where l: "load_or_create_root_chunk store get root images c = Inr (images1, chunk)"
        "slice_chunks_loop store get root sl ?total (copied + k) (bt_insert c (copy_at chunk off ?bs) images1) = Inr images'"
      using less.prems(1) unfolding step(1) by (auto simp: and_then_Inr_iff checked_arith)
    have fits: "os_offset sl + copied + k \<le> length (wrec_data (os_record sl))" using sl step(5) by (simp add: slice_shows_def)
    then have len: "length ?bs = k" by (simp add: length_slice)
    have "?bs ! i = new (c * ?C + off + i)" if "i < k" for i
    proof -
      have "?bs ! i = wrec_data (os_record sl) ! (os_offset sl + (copied + i))" using that fits by (simp add: nth_slice add.assoc)
      also have "\<dots> = new (os_start sl + (copied + i))" using sl that step(5) by (simp add: slice_shows_def)
      finally show ?thesis using step(4) by (simp add: add.assoc)
    qed
    moreover have "os_end sl \<le> n" using sl by (simp add: slice_shows_def)
    then have "c * ?C + off + k \<le> n" using step(4,5) le by linarith
    ultimately have "images_ok n old new (S \<union> {os_start sl..<os_start sl + copied} \<union> {c * ?C + off..<c * ?C + off + length ?bs})
        (bt_insert c (copy_at chunk off ?bs) images1)"
      using images_add [OF less.prems(3), of c off ?bs store get root images1 chunk] l(1) step(2,3) load len by simp
    moreover have "{os_start sl..<os_start sl + copied} \<union> {c * ?C + off..<c * ?C + off + k} = {os_start sl..<os_start sl + (copied + k)}"
      unfolding step(4) by auto
    ultimately have "images_ok n old new (S \<union> {os_start sl..<os_start sl + (copied + k)}) (bt_insert c (copy_at chunk off ?bs) images1)"
      by (simp add: Un_assoc len)
    then show ?thesis using less.hyps [OF _ l(2)] step(2,5) True by simp
  qed
qed

lemma compact_slices_ok:
  assumes load: "\<And>c data. c * TREE_CHUNK_BYTES < n \<Longrightarrow> load_committed_chunk store get (sn_root sn) c = Inr data \<Longrightarrow> chunk_shows n old c data"
    and "\<forall>sl \<in> set slices. slice_shows n new sl" "images_ok n old new S images"
      "compact_slices store get sn (visible, images) slices = Inr (visible', images')"
  shows "images_ok n old new (S \<union> (\<Union>sl \<in> set slices. {os_start sl..<os_end sl})) images'"
  using assms(2-)
proof (induction slices arbitrary: S visible images)
  case (Cons sl slices)
  obtain images1 where i: "slice_chunks_loop store get (sn_root sn) sl (os_end sl - os_start sl) 0 images = Inr images1"
      "compact_slices store get sn (insert (wrec_seq (os_record sl)) visible, images1) slices = Inr (visible', images')"
    using Cons.prems(3) by (auto simp: and_then_Inr_iff apply_overlay_slice_to_chunks_def)
  have "images_ok n old new (S \<union> {os_start sl..<os_end sl}) images1"
    by (rule slice_chunks_loop_ok [OF load _ i(1)]) (use Cons.prems(1,2) in simp_all)
  from Cons.IH [OF _ this i(2)] Cons.prems(1) show ?case by (simp add: Un_assoc)
qed simp

lemma overlay_slices_show:
  assumes "overlay_in lo hi n m" "sl \<in> set (all_slices m)"
  shows "slice_shows n (\<lambda>x. the (overlay_byte m x)) sl"
proof -
  have inv: "overlay_inv m" "em_inv m" using assms(1) by (simp_all add: overlay_in_def overlay_inv_def)
  obtain p where p: "p \<in> set m" "sl = slice_of p" using assms(2) by (auto simp: all_slices_eq)
  let ?o = "ext_value (snd p)"
  have lt: "fst p < ext_end (snd p)" using em_inv_mem [OF inv(2) p(1)] .
  have at: "overlay_at m x = Some (oe_seq ?o, oe_record ?o, oe_offset ?o + (x - fst p))" if "fst p \<le> x" "x < ext_end (snd p)" for x
    using em_at_mem [OF inv(2) p(1) that, of value_at] by (simp add: value_at_def)
  have "br_start (wrec_range (oe_record ?o)) + br_len (wrec_range (oe_record ?o)) \<le> n"
    using assms(1) at [OF order_refl lt] unfolding overlay_in_def by blast
  moreover have "fst p \<le> ext_end (snd p) - 1" "ext_end (snd p) - 1 < ext_end (snd p)" using lt by simp_all
  from at [OF this] have "covers (oe_record ?o) (ext_end (snd p) - 1)" using inv(1) unfolding overlay_inv_def by blast
  ultimately have "ext_end (snd p) \<le> n" using lt unfolding covers_def range_bytes_def by auto
  then show ?thesis using overlay_inv_mem(4) [OF inv(1) p(1)] lt at
    by (simp add: slice_shows_def p(2) slice_of_def overlay_byte_def)
qed

lemma all_slices_cover: "(\<Union>sl \<in> set (all_slices m). {os_start sl..<os_end sl}) = {x. overlay_byte m x \<noteq> None}"
  using em_at_None_iff [of value_at m] unfolding overlay_byte_None by (auto simp: all_slices_eq slice_of_def) force

section \<open>The blobs of the images\<close>

definition stored :: "blob_dir \<Rightarrow> chunk_images \<Rightarrow> (chunk_index \<times> chunk_ref) list \<Rightarrow> bool" where
  "stored dir images chunks \<longleftrightarrow> bt_sorted chunks \<and> dom (bt_get chunks) = fst ` set images \<and>
    (\<forall>c ch. bt_get chunks c = Some ch \<longrightarrow> cr_chunk_index ch = c \<and> is_ok (new_blob_key (cr_blob_key ch)) \<and>
      (\<exists>data. (c, data) \<in> set images \<and> file_bytes dir (cr_blob_key ch) = Some data))"

lemma stored_mono: "stored dir images chunks \<Longrightarrow> file_bytes dir \<subseteq>\<^sub>m file_bytes dir' \<Longrightarrow> stored dir' images chunks"
  unfolding stored_def map_le_def by (metis domI)

lemma write_leaf_blobs_ok:
  assumes "write_leaf_blobs io keys (chunks, written) images st = (st', r)" "fresh_keys keys st" "stored (fst st) pre chunks"
  shows "file_bytes (fst st) \<subseteq>\<^sub>m file_bytes (fst st') \<and> fresh_keys keys st' \<and>
    (\<forall>res. r = Inr res \<longrightarrow> stored (fst st') (pre @ images) (fst res) \<and> snd res = written + length images)"
  using assms
proof (induction images arbitrary: chunks written st pre)
  case (Cons p images)
  obtain c data where p: "p = (c, data)" by (cases p)
  obtain st1 r1 where put: "put_random_blob io keys data st = (st1, r1)" by (cases "put_random_blob io keys data st")
  note ok = put_random_blob_ok [OF put Cons.prems(2)]
  show ?case
  proof (cases r1)
    case (Inl e)
    then show ?thesis using Cons.prems(1) put p ok by auto
  next
    case (Inr key)
    let ?ch = "\<lparr>cr_chunk_index = c, cr_blob_key = key, cr_len_bytes = TREE_CHUNK_BYTES\<rparr>"
    have key: "file_bytes (fst st1) key = Some data" "is_ok (new_blob_key key)" using ok Inr by auto
    have run: "write_leaf_blobs io keys (bt_insert c ?ch chunks, written + 1) images st1 = (st', r)"
      using Cons.prems(1) put p Inr by (simp add: new_cow_chunk_ref_def)
    have st: "stored (fst st1) pre chunks" using stored_mono [OF Cons.prems(3)] ok by blast
    then have "stored (fst st1) (pre @ [(c, data)]) (bt_insert c ?ch chunks)"
      unfolding stored_def bt_get_insert using key by (auto simp: bt_sorted_insert)
    from Cons.IH [OF run _ this] ok have "file_bytes (fst st1) \<subseteq>\<^sub>m file_bytes (fst st') \<and> fresh_keys keys st' \<and>
      (\<forall>res. r = Inr res \<longrightarrow> stored (fst st') ((pre @ [(c, data)]) @ images) (fst res) \<and> snd res = (written + 1) + length images)"
      by blast
    then show ?thesis using ok p map_le_trans by fastforce
  qed
qed auto

lemma stored_chunks:
  assumes st: "stored dir images chunks" and img: "images_ok n old new S images"
  shows "distinct (map cr_chunk_index (map snd chunks))"
    "\<forall>ch \<in> set (map snd chunks). is_ok (new_blob_key (cr_blob_key ch)) \<and> cr_chunk_index ch * TREE_CHUNK_BYTES < n"
    "find (\<lambda>ch. cr_chunk_index ch = c) (map snd chunks) = bt_get chunks c"
    "bt_get chunks c = Some ch \<Longrightarrow> \<exists>data. file_bytes dir (cr_blob_key ch) = Some data \<and> chunk_shows n (patched old new S) c data"
    "x \<in> S \<Longrightarrow> bt_get chunks (x div TREE_CHUNK_BYTES) \<noteq> None"
proof -
  have sorted: "bt_sorted chunks" "bt_sorted images" using st img by (simp_all add: stored_def images_ok_def)
  have mem: "cr_chunk_index ch = c \<and> is_ok (new_blob_key (cr_blob_key ch)) \<and>
      (\<exists>data. (c, data) \<in> set images \<and> file_bytes dir (cr_blob_key ch) = Some data)" if "(c, ch) \<in> set chunks" for c ch
    using st that bt_get_mem [OF sorted(1)] by (auto simp: stored_def)
  have sh: "chunk_shows n (patched old new S) c data" if "(c, data) \<in> set images" for c data
    using img that bt_get_mem [OF sorted(2)] by (auto simp: images_ok_def)
  have idx: "map cr_chunk_index (map snd chunks) = map fst chunks" using mem by force
  show "distinct (map cr_chunk_index (map snd chunks))" unfolding idx using sorted(1) by (simp add: bt_sorted_def strict_sorted_iff)
  show "\<forall>ch \<in> set (map snd chunks). is_ok (new_blob_key (cr_blob_key ch)) \<and> cr_chunk_index ch * TREE_CHUNK_BYTES < n"
    using mem sh by (fastforce simp: chunk_shows_def)
  have "find (\<lambda>ch. cr_chunk_index ch = c) (map snd cs) = map_of cs c" if "\<forall>(c, ch) \<in> set cs. cr_chunk_index ch = c" for cs
    using that by (induction cs) auto
  then show "find (\<lambda>ch. cr_chunk_index ch = c) (map snd chunks) = bt_get chunks c" using mem unfolding bt_get_def by blast
  show "\<exists>data. file_bytes dir (cr_blob_key ch) = Some data \<and> chunk_shows n (patched old new S) c data" if "bt_get chunks c = Some ch"
    using mem [of c ch] sh that bt_get_mem [OF sorted(1)] by blast
  show "bt_get chunks (x div TREE_CHUNK_BYTES) \<noteq> None" if x: "x \<in> S"
  proof -
    have "x div TREE_CHUNK_BYTES \<in> fst ` set images"
      using img x bt_get_mem [OF sorted(2)] unfolding images_ok_def by (force simp: image_iff)
    then have "x div TREE_CHUNK_BYTES \<in> dom (bt_get chunks)" using st by (simp add: stored_def)
    then show ?thesis by auto
  qed
qed

section \<open>The published root\<close>

lemma published_head:
  assumes "new_head_with_tree_format CowImmutableTree (Some nid) n target (Some fmt) = Inr h"
  shows "root_from_head h = Inr (CowBacking (Some nid) target n fmt)" "to_export_head (CowBacking (Some nid) target n fmt) = Inr h"
  using assms by (simp_all add: new_head_with_tree_format_Inr_iff root_from_head_def to_export_head_def)

lemma publish_lazy_cases:
  assumes ok: "cow_root_ok db dir root" "db_wf db" "fresh_ids (cc_ids cc) db" "valid_id eid" "\<And>xs. mset (cc_order cc xs) = mset xs"
    and cs: "\<forall>c \<in> set cs. is_ok (new_blob_key (cr_blob_key c)) \<and> cr_chunk_index c * TREE_CHUNK_BYTES < rs_size_bytes root"
      "distinct (map cr_chunk_index cs)"
    and run: "publish_lazy_compaction cc eid root target cs db = (db', res)"
  obtains (unchanged) "db' = db" "\<And>r. res \<noteq> Inr (CompactionPublished, r)"
  | (published) fmt r where "tree_reader_of root = Some r" "rs_tree_format root = Some fmt"
      "res = Inr (CompactionPublished, Some (CowBacking (Some (cc_ids cc 0)) target (rs_size_bytes root) fmt))"
      "kept (cc_ids cc) db db'" "tables_ok db'" "tree_ok db' ImmutableBlob (r\<lparr>mr_root_node_id := Some (cc_ids cc 0)\<rparr>)"
      "\<And>c. c * TREE_CHUNK_BYTES < rs_size_bytes root \<Longrightarrow> chunk_key db' (r\<lparr>mr_root_node_id := Some (cc_ids cc 0)\<rparr>) c =
        (case find (\<lambda>ch. cr_chunk_index ch = c) cs of Some ch \<Rightarrow> Some (cr_blob_key ch) | None \<Rightarrow> chunk_key db r c)"
      "db_wf db'" "map_err catalog_err (load_export_head db_ok db' eid) =
        to_export_head (CowBacking (Some (cc_ids cc 0)) target (rs_size_bytes root) fmt)"
      "\<And>ids'. fresh_ids ids' db \<Longrightarrow> range ids' \<inter> range (cc_ids cc) = {} \<Longrightarrow> fresh_ids ids' db'"
proof -
  obtain fmt r where r: "rs_tree_format root = Some fmt" "tree_reader_of root = Some r"
    "new_geometry fmt (rs_size_bytes root) = Inr (mr_geometry r)" "geometry_ok (mr_geometry r)"
    "tg_size_bytes (mr_geometry r) = rs_size_bytes root"
    "r = \<lparr>mr_geometry = mr_geometry r, mr_layout_kind = CowImmutableTree, mr_root_node_id = rs_root_node_id root\<rparr>"
    by (rule cow_reader [OF ok(1)])
  have rsel: "mr_layout_kind r = CowImmutableTree" "mr_root_node_id r = rs_root_node_id root" by (subst r(6), simp)+
  let ?pl = "new_planner (cc_ids cc) (mr_geometry r) eid (rs_root_node_id root)"
  let ?plan = "plan_chunks (sqlite_tree_store (cc_db cc) db) (cc_ids cc) (cc_order cc) ?pl cs"
  let ?head = "new_head_with_tree_format CowImmutableTree (Some (cc_ids cc 0)) (rs_size_bytes root) target (Some fmt)"
  show thesis
  proof (cases "cs \<noteq> [] \<and> is_ok ?plan \<and> is_ok ?head \<and> is_ok (to_export_head root)")
    case False
    then have "db' = db \<and> (\<forall>r. res \<noteq> Inr (CompactionPublished, r))"
      using run r(1,3) by (cases ?plan; cases ?head; cases "to_export_head root")
        (auto simp: publish_lazy_compaction_def Let_def is_ok_iff split: if_splits)
    then show thesis using unchanged by blast
  next
    case True
    then obtain b h eh where b: "?plan = Inr b" "?head = Inr h" "to_export_head root = Inr eh" by (auto simp: is_ok_iff)
    let ?req = "\<lparr>pu_export_id = eid, pu_expected_head = eh, pu_next_head = h, pu_records = b\<rparr>"
    obtain db2 pres where pub: "publish_tree_update (cc_db cc) (cc_clock cc) ?req db = (db2, pres)"
      by (cases "publish_tree_update (cc_db cc) (cc_clock cc) ?req db")
    have run: "(db', res) = then_st (db2, map_err catalog_err pres) (\<lambda>db outcome.
       case outcome of
         Published record \<Rightarrow>
           then_st (db, root_from_head (er_head record)) (\<lambda>db published. (db, Inr (CompactionPublished, Some published)))
       | StaleHead _ \<Rightarrow> (db, Inr (StalePlan, None)))"
      using run r(1,3) b pub True by (simp add: publish_lazy_compaction_def Let_def)
    from pub show thesis
    proof (cases rule: publish_cases)
      case (failed e)
      then show thesis using run unchanged by simp
    next
      case (stale current)
      then show thesis using run unchanged by simp
    next
      case (missed current)
      then show thesis using run unchanged by simp
    next
      case (published now db1 db3 n final current)
      note effect = published_effect [OF ok(2) published(3-6,8,9), simplified]
      have res: "db' = db2" "res = Inr (CompactionPublished, Some (CowBacking (Some (cc_ids cc 0)) target (rs_size_bytes root) fmt))"
        using run published(1) effect published_head(1) [OF b(2)] by simp_all
      have "same_tables db1 db2"
        using published(6,8) by (auto simp: update_heads_def same_tables_def Let_def split: if_splits)
      moreover have "insert_tree_records (cc_db cc) b db = Inr db1" using published(5) by simp
      moreover have "\<forall>c \<in> set cs. cr_chunk_index c * 2 ^ 25 < tg_size_bytes (mr_geometry r) \<and> is_ok (new_blob_key (cr_blob_key c))"
        using cs(1) r(5) by (simp add: chunk_bytes_eq)
      moreover have "tables_ok db" "tree_ok db ImmutableBlob r" using ok(1) r(2) by (simp_all add: cow_root_ok_def)
      ultimately have plan: "kept (cc_ids cc) db db2" "tables_ok db2" "tree_ok db2 ImmutableBlob (r\<lparr>mr_root_node_id := Some (cc_ids cc 0)\<rparr>)"
        "\<And>c. c * 2 ^ 25 < tg_size_bytes (mr_geometry r) \<Longrightarrow> chunk_key db2 (r\<lparr>mr_root_node_id := Some (cc_ids cc 0)\<rparr>) c =
          (case find (\<lambda>ch. cr_chunk_index ch = c) cs of Some ch \<Rightarrow> Some (cr_blob_key ch) | None \<Rightarrow> chunk_key db r c)"
        "\<And>ids'. fresh_ids ids' db \<Longrightarrow> range ids' \<inter> range (cc_ids cc) = {} \<Longrightarrow> fresh_ids ids' db2"
        using plan_chunks_ok [OF _ ok(3,4) r(4) _ rsel(1) _ cs(2) _ ok(5), of "cc_db cc" b db1 db2] b(1) True rsel(2) by simp_all
      show thesis
        by (rule that(2) [OF r(2,1) res(2)])
          (use plan effect res(1) r(5) published_head(2) [OF b(2)] in \<open>simp_all add: chunk_bytes_eq\<close>)
    qed
  qed
qed

lemma overlay_in_size:
  assumes "overlay_in lo hi n m" "overlay_byte m x \<noteq> None"
  shows "x < n"
proof -
  obtain s r k where at: "overlay_at m x = Some (s, r, k)" using assms(2) by (auto simp: overlay_byte_def)
  then have "covers r x" "br_start (wrec_range r) + br_len (wrec_range r) \<le> n"
    using assms(1) unfolding overlay_in_def overlay_inv_def by blast+
  then show ?thesis by (simp add: covers_def range_bytes_def)
qed

text \<open>
  A tree whose leaves are the stored images, and the old leaves elsewhere, holds the overlay
  over the old bytes.
\<close>

lemma new_root_ok:
  assumes ok: "cow_root_ok db dir root" and r: "tree_reader_of root = Some r" "rs_tree_format root = Some fmt"
    and dir: "file_bytes dir \<subseteq>\<^sub>m file_bytes dir'" and db': "tables_ok db'" "tree_ok db' ImmutableBlob (r\<lparr>mr_root_node_id := Some nid\<rparr>)"
    and S: "S \<subseteq> {..<rs_size_bytes root}"
    and key: "\<And>c. c * TREE_CHUNK_BYTES < rs_size_bytes root \<Longrightarrow> chunk_key db' (r\<lparr>mr_root_node_id := Some nid\<rparr>) c =
        (case bt_get chunks c of Some ch \<Rightarrow> Some (cr_blob_key ch) | None \<Rightarrow> chunk_key db r c)"
    and st: "stored dir' images chunks" "images_ok (rs_size_bytes root) (tree_byte db dir root) new S images"
  shows "cow_root_ok db' dir' (CowBacking (Some nid) target (rs_size_bytes root) fmt)"
    "tree_byte db' dir' (CowBacking (Some nid) target (rs_size_bytes root) fmt) x = patched (tree_byte db dir root) new S x"
proof -
  let ?new = "CowBacking (Some nid) target (rs_size_bytes root) fmt" and ?r = "r\<lparr>mr_root_node_id := Some nid\<rparr>" and ?C = TREE_CHUNK_BYTES
  have r': "tree_reader_of ?new = Some ?r" using r by (auto simp: tree_reader_of_def split: sum.splits)
  have size: "tg_size_bytes (mr_geometry r) = rs_size_bytes root" by (rule cow_reader [OF ok]) (use r(1) in simp)
  have old: "tree_ok db ImmutableBlob r" "blobs_ok db dir r" using ok r(1) by (auto simp: cow_root_ok_def)
  have blob: "file_bytes dir' k = Some bs" if "file_bytes dir k = Some bs" for k bs
    using dir that by (auto simp: map_le_def dom_def)
  note chunk = stored_chunks(4) [OF st]
  have blobs: "is_ok (new_blob_key k) \<and> (\<exists>bs. file_bytes dir' k = Some bs \<and> length bs = ?C)"
    if c: "c * ?C < rs_size_bytes root" "chunk_key db' ?r c = Some k" for c k
  proof (cases "bt_get chunks c")
    case None
    then show ?thesis using c key [OF c(1)] old(2) size blob unfolding blobs_ok_def by (metis option.simps(4))
  next
    case (Some ch)
    then have "k = cr_blob_key ch" using c key [OF c(1)] by simp
    then show ?thesis using chunk [OF Some] st(1) Some by (auto simp: chunk_shows_def stored_def)
  qed
  then show "cow_root_ok db' dir' ?new"
    using ok db' r' size by (simp add: cow_root_ok_def blobs_ok_def)
  show "tree_byte db' dir' ?new x = patched (tree_byte db dir root) new S x"
  proof (cases "x < rs_size_bytes root")
    case False
    then show ?thesis using S by (auto simp: tree_byte_def patched_def)
  next
    case True
    have c: "x div ?C * ?C < rs_size_bytes root" using True by (simp add: le_less_trans [OF div_times_less_eq_dividend])
    show ?thesis
    proof (cases "bt_get chunks (x div ?C)")
      case None
      then have "x \<notin> S" using stored_chunks(5) [OF st] by blast
      moreover have "the (file_bytes dir' k) = the (file_bytes dir k)" if "chunk_key db r (x div ?C) = Some k" for k
        using that old(2) blob c size unfolding blobs_ok_def by fastforce
      ultimately show ?thesis using True key [OF c] None r(1) r'
        by (auto simp: tree_byte_def patched_def split: option.split)
    next
      case (Some ch)
      then obtain data where data: "file_bytes dir' (cr_blob_key ch) = Some data" "chunk_shows (rs_size_bytes root) (patched (tree_byte db dir root) new S) (x div ?C) data"
        using chunk by blast
      have "x mod ?C < ?C" by (simp add: chunk_bytes_eq)
      then have "data ! (x mod ?C) = patched (tree_byte db dir root) new S x" using data(2) True by (auto simp: chunk_shows_def)
      then show ?thesis using True key [OF c] Some r' data(1) by (simp add: tree_byte_def)
    qed
  qed
qed

lemma compact_snapshot_cases:
  assumes ok: "cow_root_ok db dir (sn_root sn)" "db_wf db" "fresh_ids (cc_ids cc) db" "valid_id eid" "\<And>xs. mset (cc_order cc xs) = mset xs"
      "fresh_keys (cc_keys cc) (dir, k)"
    and ov: "overlay_in (rs_base_wal_seq (sn_root sn)) (sn_target_wal_seq sn) (rs_size_bytes (sn_root sn)) (sn_overlay sn)"
    and run: "compact_snapshot cc eid sn (db, dir, k) = ((db', dir', k'), res)"
  obtains (unchanged) "db' = db" "file_bytes dir \<subseteq>\<^sub>m file_bytes dir'" "\<And>x. res = Inr x \<Longrightarrow> cx_outcome x \<noteq> CompactionPublished"
      "fresh_keys (cc_keys cc) (dir', k')"
  | (published) x new_root where "res = Inr x" "cx_outcome x = CompactionPublished" "cx_published_root x = Some new_root"
      "kept (cc_ids cc) db db'" "tables_ok db'" "file_bytes dir \<subseteq>\<^sub>m file_bytes dir'" "db_wf db'"
      "cow_root_ok db' dir' new_root" "compacts (tree_byte db' dir') sn new_root"
      "map_err catalog_err (load_export_head db_ok db' eid) = to_export_head new_root"
      "fresh_keys (cc_keys cc) (dir', k')"
      "\<And>ids'. fresh_ids ids' db \<Longrightarrow> range ids' \<inter> range (cc_ids cc) = {} \<Longrightarrow> fresh_ids ids' db'"
proof -
  let ?root = "sn_root sn" and ?store = "sqlite_tree_store (cc_db cc) db"
  let ?slices = "compact_slices ?store (get_blob (cc_io cc) dir) sn ({}, []) (all_slices (sn_overlay sn))"
  show thesis
  proof (cases "sn_target_wal_seq sn \<le> rs_base_wal_seq ?root \<or> all_slices (sn_overlay sn) = [] \<or> \<not> is_ok ?slices")
    case True
    then have "db' = db \<and> dir' = dir \<and> k' = k \<and> (\<forall>x. res = Inr x \<longrightarrow> cx_outcome x \<noteq> CompactionPublished)"
      using run by (cases ?slices) (auto simp: compact_snapshot_def Let_def split: if_splits)
    then show thesis using unchanged ok(6) by simp
  next
    case False
    then obtain visible images where sl: "?slices = Inr (visible, images)" by (auto simp: is_ok_iff)
    obtain st1 wres where wr: "write_leaf_blobs (cc_io cc) (cc_keys cc) ([], 0) images (dir, k) = (st1, wres)"
      by (cases "write_leaf_blobs (cc_io cc) (cc_keys cc) ([], 0) images (dir, k)")
    have "stored (fst (dir, k)) [] []" by (simp add: stored_def bt_sorted_def bt_get_def fun_eq_iff)
    note blobs = write_leaf_blobs_ok [OF wr ok(6) this, simplified]
    show thesis
    proof (cases wres)
      case (Inl e)
      then have "db' = db \<and> (dir', k') = st1 \<and> (\<forall>x. res = Inr x \<longrightarrow> cx_outcome x \<noteq> CompactionPublished)"
        using run sl wr False by (cases st1) (auto simp: compact_snapshot_def Let_def)
      then show thesis using unchanged blobs by (metis fst_conv)
    next
      case (Inr w)
      obtain chunks written where w: "w = (chunks, written)" by (cases w)
      let ?S = "{x. overlay_byte (sn_overlay sn) x \<noteq> None}" and ?new = "\<lambda>x. the (overlay_byte (sn_overlay sn) x)"
      obtain dir1 k1 where st1: "st1 = (dir1, k1)" by (cases st1)
      obtain db1 pres where p1: "publish_lazy_compaction cc eid ?root (sn_target_wal_seq sn) (map snd chunks) db = (db1, pres)"
        by (cases "publish_lazy_compaction cc eid ?root (sn_target_wal_seq sn) (map snd chunks) db")
      have "compact_snapshot cc eid sn (db, dir, k) = then_st ((db1, dir1, k1), pres) (\<lambda>st (outcome, published).
         (st, Inr \<lparr>cx_export_id = eid, cx_base_wal_seq = rs_base_wal_seq ?root, cx_target_wal_seq = sn_target_wal_seq sn,
           cx_compacted_records = card visible, cx_written_leaf_blobs = written, cx_outcome = outcome, cx_published_root = published\<rparr>))"
        using sl wr False Inr w st1 p1 by (simp add: compact_snapshot_def Let_def)
      then have pub: "publish_lazy_compaction cc eid ?root (sn_target_wal_seq sn) (map snd chunks) db = (db', pres)" "dir' = fst st1" "(dir', k') = st1"
          "\<And>x. res = Inr x \<Longrightarrow> pres = Inr (cx_outcome x, cx_published_root x)"
          "\<And>o' r. pres = Inr (o', r) \<Longrightarrow> \<exists>x. res = Inr x \<and> cx_outcome x = o' \<and> cx_published_root x = r"
        using run p1 st1 by (cases pres; auto)+
      have stored: "stored dir' images chunks" using blobs Inr w pub(2) by simp
      have "images_ok (rs_size_bytes ?root) (tree_byte db dir ?root) ?new {} []"
        by (simp add: images_ok_def bt_sorted_def bt_get_def)
      from compact_slices_ok [OF _ _ this sl] load_committed_chunk_ok [OF ok(1)] overlay_slices_show [OF ov]
      have images: "images_ok (rs_size_bytes ?root) (tree_byte db dir ?root) ?new ?S images"
        unfolding all_slices_cover by simp
      note cs = stored_chunks [OF stored images]
      from ok(1-5) cs(2,1) pub(1) show thesis
      proof (cases rule: publish_lazy_cases)
        case unchanged
        then show thesis using that(1) blobs pub(2-4) by metis
      next
        case (published fmt r)
        let ?nr = "CowBacking (Some (cc_ids cc 0)) (sn_target_wal_seq sn) (rs_size_bytes ?root) fmt"
        have sub: "?S \<subseteq> {..<rs_size_bytes ?root}" using overlay_in_size [OF ov] by auto
        have grow: "file_bytes dir \<subseteq>\<^sub>m file_bytes dir'" using blobs pub(2) by simp
        note nr = new_root_ok [OF ok(1) published(1,2) grow published(5,6) sub published(7) [unfolded cs(3)] stored images]
        have "tree_byte db' dir' ?root = tree_byte db dir ?root" by (rule kept_root(2) [OF published(4) ok(3) published(5) ok(1) grow])
        then have "compacts (tree_byte db' dir') sn ?nr"
          unfolding compacts_def using nr(2) by (auto simp: patched_def split: option.split)
        then show thesis using that(2) pub(5) [OF published(3)] published nr(1) grow blobs pub(3) by metis
      qed
    qed
  qed
qed

section \<open>Properties\<close>

text \<open>
  C5. Compaction is correct. Whatever it returns, every well-formed tree stays well formed and
  keeps its bytes, the compacted one and those of clones included. If it reports a published
  root, that root is well formed, is the head the catalog now records, has the snapshot's
  target as its checkpoint, and holds the snapshot's overlay over the old bytes; otherwise the
  catalog is unchanged.
\<close>

theorem compact_snapshot_correct:
  assumes "cow_root_ok db dir (sn_root sn)" "db_wf db" "fresh_ids (cc_ids cc) db" "valid_id eid" "\<forall>xs. mset (cc_order cc xs) = mset xs"
    "fresh_keys (cc_keys cc) (dir, k)"
    "overlay_in (rs_base_wal_seq (sn_root sn)) (sn_target_wal_seq sn) (rs_size_bytes (sn_root sn)) (sn_overlay sn)"
    and run: "compact_snapshot cc eid sn (db, dir, k) = ((db', dir', k'), res)"
  shows "(\<forall>root. cow_root_ok db dir root \<longrightarrow> cow_root_ok db' dir' root \<and> tree_byte db' dir' root = tree_byte db dir root) \<and>
    (case res of Inl e \<Rightarrow> db' = db
      | Inr x \<Rightarrow> if cx_outcome x = CompactionPublished
          then (\<exists>new_root. cx_published_root x = Some new_root \<and> cow_root_ok db' dir' new_root \<and> compacts (tree_byte db' dir') sn new_root \<and>
            db_wf db' \<and> map_err catalog_err (load_export_head db_ok db' eid) = to_export_head new_root)
          else db' = db)"
proof -
  have order: "mset (cc_order cc xs) = mset xs" for xs using assms(5) by blast
  show ?thesis
    using assms(1-4) order assms(6,7) run
  proof (cases rule: compact_snapshot_cases)
    case unchanged
    have "kept (cc_ids cc) db db" by (simp add: kept_def)
    moreover have "tables_ok db" using assms(1) by (simp add: cow_root_ok_def)
    ultimately show ?thesis using kept_root [OF _ assms(3) _ _ unchanged(2)] unchanged(1,3) by (auto split: sum.split)
  next
    case (published x new_root)
    then show ?thesis using kept_root [OF published(4) assms(3) published(5) _ published(6)] by auto
  qed
qed

definition sample_compactor :: compactor where
  "sample_compactor = \<lparr>cc_db = db_ok, cc_io = io_ok, cc_keys = (\<lambda>j. replicate (Suc j) (CHR ''k'')),
    cc_ids = (\<lambda>j. replicate (Suc j) (CHR ''n'')), cc_order = id, cc_clock = Inr ''u''\<rparr>"

definition sample_snapshot :: compaction_snapshot where
  "sample_snapshot = \<lparr>sn_root = sample_root, sn_target_wal_seq = 1, sn_wal_debt_bytes = 1, sn_overlay =
    [(8, \<lparr>ext_end = 9, ext_value = \<lparr>oe_seq = 1, oe_record = sample_write, oe_offset = 0\<rparr>\<rparr>)]\<rparr>"

lemma sample_compaction_ok:
  "cow_root_ok sample_db [] sample_root" "fresh_ids (cc_ids sample_compactor) sample_db" "valid_id ''a''"
  "fresh_keys (cc_keys sample_compactor) ([], 0)"
  "overlay_in 0 1 4096 (sn_overlay sample_snapshot)"
proof -
  have "tables_ok sample_db" by (simp add: sample_db_eq tables_ok_def)
  then show "cow_root_ok sample_db [] sample_root"
    using sample_root_ok by (simp add: cow_root_ok_def sample_root_def tree_reader_of_def tree_ok_def blobs_ok_def chunk_key_def split: sum.splits)
  show "fresh_ids (cc_ids sample_compactor) sample_db" "valid_id ''a''"
    by (auto simp: fresh_ids_def sample_compactor_def sample_db_eq valid_id_def NUL_def inj_on_def)
  show "fresh_keys (cc_keys sample_compactor) ([], 0)"
    by (auto simp: fresh_keys_def sample_compactor_def file_bytes_def inj_on_def is_ok_iff new_blob_key_def NUL_def)
  show "overlay_in 0 1 4096 (sn_overlay sample_snapshot)"
    by (auto simp: overlay_in_def overlay_inv_def sample_snapshot_def em_inv_def value_at_def sample_write_def rec_ok_def covers_def range_bytes_def u64_max_def u32_max_def)
qed

definition sample_geometry :: tree_geometry where
  "sample_geometry = projr (new_geometry Bounded32V1 4096)"

lemma sample_geometry_eq:
  "new_geometry Bounded32V1 4096 = Inr sample_geometry" "tg_root_level sample_geometry = 1" "geometry_ok sample_geometry" "tg_size_bytes sample_geometry = 4096"
proof -
  have g: "new_geometry Bounded32V1 4096 = Inr \<lparr>tg_format = Bounded32V1, tg_fanout = 32, tg_chunk_bytes = 2 ^ 25, tg_size_bytes = 4096, tg_root_level = 1\<rparr>"
    by (simp add: new_geometry_def checked_add_def checked_sub_def u64_max_def Let_def chunk_bytes_eq root_level_loop.simps)
  then show *: "new_geometry Bounded32V1 4096 = Inr sample_geometry" "tg_root_level sample_geometry = 1"
    by (simp_all add: sample_geometry_def)
  show "geometry_ok sample_geometry" "tg_size_bytes sample_geometry = 4096"
    by (rule new_geometry_ok [of 4096 Bounded32V1]; use * in \<open>simp add: u64_max_def\<close>)+
qed

lemma sample_slices:
  "compact_slices (sqlite_tree_store db_ok sample_db) (get_blob io_ok []) sample_snapshot ({}, []) (all_slices (sn_overlay sample_snapshot)) =
    Inr ({1}, [(0, copy_at (replicate TREE_CHUNK_BYTES 0) 8 [7])])"
proof -
  have C: "8 div TREE_CHUNK_BYTES = 0" "8 mod TREE_CHUNK_BYTES = 8" "min (TREE_CHUNK_BYTES - 8) (Suc 0) = Suc 0" by (simp_all add: chunk_bytes_eq)
  show ?thesis
    by (simp add: sample_snapshot_def all_slices_eq slice_of_def validate_overlay_slice_range_def sample_write_def sample_root_def
      checked_add_def checked_sub_def u64_max_def apply_overlay_slice_to_chunks_def slice_chunks_loop.simps C Let_def
      load_or_create_root_chunk_def bt_get_def load_committed_chunk_eq cow_load_leaf_def sample_geometry_eq load_leaf_def slice_def)
qed

definition sample_chunk :: chunk_ref where
  "sample_chunk = \<lparr>cr_chunk_index = 0, cr_blob_key = ''k'', cr_len_bytes = TREE_CHUNK_BYTES\<rparr>"

lemma sample_blobs:
  "write_leaf_blobs io_ok (cc_keys sample_compactor) ([], 0) [(0, data)] ([], 0) =
    (([(''k'', data)], 1), Inr ([(0, sample_chunk)], 1))"
  by (simp add: sample_compactor_def sample_chunk_def put_random_blob_def numeral_eq_Suc put_blob_def ensure_root_dir_def io_step_def
      io_ok_def blob_path_def new_blob_key_def NUL_def write_new_file_def file_bytes_def put_file_def sync_blob_directory_def
      new_cow_chunk_ref_def)

definition sample_batch :: tree_record_batch where
  "sample_batch = \<lparr>tb_nodes = [
      \<lparr>tn_id = ''n'', tn_layout_kind = CowImmutableTree, tn_owner_export_id = Some ''a'', tn_kind = Internal, tn_level = 1,
        tn_span_start_bytes = 0, tn_span_len_bytes = 4096\<rparr>,
      \<lparr>tn_id = ''nn'', tn_layout_kind = CowImmutableTree, tn_owner_export_id = Some ''a'', tn_kind = LeafNode, tn_level = 0,
        tn_span_start_bytes = 0, tn_span_len_bytes = 4096\<rparr>],
    tb_edges = [\<lparr>te_parent_node_id = ''n'', te_slot = 0, te_child_node_id = ''nn''\<rparr>],
    tb_leaf_refs = [\<lparr>tl_node_id = ''nn'', tl_storage_kind = ImmutableBlob, tl_storage_key = ''k'', tl_len_bytes = 2 ^ 25\<rparr>]\<rparr>"

lemma sample_plan:
  "plan_chunks store (cc_ids sample_compactor) id (new_planner (cc_ids sample_compactor) sample_geometry ''a'' None) [sample_chunk] =
    Inr sample_batch"
proof -
  have path: "path_for_chunk sample_geometry 0 = Inr \<lparr>tp_chunk_index = 0, tp_slots = [0]\<rparr>"
    using path_for_chunk_ok [OF sample_geometry_eq(3), of 0] by (simp add: sample_geometry_eq digit_def)
  have child: "child_span sample_geometry \<lparr>ns_level = Suc 0, ns_start_bytes = 0, ns_len_bytes = 4096\<rparr> 0 = Inr \<lparr>ns_level = 0, ns_start_bytes = 0, ns_len_bytes = 4096\<rparr>"
    using child_span_ok [OF sample_geometry_eq(3), of "root_span sample_geometry" 0 0] by (simp add: sample_geometry_eq root_span_def)
  have bytes: "tg_chunk_bytes sample_geometry = 2 ^ 25" using sample_geometry_eq(3) by (simp add: geometry_ok_def)
  show ?thesis
    by (simp add: plan_chunks_def plan_chunk_def path child copy_existing_edges_once_def plan_leaf_def new_planner_def Let_def
        sample_chunk_def sample_batch_def sample_compactor_def empty_batch_def root_node_def internal_node_def leaf_node_def
        factory_leaf_ref_def child_edge_def new_node_id_def non_empty_string_def NUL_def root_span_def sample_geometry_eq bytes)
qed

lemma sample_published:
  "\<exists>db'. publish_lazy_compaction sample_compactor ''a'' sample_root 1 [sample_chunk] sample_db =
    (db', Inr (CompactionPublished, Some (CowBacking (Some ''n'') 1 4096 Bounded32V1)))"
proof -
  let ?req = "\<lparr>pu_export_id = ''a'', pu_expected_head = CowHead \<lparr>ch_size_bytes = 4096, ch_root_node_id = None, ch_base_wal_seq = 0, ch_tree_format = Bounded32V1\<rparr>,
    pu_next_head = CowHead \<lparr>ch_size_bytes = 4096, ch_root_node_id = Some ''n'', ch_base_wal_seq = 1, ch_tree_format = Bounded32V1\<rparr>, pu_records = sample_batch\<rparr>"
  have "(case snd (publish_tree_update db_ok (Inr ''u'') ?req sample_db) of
      Inr (Published r) \<Rightarrow> er_head r = pu_next_head ?req | _ \<Rightarrow> False)"
    by (simp add: publish_tree_update_def sample_batch_def sample_db_eq catalog_eval insert_tree_records_def insert_edge_record_def insert_leaf_record_def
        insert_edge_row_def insert_leaf_row_def insert_node_record_def update_heads_def head_row_matches_def set_head_row_def Let_def)
  then obtain db' r where pub: "publish_tree_update db_ok (Inr ''u'') ?req sample_db = (db', Inr (Published r))" "er_head r = pu_next_head ?req"
    by (cases "publish_tree_update db_ok (Inr ''u'') ?req sample_db") (auto split: sum.splits publish_outcome.splits)
  have ids: "cc_ids sample_compactor 0 = ''n''" "cc_order sample_compactor = id" "cc_clock sample_compactor = Inr ''u''" "cc_db sample_compactor = db_ok"
    by (simp_all add: sample_compactor_def)
  show ?thesis using pub
    by (simp add: publish_lazy_compaction_def sample_root_def sample_geometry_eq sample_plan ids new_head_with_tree_format_def
        to_export_head_def root_from_head_def cow_immutable_tree_with_root_and_format_def validate_non_zero_def Let_def)
qed

text \<open>The sample run publishes a root.\<close>

lemma sample_compaction_run:
  "\<exists>db' x. compact_snapshot sample_compactor ''a'' sample_snapshot (sample_db, [], 0) =
    ((db', [(''k'', copy_at (replicate TREE_CHUNK_BYTES 0) 8 [7])], 1), Inr x) \<and> cx_outcome x = CompactionPublished"
proof -
  obtain db' where pub: "publish_lazy_compaction sample_compactor ''a'' sample_root 1 [sample_chunk] sample_db =
    (db', Inr (CompactionPublished, Some (CowBacking (Some ''n'') 1 4096 Bounded32V1)))" using sample_published by blast
  have sel: "cc_db sample_compactor = db_ok" "cc_io sample_compactor = io_ok" "sn_root sample_snapshot = sample_root" "sn_target_wal_seq sample_snapshot = 1"
    "rs_base_wal_seq sample_root = 0" "all_slices (sn_overlay sample_snapshot) \<noteq> []"
    by (simp_all add: sample_compactor_def sample_snapshot_def sample_root_def all_slices_eq)
  show ?thesis by (simp add: compact_snapshot_def sel sample_slices sample_blobs pub Let_def del: write_leaf_blobs.simps One_nat_def)
qed

theorem compact_snapshot_correct_witness:
  "\<exists>db' dir' x new_root. compact_snapshot sample_compactor ''a'' sample_snapshot (sample_db, [], 0) = ((db', dir', 1), Inr x) \<and>
    cx_published_root x = Some new_root \<and> compacts (tree_byte db' dir') sample_snapshot new_root"
proof -
  obtain db' dir' x where run: "compact_snapshot sample_compactor ''a'' sample_snapshot (sample_db, [], 0) = ((db', dir', 1), Inr x)"
      "cx_outcome x = CompactionPublished" using sample_compaction_run by metis
  have sel: "sn_root sample_snapshot = sample_root" "sn_target_wal_seq sample_snapshot = 1" "rs_base_wal_seq sample_root = 0"
      "rs_size_bytes sample_root = 4096" "\<forall>xs. mset (cc_order sample_compactor xs) = mset xs"
    by (simp_all add: sample_snapshot_def sample_root_def sample_compactor_def)
  from compact_snapshot_correct [OF _ sample_db_wf sample_compaction_ok(2,3) sel(5) sample_compaction_ok(4) _ run(1)] sample_compaction_ok run sel
  show ?thesis by auto
qed

end
