(* ===== verification/Wal_Engine.thy ===== *)
theory Wal_Engine
  imports Compaction Export_Runtime Wal_Log
begin

text \<open>
  The WAL-backed durable engine, from \<open>nbd-server/src/engines/wal_durable/{mod,admission}.rs\<close>:
  opening with replay, reads, writes through the log, the compaction policy and the
  coordinator that publishes snapshots and prunes the log. The lemmas are about
  \<open>log_view\<close>: the view shows the records of the log after the root's checkpoint laid over
  the committed tree, and appending, applying and pruning keep it so.
\<close>

section \<open>The engine\<close>

record compaction_policy =
  cpo_background_threshold :: nat
  cpo_hard_threshold :: nat

datatype background_compaction_tick =
    SkippedBelowSoftThreshold
  | SkippedAtHardThreshold
  | SkippedBusy
  | SkippedNoSnapshot
  | Compacted compaction_outcome
  | TickFailed

definition DEFAULT_BACKGROUND_WAL_DEBT_COMPACTION_THRESHOLD_BYTES :: nat where
  "DEFAULT_BACKGROUND_WAL_DEBT_COMPACTION_THRESHOLD_BYTES = 512 * 1024 * 1024"

definition DEFAULT_WAL_DEBT_COMPACTION_THRESHOLD_BYTES :: nat where
  "DEFAULT_WAL_DEBT_COMPACTION_THRESHOLD_BYTES = 2 * 1024 * 1024 * 1024"

definition with_hard_threshold :: "nat \<Rightarrow> compaction_policy" where
  "with_hard_threshold n = \<lparr>cpo_background_threshold = DEFAULT_BACKGROUND_WAL_DEBT_COMPACTION_THRESHOLD_BYTES, cpo_hard_threshold = n\<rparr>"

definition default_compaction_policy :: compaction_policy where
  "default_compaction_policy = with_hard_threshold DEFAULT_WAL_DEBT_COMPACTION_THRESHOLD_BYTES"

datatype committed_reader = ZeroTreeReader | CowTreeReader

text \<open>
  The engine of an open export. The coordinator holds the export's id; an engine opened
  without one never compacts.
\<close>

record wal_durable_engine =
  we_name :: export_name
  we_size_bytes :: nat
  we_block_size :: nat
  we_wal :: local_export_wal
  we_read_view :: read_view
  we_reader :: committed_reader
  we_compaction :: "export_id option"
  we_policy :: compaction_policy

text \<open>
  What the engine shares with the rest of the server: the catalog, the blob directory, the blob
  keys drawn so far and the number of compactions run so far.
\<close>

record wal_world =
  ww_engine :: wal_durable_engine
  ww_db :: catalog_db
  ww_dir :: blob_dir
  ww_keys :: nat
  ww_runs :: nat

record wal_env =
  ve_crc :: "bytes \<Rightarrow> u32"
  ve_wal_io :: io_env
  ve_db :: db_env
  ve_io :: io_env
  ve_runs :: "nat \<Rightarrow> compactor"

record wal_replay_summary =
  wr_replayed_records :: nat
  wr_replayed_through :: wal_seq

section \<open>Opening\<close>

fun replay_loop :: "read_view \<times> wal_replay_summary \<Rightarrow> wal_record list
    \<Rightarrow> (read_view \<times> wal_replay_summary) \<times> (server_error, unit) result" where
  "replay_loop (v, sm) [] = ((v, sm), Inr ())"
| "replay_loop (v, sm) (r # rs) =
    (case apply_wal_record v r of
       (v, Inl e) \<Rightarrow> ((v, sm), Inl e)
     | (v, Inr _) \<Rightarrow> replay_loop (v, \<lparr>wr_replayed_records = wr_replayed_records sm + 1, wr_replayed_through = wrec_seq r\<rparr>) rs)"

definition replay_wal_after ::
  "wal_env \<Rightarrow> local_export_wal \<Rightarrow> read_view \<Rightarrow> root_snapshot
    \<Rightarrow> local_export_wal \<times> (server_error, read_view \<times> wal_replay_summary) result" where
  "replay_wal_after env w v root =
    then_st (replay_after (ve_crc env) (ve_wal_io env) w (rs_base_wal_seq root)) (\<lambda>w records.
      case replay_loop (v, \<lparr>wr_replayed_records = 0, wr_replayed_through = rs_base_wal_seq root\<rparr>) records of
        (_, Inl e) \<Rightarrow> (w, Inl e)
      | ((v, sm), Inr _) \<Rightarrow> (w, Inr (v, sm)))"

definition open_zero_filled ::
  "wal_env \<Rightarrow> export_record \<Rightarrow> local_export_wal \<Rightarrow> local_export_wal \<times> (server_error, wal_durable_engine) result" where
  "open_zero_filled env meta w =
    (if head_layout_kind (er_head meta) \<noteq> CowImmutableTree then (w, Inl (Catalog None))
     else if head_root_node_id (er_head meta) \<noteq> None then (w, Inl (Catalog None))
     else
       let root = root_from_meta meta in
       then_st (replay_wal_after env w (new_view root DEFAULT_READ_CACHE_BYTES) root) (\<lambda>w (v, replay).
         (w, Inr \<lparr>we_name = er_name meta, we_size_bytes = head_size_bytes (er_head meta), we_block_size = er_block_size meta,
           we_wal = w, we_read_view = v, we_reader = ZeroTreeReader, we_compaction = None,
           we_policy = default_compaction_policy\<rparr>)))"

definition validate_head_can_open :: "export_descriptor \<Rightarrow> export_head \<Rightarrow> (server_error, unit) result" where
  "validate_head_can_open d head =
    (if head_layout_kind head \<noteq> CowImmutableTree then Inl (Catalog None) else Inr ())"

definition open_with_compaction_policy ::
  "wal_env \<Rightarrow> export_descriptor \<Rightarrow> local_export_wal \<Rightarrow> export_head \<Rightarrow> compaction_policy
    \<Rightarrow> local_export_wal \<times> (server_error, wal_durable_engine) result" where
  "open_with_compaction_policy env d w head policy =
    (if ed_engine_kind d \<noteq> WalDurable then (w, Inl (Catalog None))
     else
     then_st (w, validate_head_can_open d head) (\<lambda>w _.
     then_st (w, root_from_head head) (\<lambda>w root.
     then_st (replay_wal_after env w (new_view root DEFAULT_READ_CACHE_BYTES) root) (\<lambda>w (v, replay).
       (w, Inr \<lparr>we_name = ed_name d, we_size_bytes = rs_size_bytes root, we_block_size = ed_block_size d,
         we_wal = w, we_read_view = v, we_reader = CowTreeReader, we_compaction = Some (ed_id d), we_policy = policy\<rparr>)))))"

definition open_with_wal_debt_threshold ::
  "wal_env \<Rightarrow> export_descriptor \<Rightarrow> local_export_wal \<Rightarrow> export_head \<Rightarrow> nat
    \<Rightarrow> local_export_wal \<times> (server_error, wal_durable_engine) result" where
  "open_with_wal_debt_threshold env d w head n = open_with_compaction_policy env d w head (with_hard_threshold n)"

definition open_with_cow_tree ::
  "wal_env \<Rightarrow> export_descriptor \<Rightarrow> local_export_wal \<Rightarrow> export_head
    \<Rightarrow> local_export_wal \<times> (server_error, wal_durable_engine) result" where
  "open_with_cow_tree env d w head = open_with_wal_debt_threshold env d w head DEFAULT_WAL_DEBT_COMPACTION_THRESHOLD_BYTES"

section \<open>The coordinator\<close>

definition set_view :: "wal_world \<Rightarrow> read_view \<Rightarrow> wal_world" where
  "set_view s v = s\<lparr>ww_engine := (ww_engine s)\<lparr>we_read_view := v\<rparr>\<rparr>"

definition set_wal :: "wal_world \<Rightarrow> local_export_wal \<Rightarrow> wal_world" where
  "set_wal s w = s\<lparr>ww_engine := (ww_engine s)\<lparr>we_wal := w\<rparr>\<rparr>"

definition prune_published_wal :: "wal_env \<Rightarrow> wal_world \<Rightarrow> wal_seq \<Rightarrow> wal_world" where
  "prune_published_wal env s seq =
    set_wal s (fst (prune_through (ve_crc env) (ve_wal_io env) (we_wal (ww_engine s)) seq))"

definition advance_after_snapshot_compaction ::
  "wal_env \<Rightarrow> wal_world \<Rightarrow> compaction_result \<Rightarrow> compaction_snapshot \<Rightarrow> wal_world \<times> (server_error, unit) result" where
  "advance_after_snapshot_compaction env s result sn =
    (case cx_outcome result of
       CompactionPublished \<Rightarrow>
         then_st (s, ok_or (Catalog None) (cx_published_root result)) (\<lambda>s root.
           let (v, res) = advance_after_compaction (we_read_view (ww_engine s)) root sn in
           then_st (set_view s v, res) (\<lambda>s _.
             (prune_published_wal env s (rs_base_wal_seq root), Inr ())))
     | StalePlan \<Rightarrow> (s, Inr ())
     | NoRecords \<Rightarrow> (s, Inr ()))"

text \<open>Running the compactor on a snapshot, under the compaction lock.\<close>

definition run_compactor ::
  "wal_env \<Rightarrow> wal_world \<Rightarrow> export_id \<Rightarrow> compaction_snapshot \<Rightarrow> wal_world \<times> (server_error, compaction_result) result" where
  "run_compactor env s eid sn =
    (let ((db, dir, k), res) = compact_snapshot (ve_runs env (ww_runs s)) eid sn (ww_db s, ww_dir s, ww_keys s)
     in (s\<lparr>ww_db := db, ww_dir := dir, ww_keys := k, ww_runs := ww_runs s + 1\<rparr>, res))"

definition compact_snapshot_locked ::
  "wal_env \<Rightarrow> wal_world \<Rightarrow> export_id \<Rightarrow> compaction_snapshot \<Rightarrow> wal_world \<times> (server_error, compaction_result) result" where
  "compact_snapshot_locked env s eid sn =
    then_st (run_compactor env s eid sn) (\<lambda>s result.
    then_st (advance_after_snapshot_compaction env s result sn) (\<lambda>s _. (s, Inr result)))"

text \<open>Waiting for the compaction lock has no effect of its own.\<close>

definition coordinator_compact_snapshot ::
  "wal_env \<Rightarrow> wal_world \<Rightarrow> export_id \<Rightarrow> compaction_snapshot \<Rightarrow> wal_world \<times> (server_error, compaction_result) result" where
  "coordinator_compact_snapshot env s eid sn = compact_snapshot_locked env s eid sn"

definition compact_snapshot_best_effort :: "wal_env \<Rightarrow> wal_world \<Rightarrow> export_id \<Rightarrow> compaction_snapshot \<Rightarrow> wal_world" where
  "compact_snapshot_best_effort env s eid sn = fst (coordinator_compact_snapshot env s eid sn)"

definition compact_close_best_effort :: "wal_env \<Rightarrow> wal_world \<Rightarrow> export_id \<Rightarrow> wal_world" where
  "compact_close_best_effort env s eid =
    (case capture_compaction_snapshot (we_read_view (ww_engine s)) of
       Some sn \<Rightarrow> compact_snapshot_best_effort env s eid sn
     | None \<Rightarrow>
         (case to_export_head (vs_root (we_read_view (ww_engine s))) of
            Inr head \<Rightarrow> prune_published_wal env s (head_base_wal_seq head)
          | Inl _ \<Rightarrow> s))"

text \<open>\<open>busy\<close>: another task holds the compaction lock.\<close>

definition compact_background_tick ::
  "wal_env \<Rightarrow> wal_world \<Rightarrow> export_id \<Rightarrow> compaction_policy \<Rightarrow> bool \<Rightarrow> wal_world \<times> background_compaction_tick" where
  "compact_background_tick env s eid policy busy =
    (let debt = vs_wal_debt_bytes (we_read_view (ww_engine s)) in
     if debt < cpo_background_threshold policy then (s, SkippedBelowSoftThreshold)
     else if debt \<ge> cpo_hard_threshold policy then (s, SkippedAtHardThreshold)
     else if busy then (s, SkippedBusy)
     else
     let debt = vs_wal_debt_bytes (we_read_view (ww_engine s)) in
     if debt < cpo_background_threshold policy then (s, SkippedBelowSoftThreshold)
     else if debt \<ge> cpo_hard_threshold policy then (s, SkippedAtHardThreshold)
     else case capture_compaction_snapshot (we_read_view (ww_engine s)) of
       None \<Rightarrow> (s, SkippedNoSnapshot)
     | Some sn \<Rightarrow>
         (case compact_snapshot_locked env s eid sn of
            (s, Inr result) \<Rightarrow> (s, Compacted (cx_outcome result))
          | (s, Inl _) \<Rightarrow> (s, TickFailed)))"

definition compact_write_pressure_best_effort :: "wal_env \<Rightarrow> wal_world \<Rightarrow> export_id \<Rightarrow> nat \<Rightarrow> wal_world" where
  "compact_write_pressure_best_effort env s eid hard_threshold =
    (if vs_wal_debt_bytes (we_read_view (ww_engine s)) < hard_threshold then s
     else case capture_compaction_snapshot (we_read_view (ww_engine s)) of
       None \<Rightarrow> s
     | Some sn \<Rightarrow> fst (compact_snapshot_locked env s eid sn))"

definition compact_if_wal_debt_exceeds_threshold :: "wal_env \<Rightarrow> wal_world \<Rightarrow> wal_world" where
  "compact_if_wal_debt_exceeds_threshold env s =
    (if vs_wal_debt_bytes (we_read_view (ww_engine s)) < cpo_hard_threshold (we_policy (ww_engine s)) then s
     else case we_compaction (ww_engine s) of
       None \<Rightarrow> s
     | Some eid \<Rightarrow> compact_write_pressure_best_effort env s eid (cpo_hard_threshold (we_policy (ww_engine s))))"

section \<open>Requests\<close>

definition committed_read :: "wal_env \<Rightarrow> wal_world \<Rightarrow> tree_read" where
  "committed_read env s =
    (case we_reader (ww_engine s) of
       ZeroTreeReader \<Rightarrow> zero_read_committed
     | CowTreeReader \<Rightarrow> cow_read_committed (sqlite_tree_store (ve_db env) (ww_db s)) (get_blob (ve_io env) (ww_dir s)))"

definition engine_read :: "wal_env \<Rightarrow> wal_world \<Rightarrow> nat \<Rightarrow> nat \<Rightarrow> wal_world \<times> (server_error, bytes) result" where
  "engine_read env s off len =
    (let rng = new_range off len in
     then_st (s, validate_range ''read'' rng (we_size_bytes (ww_engine s))) (\<lambda>s _.
       let (v, res) = view_read (committed_read env s) (we_read_view (ww_engine s)) rng in (set_view s v, res)))"

definition engine_append :: "wal_env \<Rightarrow> wal_world \<Rightarrow> wal_request \<Rightarrow> wal_world \<times> (server_error, wal_record) result" where
  "engine_append env s request =
    (let (w, res) = wal_append (ve_crc env) (ve_wal_io env) (we_wal (ww_engine s)) request in (set_wal s w, res))"

definition engine_apply :: "wal_world \<Rightarrow> wal_record \<Rightarrow> wal_world \<times> (server_error, unit) result" where
  "engine_apply s r = (let (v, res) = apply_wal_record (we_read_view (ww_engine s)) r in (set_view s v, res))"

definition engine_write :: "wal_env \<Rightarrow> wal_world \<Rightarrow> nat \<Rightarrow> bytes \<Rightarrow> wal_world \<times> (server_error, unit) result" where
  "engine_write env s off data =
    then_st (s, validate_request_range ''write'' off (length data) (we_size_bytes (ww_engine s))) (\<lambda>s _.
      if data = [] then (s, Inr ())
      else
      then_st (s, ok_or (OutOfBounds ''write'' off (length data) (we_size_bytes (ww_engine s))) (try_u32 (length data))) (\<lambda>s len.
      then_st (s, new_wal_request (new_range off len) data) (\<lambda>s request.
      then_st (engine_append env s request) (\<lambda>s record.
      then_st (engine_apply s record) (\<lambda>s _.
        (compact_if_wal_debt_exceeds_threshold env s, Inr ()))))))"

definition engine_flush :: "wal_world \<Rightarrow> (server_error, unit) result" where
  "engine_flush s = Inr ()"

fun wal_operation_for :: "nat \<Rightarrow> export_request \<Rightarrow> (server_error, admission_op) result" where
  "wal_operation_for size_bytes (ExportRead off len) = Inr (ReadOp (new_range off len))"
| "wal_operation_for size_bytes (ExportWrite off data) =
    and_then (ok_or (OutOfBounds ''write'' off (length data) size_bytes) (try_u32 (length data))) (\<lambda>len.
      Inr (WriteOp (new_range off len)))"
| "wal_operation_for size_bytes ExportFlush = Inr FlushOp"

fun wal_execute :: "wal_env \<Rightarrow> wal_world \<Rightarrow> export_request \<Rightarrow> wal_world \<times> export_result" where
  "wal_execute env s (ExportRead off len) = then_st (engine_read env s off len) (\<lambda>s data. (s, Inr (ReplyRead data)))"
| "wal_execute env s (ExportWrite off data) = then_st (engine_write env s off data) (\<lambda>s _. (s, Inr ReplyDone))"
| "wal_execute env s ExportFlush = then_st (s, engine_flush s) (\<lambda>s _. (s, Inr ReplyDone))"

definition wal_close :: "wal_env \<Rightarrow> wal_world \<Rightarrow> wal_world \<times> (server_error, unit) result" where
  "wal_close env s =
    (case we_compaction (ww_engine s) of
       None \<Rightarrow> (s, Inr ())
     | Some eid \<Rightarrow> (compact_close_best_effort env s eid, Inr ()))"

section \<open>The bytes of a log\<close>

fun replay_bytes :: "wal_record list \<Rightarrow> (nat \<Rightarrow> u8) \<Rightarrow> nat \<Rightarrow> u8" where
  "replay_bytes [] f = f"
| "replay_bytes (r # rs) f = replay_bytes rs (\<lambda>x. if covers r x then record_byte r x else f x)"

lemma replay_bytes_append: "replay_bytes (a @ b) f = replay_bytes b (replay_bytes a f)"
  by (induction a arbitrary: f) auto

text \<open>The records of a log between two sequence numbers.\<close>

definition recs :: "(bytes \<Rightarrow> u32) \<Rightarrow> local_export_wal \<Rightarrow> wal_seq \<Rightarrow> wal_seq \<Rightarrow> wal_record list" where
  "recs crc w a b = filter (\<lambda>r. a < wrec_seq r \<and> wrec_seq r \<le> b) (wal_log crc w)"

definition payload :: "wal_record list \<Rightarrow> nat" where
  "payload rs = sum_list (map (\<lambda>r. length (wrec_data r)) rs)"

lemma payload_simps [simp]: "payload [] = 0" "payload (r # rs) = length (wrec_data r) + payload rs" "payload (a @ b) = payload a + payload b"
  by (simp_all add: payload_def)

lemma filter_split:
  "sorted_wrt (<) (map f xs) \<Longrightarrow> a \<le> (t :: nat) \<Longrightarrow> t \<le> b \<Longrightarrow>
    filter (\<lambda>x. a < f x \<and> f x \<le> b) xs = filter (\<lambda>x. a < f x \<and> f x \<le> t) xs @ filter (\<lambda>x. t < f x \<and> f x \<le> b) xs"
proof (induction xs)
  case (Cons x xs)
  have "filter (\<lambda>y. a < f y \<and> f y \<le> t) xs = []" if "t < f x" using that Cons.prems(1) by (fastforce simp: filter_empty_conv)
  with Cons show ?case by auto
qed simp

lemma log_sorted:
  assumes "wal_ok crc w"
  shows "sorted_wrt (<) (map wrec_seq (wal_log crc w))"
    "r \<in> set (wal_log crc w) \<Longrightarrow> pruned_through (wal_bounds_of w) < wrec_seq r \<and> wrec_seq r \<le> last_durable (wal_bounds_of w)"
proof -
  note b = local_wal.bounds_law [OF assms]
  have seqs: "map wrec_seq (wal_log crc w) = [pruned_through (wal_bounds_of w) + 1..<pruned_through (wal_bounds_of w) + 1 + length (wal_log crc w)]"
    using b consecutive_seqs by blast
  show "sorted_wrt (<) (map wrec_seq (wal_log crc w))" unfolding seqs by (rule sorted_wrt_upt)
  show "pruned_through (wal_bounds_of w) < wrec_seq r \<and> wrec_seq r \<le> last_durable (wal_bounds_of w)" if "r \<in> set (wal_log crc w)"
    using consecutive_le [OF conjunct1 [OF b] that] b by simp
qed

lemma recs_split: "wal_ok crc w \<Longrightarrow> a \<le> t \<Longrightarrow> t \<le> b \<Longrightarrow> recs crc w a b = recs crc w a t @ recs crc w t b"
  unfolding recs_def by (rule filter_split [OF log_sorted(1)])

lemma recs_all: "wal_ok crc w \<Longrightarrow> filter (\<lambda>r. a < wrec_seq r) (wal_log crc w) = recs crc w a (last_durable (wal_bounds_of w))"
  unfolding recs_def using log_sorted(2) by (intro filter_cong) auto

lemma filter_one: "distinct xs \<Longrightarrow> r \<in> set xs \<Longrightarrow> filter (\<lambda>x. x = r) xs = [r]"
  by (induction xs) (auto simp: filter_empty_conv)

lemma recs_next:
  assumes "wal_ok crc w" "r \<in> set (wal_log crc w)" "wrec_seq r = b + 1"
  shows "recs crc w b (b + 1) = [r]"
proof -
  have d: "distinct (map wrec_seq (wal_log crc w))" using log_sorted(1) [OF assms(1)] by (simp add: strict_sorted_iff)
  then have inj: "inj_on wrec_seq (set (wal_log crc w))" by (simp add: distinct_map)
  have "b < wrec_seq x \<and> wrec_seq x \<le> b + 1 \<longleftrightarrow> x = r" if x: "x \<in> set (wal_log crc w)" for x
    using inj_on_eq_iff [OF inj x assms(2)] assms(3) by linarith
  then have eq: "recs crc w b (b + 1) = filter (\<lambda>x. x = r) (wal_log crc w)"
    unfolding recs_def by (rule filter_cong [OF refl])
  show ?thesis unfolding eq by (rule filter_one [OF conjunct1 [OF d [unfolded distinct_map]] assms(2)])
qed

section \<open>The invariant\<close>

text \<open>
  The view shows the log over the committed tree: the records after the root's checkpoint, up
  to the last applied one. All records after the checkpoint are in the log and fit the export.
\<close>

definition log_view :: "(bytes \<Rightarrow> u32) \<Rightarrow> catalog_db \<Rightarrow> blob_dir \<Rightarrow> local_export_wal \<Rightarrow> read_view \<Rightarrow> bool" where
  "log_view crc db dir w v \<longleftrightarrow> wal_ok crc w \<and> cow_root_ok db dir (vs_root v) \<and> view_inv (tree_byte db dir) v \<and>
    pruned_through (wal_bounds_of w) \<le> rs_base_wal_seq (vs_root v) \<and> vs_last_applied_seq v \<le> last_durable (wal_bounds_of w) \<and>
    (\<forall>r \<in> set (wal_log crc w). rs_base_wal_seq (vs_root v) < wrec_seq r \<longrightarrow> record_fits v r) \<and>
    vs_wal_debt_bytes v = payload (recs crc w (rs_base_wal_seq (vs_root v)) (vs_last_applied_seq v)) \<and>
    (\<forall>x. view_byte (tree_byte db dir) v x =
      replay_bytes (recs crc w (rs_base_wal_seq (vs_root v)) (vs_last_applied_seq v)) (tree_byte db dir (vs_root v)) x)"

lemma log_viewD:
  assumes "log_view crc db dir w v"
  shows "wal_ok crc w" "cow_root_ok db dir (vs_root v)" "view_inv (tree_byte db dir) v"
    "pruned_through (wal_bounds_of w) \<le> rs_base_wal_seq (vs_root v)" "vs_last_applied_seq v \<le> last_durable (wal_bounds_of w)"
    "r \<in> set (wal_log crc w) \<Longrightarrow> rs_base_wal_seq (vs_root v) < wrec_seq r \<Longrightarrow> record_fits v r"
    "vs_wal_debt_bytes v = payload (recs crc w (rs_base_wal_seq (vs_root v)) (vs_last_applied_seq v))"
    "view_byte (tree_byte db dir) v x =
      replay_bytes (recs crc w (rs_base_wal_seq (vs_root v)) (vs_last_applied_seq v)) (tree_byte db dir (vs_root v)) x"
    "rs_base_wal_seq (vs_root v) \<le> vs_last_applied_seq v"
  using assms unfolding log_view_def view_inv_def by blast+

text \<open>The wal grows by a record, or loses records up to the checkpoint.\<close>

lemma recs_append:
  assumes "wal_ok crc w" "wal_log crc w' = wal_log crc w @ [r]" "wrec_seq r = last_durable (wal_bounds_of w) + 1"
    "b \<le> last_durable (wal_bounds_of w)"
  shows "recs crc w' a b = recs crc w a b"
  using assms by (auto simp: recs_def)

lemma recs_prune:
  assumes "wal_ok crc w" "wal_log crc w' = drop k (wal_log crc w)" "pruned_through (wal_bounds_of w) + k \<le> a"
  shows "recs crc w' a b = recs crc w a b"
proof -
  note c = conjunct1 [OF local_wal.bounds_law [OF assms(1)]]
  have split: "wal_log crc w = take k (wal_log crc w) @ wal_log crc w'" using assms(2) by simp
  have "consecutive (pruned_through (wal_bounds_of w) + 1) (take k (wal_log crc w))" using c by (subst (asm) split) simp
  then have "wrec_seq r \<le> a" if "r \<in> set (take k (wal_log crc w))" for r
    using consecutive_le [OF _ that] assms(3) by fastforce
  then have "filter (\<lambda>r. a < wrec_seq r \<and> wrec_seq r \<le> b) (take k (wal_log crc w)) = []"
    by (fastforce simp: filter_empty_conv)
  then show ?thesis unfolding recs_def by (subst split) simp
qed

lemma record_fits_root: "vs_root v' = vs_root v \<Longrightarrow> record_fits v' r = record_fits v r"
  by (simp add: record_fits_def)

lemma append_log_view:
  assumes inv: "log_view crc db dir w v" and room: "wal_room w" and q: "wf_request q"
    and fits: "br_start (wq_range q) + br_len (wq_range q) \<le> rs_size_bytes (vs_root v)"
  obtains w' r where "wal_append crc io_ok w q = (w', Inr r)" "log_view crc db dir w' v" "wal_log crc w' = wal_log crc w @ [r]"
    "wrec_seq r = last_durable (wal_bounds_of w) + 1" "wrec_range r = wq_range q" "wrec_data r = wq_data q"
    "last_durable (wal_bounds_of w') = last_durable (wal_bounds_of w) + 1" "record_fits v r"
    "\<And>a b. b \<le> last_durable (wal_bounds_of w) \<Longrightarrow> recs crc w' a b = recs crc w a b"
proof -
  note d = log_viewD [OF inv]
  obtain w' r where a: "wal_append crc io_ok w q = (w', Inr r)" "wal_ok crc w'" "wal_log crc w' = wal_log crc w @ [r]"
      "wrec_range r = wq_range q" "wrec_data r = wq_data q" "pruned_through (wal_bounds_of w') = pruned_through (wal_bounds_of w)"
    using local_wal.append_law [OF d(1) room q] by blast
  note b = local_wal.bounds_law [OF d(1)] local_wal.bounds_law [OF a(2)]
  have sq: "wrec_seq r = last_durable (wal_bounds_of w) + 1" "last_durable (wal_bounds_of w') = last_durable (wal_bounds_of w) + 1"
    using b a(3,6) by auto
  have "rs_size_bytes (vs_root v) \<le> u64_max" using d(2) by (simp add: cow_root_ok_def)
  then have fit: "record_fits v r" using q fits a(4,5) by (auto simp: record_fits_def rec_ok_def wf_request_def)
  have keep: "b \<le> last_durable (wal_bounds_of w) \<Longrightarrow> recs crc w' a b = recs crc w a b" for a b by (rule recs_append [OF d(1) a(3) sq(1)])
  have "log_view crc db dir w' v"
    unfolding log_view_def a(3) keep [OF d(5)] using a(2,6) d fit sq by auto
  then show thesis by (rule that [OF a(1) _ a(3) sq(1) a(4,5) sq(2) fit keep])
qed

lemma apply_log_view:
  assumes inv: "log_view crc db dir w v" and r: "r \<in> set (wal_log crc w)" "wrec_seq r = vs_last_applied_seq v + 1"
    and bounds: "vs_last_applied_seq v + 1 \<le> u64_max" "vs_wal_debt_bytes v + length (wrec_data r) \<le> u64_max"
  obtains v' where "apply_wal_record v r = (v', Inr ())" "log_view crc db dir w v'" "vs_root v' = vs_root v"
    "vs_last_applied_seq v' = vs_last_applied_seq v + 1" "vs_wal_debt_bytes v' = vs_wal_debt_bytes v + length (wrec_data r)"
    "\<And>x. view_byte (tree_byte db dir) v' x = (if covers r x then record_byte r x else view_byte (tree_byte db dir) v x)"
    "\<And>x. overlay_at (vs_overlay v') x =
      (if covers r x then Some (wrec_seq r, r, x - br_start (wrec_range r)) else overlay_at (vs_overlay v) x)"
proof -
  note d = log_viewD [OF inv]
  have fits: "record_fits v r" using d(6) [OF r(1)] d(9) r(2) by simp
  obtain v' where v': "apply_wal_record v r = (v', Inr ())" "view_inv (tree_byte db dir) v'" "vs_root v' = vs_root v"
    "vs_last_applied_seq v' = wrec_seq r" "vs_wal_debt_bytes v' = vs_wal_debt_bytes v + length (wrec_data r)"
    "\<And>x. overlay_at (vs_overlay v') x =
      (if covers r x then Some (wrec_seq r, r, x - br_start (wrec_range r)) else overlay_at (vs_overlay v) x)"
    by (rule apply_wal_record_ok [OF d(3) fits r(2) bounds]) blast
  note bytes = view_byte_applied [OF v'(6,3), of "tree_byte db dir"]
  have rs: "recs crc w (rs_base_wal_seq (vs_root v)) (vs_last_applied_seq v') =
      recs crc w (rs_base_wal_seq (vs_root v)) (vs_last_applied_seq v) @ [r]"
    unfolding v'(4) r(2) recs_next [OF d(1) r, symmetric] by (rule recs_split [OF d(1,9)]) simp
  have "vs_last_applied_seq v' \<le> last_durable (wal_bounds_of w)" using log_sorted(2) [OF d(1) r(1)] v'(4) by simp
  then have "log_view crc db dir w v'"
    unfolding log_view_def v'(3,5) rs bytes replay_bytes_append using d v'(2) record_fits_root [OF v'(3)] by auto
  then show thesis using that [OF v'(1) _ v'(3)] v'(4-6) r(2) bytes by simp
qed

lemma prune_log_view:
  assumes inv: "log_view crc db dir w v" and room: "wal_room w" and a: "a \<le> rs_base_wal_seq (vs_root v)"
  shows "log_view crc db dir (fst (prune_through crc io_ok w a)) v"
    "last_durable (wal_bounds_of (fst (prune_through crc io_ok w a))) = last_durable (wal_bounds_of w)"
    "\<And>c b. rs_base_wal_seq (vs_root v) \<le> c \<Longrightarrow> recs crc (fst (prune_through crc io_ok w a)) c b = recs crc w c b"
proof -
  note d = log_viewD [OF inv]
  have "a \<le> last_durable (wal_bounds_of w)" using a d(5,9) by simp
  from local_wal.prune_law [OF d(1) room this] obtain w' p k where w': "prune_through crc io_ok w a = (w', Inr p)" "wal_ok crc w'"
      "wal_log crc w' = drop k (wal_log crc w)" "pruned_through (wal_bounds_of w') = pruned_through (wal_bounds_of w) + k"
      "pruned_through (wal_bounds_of w') \<le> max (pruned_through (wal_bounds_of w)) a"
      "last_durable (wal_bounds_of w') = last_durable (wal_bounds_of w)" by blast
  have p: "pruned_through (wal_bounds_of w) + k \<le> rs_base_wal_seq (vs_root v)" using w'(4,5) a d(4) by (simp split: if_splits)
  have rs: "recs crc w' c b = recs crc w c b" if "rs_base_wal_seq (vs_root v) \<le> c" for c b
    by (rule recs_prune [OF d(1) w'(3)]) (use that p in simp)
  have sub: "set (wal_log crc w') \<subseteq> set (wal_log crc w)" using w'(3) by (simp add: set_drop_subset)
  have "log_view crc db dir w' v"
    unfolding log_view_def rs [OF order_refl] using w'(2,4,6) d p sub by auto
  then show "log_view crc db dir (fst (prune_through crc io_ok w a)) v"
    "last_durable (wal_bounds_of (fst (prune_through crc io_ok w a))) = last_durable (wal_bounds_of w)"
    "\<And>c b. rs_base_wal_seq (vs_root v) \<le> c \<Longrightarrow> recs crc (fst (prune_through crc io_ok w a)) c b = recs crc w c b"
    using w'(1,6) rs by simp_all
qed

end
