(* ===== verification/Wal_Durability.thy ===== *)
theory Wal_Durability
  imports Wal_Engine
begin

text \<open>
  What the WAL-durable engine guarantees. Its operations are cut into the steps between
  which another task, or a crash, can come: a read, an append, the application of the
  appended record, the capture of a snapshot, the run of the compactor, the advance of the
  root with the prune, and a crash with a torn write followed by the next open. An invariant
  of all these steps shows that the export always holds the writes so far, in order.
\<close>

section \<open>Steps of the view\<close>

lemma log_view_cache:
  assumes "log_view crc db dir w v" "same_view v v'" "view_inv (tree_byte db dir) v'"
  shows "log_view crc db dir w v'"
proof -
  have s: "vs_root v' = vs_root v" "vs_last_applied_seq v' = vs_last_applied_seq v" "vs_wal_debt_bytes v' = vs_wal_debt_bytes v"
    using same_viewD [OF assms(2)] by simp_all
  show ?thesis
    using assms(1,3) unfolding log_view_def s same_view_byte [OF assms(2)] record_fits_def by blast
qed

lemma log_view_stores:
  assumes "log_view crc db dir w v" "cow_root_ok db' dir' (vs_root v)"
    and eq: "tree_byte db' dir' (vs_root v) = tree_byte db dir (vs_root v)"
  shows "log_view crc db' dir' w v"
  using assms(1,2) unfolding log_view_def view_inv_def view_byte_def eq by blast

text \<open>A snapshot stands for the records between its root's checkpoint and its target.\<close>

definition snap_ok :: "(bytes \<Rightarrow> u32) \<Rightarrow> catalog_db \<Rightarrow> blob_dir \<Rightarrow> local_export_wal \<Rightarrow> compaction_snapshot \<Rightarrow> bool" where
  "snap_ok crc db dir w sn \<longleftrightarrow> cow_root_ok db dir (sn_root sn) \<and> rs_base_wal_seq (sn_root sn) < sn_target_wal_seq sn \<and>
    overlay_in (rs_base_wal_seq (sn_root sn)) (sn_target_wal_seq sn) (rs_size_bytes (sn_root sn)) (sn_overlay sn) \<and>
    sn_wal_debt_bytes sn = payload (recs crc w (rs_base_wal_seq (sn_root sn)) (sn_target_wal_seq sn)) \<and>
    (\<forall>x. (case overlay_byte (sn_overlay sn) x of Some b \<Rightarrow> b | None \<Rightarrow> tree_byte db dir (sn_root sn) x) =
      replay_bytes (recs crc w (rs_base_wal_seq (sn_root sn)) (sn_target_wal_seq sn)) (tree_byte db dir (sn_root sn)) x)"

lemma capture_snap_ok:
  assumes inv: "log_view crc db dir w v" and cap: "capture_compaction_snapshot v = Some sn"
  shows "snap_ok crc db dir w sn" "later_than sn v"
proof -
  note d = log_viewD [OF inv] and c = capture_later [OF log_viewD(3) [OF inv] cap]
  have debt: "sn_wal_debt_bytes sn = vs_wal_debt_bytes v" using cap by (auto simp: capture_compaction_snapshot_def split: if_splits)
  have ov: "overlay_in (rs_base_wal_seq (vs_root v)) (vs_last_applied_seq v) (rs_size_bytes (vs_root v)) (vs_overlay v)"
    using d(3) by (simp add: view_inv_def)
  show "snap_ok crc db dir w sn"
    unfolding snap_ok_def using c(2) d(2) ov debt d(7) d(8) [unfolded view_byte_def] unfolding c(3-5) by simp
  show "later_than sn v" by (rule c(1))
qed

lemma snap_ok_stores:
  assumes "snap_ok crc db dir w sn" "cow_root_ok db' dir' (sn_root sn)"
    and eq: "tree_byte db' dir' (sn_root sn) = tree_byte db dir (sn_root sn)"
  shows "snap_ok crc db' dir' w sn"
  using assms(1,2) unfolding snap_ok_def eq by blast

lemma snap_ok_wal:
  assumes "snap_ok crc db dir w sn" "recs crc w' (rs_base_wal_seq (sn_root sn)) (sn_target_wal_seq sn) =
    recs crc w (rs_base_wal_seq (sn_root sn)) (sn_target_wal_seq sn)"
  shows "snap_ok crc db dir w' sn"
  using assms unfolding snap_ok_def by simp

lemma advance_log_view:
  assumes inv: "log_view crc db dir w v" and sn: "snap_ok crc db dir w sn" "later_than sn v"
    and new: "compacts (tree_byte db dir) sn new_root" "cow_root_ok db dir new_root"
  obtains v' where "advance_after_compaction v new_root sn = (v', Inr ())" "log_view crc db dir w v'" "vs_root v' = new_root"
    "\<And>x. view_byte (tree_byte db dir) v' x = view_byte (tree_byte db dir) v x" "vs_last_applied_seq v' = vs_last_applied_seq v"
proof -
  note d = log_viewD [OF inv]
  have l: "vs_root v = sn_root sn" "sn_target_wal_seq sn \<le> vs_last_applied_seq v" using sn(2) by (auto simp: later_than_def)
  have n: "rs_base_wal_seq new_root = sn_target_wal_seq sn" "rs_size_bytes new_root = rs_size_bytes (sn_root sn)"
      "\<And>x. tree_byte db dir new_root x = replay_bytes (recs crc w (rs_base_wal_seq (sn_root sn)) (sn_target_wal_seq sn)) (tree_byte db dir (sn_root sn)) x"
    using new(1) sn(1) by (auto simp: compacts_def snap_ok_def)
  have lt: "rs_base_wal_seq (sn_root sn) < sn_target_wal_seq sn"
    and debt: "sn_wal_debt_bytes sn = payload (recs crc w (rs_base_wal_seq (sn_root sn)) (sn_target_wal_seq sn))"
    using sn(1) by (simp_all add: snap_ok_def)
  obtain v' where v': "advance_after_compaction v new_root sn = (v', Inr ())" "view_inv (tree_byte db dir) v'" "vs_root v' = new_root"
    "\<And>x. view_byte (tree_byte db dir) v' x = view_byte (tree_byte db dir) v x" "vs_last_applied_seq v' = vs_last_applied_seq v"
    "vs_wal_debt_bytes v' = (if sn_target_wal_seq sn = vs_last_applied_seq v then 0 else vs_wal_debt_bytes v - sn_wal_debt_bytes sn)"
    by (rule advance_after_compaction_ok [OF d(3) sn(2) new(1) lt]) blast
  have split: "recs crc w (rs_base_wal_seq (sn_root sn)) (vs_last_applied_seq v) =
      recs crc w (rs_base_wal_seq (sn_root sn)) (sn_target_wal_seq sn) @ recs crc w (sn_target_wal_seq sn) (vs_last_applied_seq v)"
    by (rule recs_split [OF d(1) less_imp_le [OF lt] l(2)])
  have none: "recs crc w a a = []" for a by (auto simp: recs_def filter_empty_conv)
  have "vs_wal_debt_bytes v' = payload (recs crc w (sn_target_wal_seq sn) (vs_last_applied_seq v))"
    using v'(6) d(7) debt none unfolding l(1) split by simp
  moreover have "view_byte (tree_byte db dir) v' x =
      replay_bytes (recs crc w (sn_target_wal_seq sn) (vs_last_applied_seq v)) (tree_byte db dir new_root) x" for x
    unfolding v'(4) d(8) l(1) split replay_bytes_append by (rule arg_cong [of _ _ "\<lambda>f. replay_bytes _ f x"]) (simp add: n(3) fun_eq_iff)
  moreover have "pruned_through (wal_bounds_of w) \<le> sn_target_wal_seq sn" using d(4) lt unfolding l(1) by simp
  moreover have "record_fits v' r" if "r \<in> set (wal_log crc w)" "sn_target_wal_seq sn < wrec_seq r" for r
    using d(6) [OF that(1)] that(2) lt n(2) unfolding record_fits_def v'(3) l(1) by simp
  ultimately have "log_view crc db dir w v'"
    unfolding log_view_def v'(3,5) n(1) using d(1,5) new(2) v'(2) by blast
  then show thesis using that v' by blast
qed

section \<open>Opening\<close>

text \<open>
  What has to be on disk for an open: a log that reaches from the committed root's checkpoint
  on, with records that fit the export and within the 64-bit counters.
\<close>

definition durable :: "(bytes \<Rightarrow> u32) \<Rightarrow> catalog_db \<Rightarrow> blob_dir \<Rightarrow> local_export_wal \<Rightarrow> root_snapshot \<Rightarrow> bool" where
  "durable crc db dir w root \<longleftrightarrow> wal_ok crc w \<and> cow_root_ok db dir root \<and>
    pruned_through (wal_bounds_of w) \<le> rs_base_wal_seq root \<and> rs_base_wal_seq root \<le> last_durable (wal_bounds_of w) \<and>
    last_durable (wal_bounds_of w) \<le> u64_max \<and>
    payload (recs crc w (rs_base_wal_seq root) (last_durable (wal_bounds_of w))) \<le> u64_max \<and>
    (\<forall>r \<in> set (wal_log crc w). rs_base_wal_seq root < wrec_seq r \<longrightarrow> record_fits (new_view root 0) r)"

definition durable_byte :: "(bytes \<Rightarrow> u32) \<Rightarrow> catalog_db \<Rightarrow> blob_dir \<Rightarrow> local_export_wal \<Rightarrow> root_snapshot \<Rightarrow> nat \<Rightarrow> u8" where
  "durable_byte crc db dir w root =
    replay_bytes (recs crc w (rs_base_wal_seq root) (last_durable (wal_bounds_of w))) (tree_byte db dir root)"

lemma recs_none [simp]: "recs crc w a a = []"
  by (auto simp: recs_def filter_empty_conv)

lemma new_view_log:
  assumes "durable crc db dir w root"
  shows "log_view crc db dir w (new_view root n)"
proof -
  have d: "wal_ok crc w" "cow_root_ok db dir root" "pruned_through (wal_bounds_of w) \<le> rs_base_wal_seq root"
      "rs_base_wal_seq root \<le> last_durable (wal_bounds_of w)"
      "\<And>r. r \<in> set (wal_log crc w) \<Longrightarrow> rs_base_wal_seq root < wrec_seq r \<Longrightarrow> record_fits (new_view root 0) r"
    using assms unfolding durable_def by blast+
  have sel: "vs_root (new_view root k) = root" "vs_last_applied_seq (new_view root k) = rs_base_wal_seq root"
      "vs_wal_debt_bytes (new_view root k) = 0" for k by (simp_all add: new_view_def)
  have "rs_size_bytes root + CACHE_BLOCK_BYTES \<le> u64_max"
    using d(2) by (simp add: cow_root_ok_def chunk_bytes_eq CACHE_BLOCK_BYTES_def)
  note nv = new_view_inv(1) [OF this, of "tree_byte db dir" n] new_view_inv(2)
  show ?thesis
    unfolding log_view_def sel recs_none nv(2) using d nv(1) by (simp add: record_fits_def sel)
qed

lemma log_mem:
  assumes "wal_ok crc w" "pruned_through (wal_bounds_of w) < q" "q \<le> last_durable (wal_bounds_of w)"
  obtains r where "r \<in> set (wal_log crc w)" "wrec_seq r = q"
proof -
  note b = local_wal.bounds_law [OF assms(1)]
  have "map wrec_seq (wal_log crc w) = [pruned_through (wal_bounds_of w) + 1..<pruned_through (wal_bounds_of w) + 1 + length (wal_log crc w)]"
    using b consecutive_seqs by blast
  moreover have "q \<in> set [pruned_through (wal_bounds_of w) + 1..<pruned_through (wal_bounds_of w) + 1 + length (wal_log crc w)]"
    using assms(2,3) b by auto
  ultimately have "q \<in> set (map wrec_seq (wal_log crc w))" by (simp only:)
  then show thesis using that by auto
qed

lemma replay_loop_ok:
  assumes "log_view crc db dir w v" "last_durable (wal_bounds_of w) \<le> u64_max"
    "payload (recs crc w (rs_base_wal_seq (vs_root v)) (last_durable (wal_bounds_of w))) \<le> u64_max"
  shows "\<exists>v' sm'. replay_loop (v, sm) (recs crc w (vs_last_applied_seq v) (last_durable (wal_bounds_of w))) = ((v', sm'), Inr ()) \<and>
    log_view crc db dir w v' \<and> vs_root v' = vs_root v \<and> vs_last_applied_seq v' = last_durable (wal_bounds_of w)"
  using assms
proof (induction "last_durable (wal_bounds_of w) - vs_last_applied_seq v" arbitrary: v sm)
  case 0
  then have "vs_last_applied_seq v = last_durable (wal_bounds_of w)" using log_viewD(5) [OF 0(2)] by simp
  then show ?case using 0(2) by simp
next
  case (Suc n)
  let ?a = "vs_last_applied_seq v" and ?b = "last_durable (wal_bounds_of w)" and ?base = "rs_base_wal_seq (vs_root v)"
  note d = log_viewD [OF Suc.prems(1)]
  have ab: "?a < ?b" using Suc.hyps(2) by simp
  obtain r where r: "r \<in> set (wal_log crc w)" "wrec_seq r = ?a + 1"
    by (rule log_mem [OF d(1), of "?a + 1"]) (use ab d(4,9) in auto)
  have split: "recs crc w ?a ?b = r # recs crc w (?a + 1) ?b"
    using recs_split [OF d(1), of ?a "?a + 1" ?b] recs_next [OF d(1) r] ab by simp
  have "recs crc w ?base ?b = recs crc w ?base ?a @ recs crc w ?a ?b" by (rule recs_split [OF d(1,9)]) (use ab in simp)
  then have bounds: "?a + 1 \<le> u64_max" "vs_wal_debt_bytes v + length (wrec_data r) \<le> u64_max"
    using Suc.prems(2,3) ab d(7) split by simp_all
  obtain v1 where v1: "apply_wal_record v r = (v1, Inr ())" "log_view crc db dir w v1" "vs_root v1 = vs_root v"
      "vs_last_applied_seq v1 = ?a + 1"
    by (rule apply_log_view [OF Suc.prems(1) r bounds]) blast
  have "n = ?b - vs_last_applied_seq v1" using Suc.hyps(2) v1(4) by simp
  from Suc.hyps(1) [OF this v1(2) Suc.prems(2), of "\<lparr>wr_replayed_records = wr_replayed_records sm + 1, wr_replayed_through = wrec_seq r\<rparr>"]
  show ?case using Suc.prems(3) v1 split by simp
qed

text \<open>A well-formed root is what its own export head stands for.\<close>

lemma head_of_root:
  assumes "cow_root_ok db dir root"
  obtains head where "to_export_head root = Inr head" "root_from_head head = Inr root" "head_layout_kind head = CowImmutableTree"
proof -
  obtain nid base n fmt where root: "root = CowBacking nid base n fmt" using assms by (cases root) (auto simp: cow_root_ok_def)
  have "n \<noteq> 0" using assms root by (simp add: cow_root_ok_def)
  then obtain h where h: "new_head_with_tree_format CowImmutableTree nid n base (Some fmt) = Inr h"
    by (auto simp: head_ctor_defs validate_non_zero_def)
  then show thesis using that [of h] root by (simp add: new_head_with_tree_format_Inr_iff root_from_head_def to_export_head_def)
qed

lemma open_ok:
  assumes dur: "durable (ve_crc env) db dir w root" and env: "ve_wal_io env = io_ok"
    and head: "root_from_head head = Inr root" "ed_engine_kind d = WalDurable"
  obtains e where "open_with_cow_tree env d w head = (w, Inr e)" "we_wal e = w" "we_reader e = CowTreeReader"
    "we_size_bytes e = rs_size_bytes root" "we_compaction e = Some (ed_id d)" "vs_root (we_read_view e) = root"
    "log_view (ve_crc env) db dir w (we_read_view e)" "vs_last_applied_seq (we_read_view e) = last_durable (wal_bounds_of w)"
    "view_byte (tree_byte db dir) (we_read_view e) = durable_byte (ve_crc env) db dir w root"
proof -
  let ?v = "new_view root DEFAULT_READ_CACHE_BYTES" and ?sm = "\<lparr>wr_replayed_records = 0, wr_replayed_through = rs_base_wal_seq root\<rparr>"
  have d: "wal_ok (ve_crc env) w" "pruned_through (wal_bounds_of w) \<le> rs_base_wal_seq root" "rs_base_wal_seq root \<le> last_durable (wal_bounds_of w)"
      "last_durable (wal_bounds_of w) \<le> u64_max"
      "payload (recs (ve_crc env) w (rs_base_wal_seq root) (last_durable (wal_bounds_of w))) \<le> u64_max"
    using dur unfolding durable_def by blast+
  have sel: "vs_root ?v = root" "vs_last_applied_seq ?v = rs_base_wal_seq root" by (simp_all add: new_view_def)
  obtain v sm where v: "replay_loop (?v, ?sm) (recs (ve_crc env) w (rs_base_wal_seq root) (last_durable (wal_bounds_of w))) = ((v, sm), Inr ())"
      "log_view (ve_crc env) db dir w v" "vs_root v = root" "vs_last_applied_seq v = last_durable (wal_bounds_of w)"
    using replay_loop_ok [OF new_view_log [OF dur], of DEFAULT_READ_CACHE_BYTES ?sm] d(4,5) unfolding sel by blast
  have "replay_after (ve_crc env) io_ok w (rs_base_wal_seq root) = (w, Inr (recs (ve_crc env) w (rs_base_wal_seq root) (last_durable (wal_bounds_of w))))"
    using local_wal.replay_law [OF d(1-3)] recs_all [OF d(1)] by simp
  then have replay: "replay_wal_after env w ?v root = (w, Inr (v, sm))" using v(1) env by (simp add: replay_wal_after_def)
  have "head_layout_kind head = CowImmutableTree" using head(1) by (auto simp: root_from_head_def split: if_splits)
  with replay head have "open_with_cow_tree env d w head = (w, Inr \<lparr>we_name = ed_name d, we_size_bytes = rs_size_bytes root,
      we_block_size = ed_block_size d, we_wal = w, we_read_view = v, we_reader = CowTreeReader, we_compaction = Some (ed_id d),
      we_policy = with_hard_threshold DEFAULT_WAL_DEBT_COMPACTION_THRESHOLD_BYTES\<rparr>)"
    by (simp add: open_with_cow_tree_def open_with_wal_debt_threshold_def open_with_compaction_policy_def validate_head_can_open_def)
  moreover have "view_byte (tree_byte db dir) v = durable_byte (ve_crc env) db dir w root"
    using log_viewD(8) [OF v(2)] unfolding v(3,4) durable_byte_def by blast
  ultimately show thesis using that v(2-4) by simp
qed

text \<open>What a crash leaves of the log: its files, the newest one possibly with a torn frame at the end.\<close>

definition crash_dir :: "(bytes \<Rightarrow> u32) \<Rightarrow> local_export_wal \<Rightarrow> wal_dir \<Rightarrow> bool" where
  "crash_dir crc w dir \<longleftrightarrow> (\<exists>segs torn. wal_inv crc w segs \<and> represents crc dir segs torn \<and> torn_tail crc torn)"

lemma crash_reopen:
  assumes "crash_dir crc w dir" "SEGMENT_HEADER_LEN < target"
  obtains dir' w' where "open_local_wal crc io_ok dir target = (dir', Inr w')" "wal_ok crc w'" "wal_log crc w' = wal_log crc w"
    "wal_bounds_of w' = wal_bounds_of w"
proof -
  obtain segs torn where s: "wal_inv crc w segs" "represents crc dir segs torn" "torn_tail crc torn"
    using assms(1) by (auto simp: crash_dir_def)
  then have "wf_segs crc segs" by (simp add: wal_inv_def)
  from open_recovers [OF s(2) this s(3) assms(2)] obtain dir' w' where
    "open_local_wal crc io_ok dir target = (dir', Inr w')" "wal_inv crc w' segs" by blast
  then show thesis using that s(1) by (auto simp: wal_ok_def wal_log_inv wal_bounds_inv)
qed

lemma crash_durable:
  assumes "durable crc db dir w root" "wal_ok crc w'" "wal_log crc w' = wal_log crc w" "wal_bounds_of w' = wal_bounds_of w"
  shows "durable crc db dir w' root" "durable_byte crc db dir w' root = durable_byte crc db dir w root"
proof -
  have "recs crc w' = recs crc w" using assms(3) by (simp add: recs_def fun_eq_iff)
  then show "durable crc db dir w' root" "durable_byte crc db dir w' root = durable_byte crc db dir w root"
    using assms unfolding durable_def durable_byte_def by simp_all
qed

section \<open>The system\<close>

text \<open>
  An open export with the tasks at work on it: the record appended and not yet applied (by
  the holder of the write lock), the snapshot being compacted and the result of its
  compaction (by the holder of the compaction lock), and, as a history, the records applied
  since the start, oldest first.
\<close>

record wal_system =
  sy_world :: wal_world
  sy_append :: "wal_record option"
  sy_snapshot :: "compaction_snapshot option"
  sy_result :: "compaction_result option"
  sy_writes :: "wal_record list"

abbreviation world_view :: "wal_world \<Rightarrow> read_view" where
  "world_view s \<equiv> we_read_view (ww_engine s)"

abbreviation world_wal :: "wal_world \<Rightarrow> local_export_wal" where
  "world_wal s \<equiv> we_wal (ww_engine s)"

text \<open>
  The limits the 64-bit counters of the log and the view put on a write. A compaction that
  fails midway, or a crash inside it, is a run of the compactor with a failing operation.
\<close>

definition write_room :: "wal_world \<Rightarrow> nat \<Rightarrow> bool" where
  "write_room s n \<longleftrightarrow> wal_room (world_wal s) \<and> vs_wal_debt_bytes (world_view s) + n \<le> u64_max"

inductive wal_step :: "wal_env \<Rightarrow> export_descriptor \<Rightarrow> wal_system \<Rightarrow> wal_system \<Rightarrow> bool" for env d where
  step_read: "engine_read env (sy_world s) off len = (s', res) \<Longrightarrow> len \<le> u32_max \<Longrightarrow> wal_step env d s (s\<lparr>sy_world := s'\<rparr>)"
| step_append: "sy_append s = None \<Longrightarrow> write_room (sy_world s) (length data) \<Longrightarrow> data \<noteq> [] \<Longrightarrow> length data \<le> u32_max \<Longrightarrow>
    validate_request_range ''write'' off (length data) (we_size_bytes (ww_engine (sy_world s))) = Inr () \<Longrightarrow>
    engine_append env (sy_world s) \<lparr>wq_range = new_range off (length data), wq_data = data\<rparr> = (s', Inr r) \<Longrightarrow>
    wal_step env d s (s\<lparr>sy_world := s', sy_append := Some r\<rparr>)"
| step_apply: "sy_append s = Some r \<Longrightarrow> engine_apply (sy_world s) r = (s', Inr ()) \<Longrightarrow>
    wal_step env d s (s\<lparr>sy_world := s', sy_append := None, sy_writes := sy_writes s @ [r]\<rparr>)"
| step_capture: "sy_snapshot s = None \<Longrightarrow> capture_compaction_snapshot (world_view (sy_world s)) = Some sn \<Longrightarrow>
    wal_step env d s (s\<lparr>sy_snapshot := Some sn\<rparr>)"
| step_compact: "sy_snapshot s = Some sn \<Longrightarrow> sy_result s = None \<Longrightarrow> run_compactor env (sy_world s) (ed_id d) sn = (s', Inr x) \<Longrightarrow>
    wal_step env d s (s\<lparr>sy_world := s', sy_result := Some x\<rparr>)"
| step_failed: "sy_snapshot s = Some sn \<Longrightarrow> sy_result s = None \<Longrightarrow> run_compactor env (sy_world s) (ed_id d) sn = (s', Inl e) \<Longrightarrow>
    wal_step env d s (s\<lparr>sy_world := s', sy_snapshot := None\<rparr>)"
| step_advance: "sy_snapshot s = Some sn \<Longrightarrow> sy_result s = Some x \<Longrightarrow> wal_room (world_wal (sy_world s)) \<Longrightarrow>
    advance_after_snapshot_compaction env (sy_world s) x sn = (s', res) \<Longrightarrow>
    wal_step env d s (s\<lparr>sy_world := s', sy_snapshot := None, sy_result := None\<rparr>)"
| step_prune: "sy_snapshot s = None \<Longrightarrow> wal_room (world_wal (sy_world s)) \<Longrightarrow>
    wal_step env d s (s\<lparr>sy_world := prune_published_wal env (sy_world s) (rs_base_wal_seq (vs_root (world_view (sy_world s))))\<rparr>)"
| step_crash: "crash_dir (ve_crc env) (world_wal (sy_world s)) files \<Longrightarrow> SEGMENT_HEADER_LEN < target \<Longrightarrow>
    open_local_wal (ve_crc env) (ve_wal_io env) files target = (files', Inr w) \<Longrightarrow>
    load_export_head (ve_db env) (ww_db (sy_world s)) (ed_id d) = Inr head \<Longrightarrow> open_with_cow_tree env d w head = (w', Inr e) \<Longrightarrow>
    wal_step env d s \<lparr>sy_world = (sy_world s)\<lparr>ww_engine := e\<rparr>, sy_append = None, sy_snapshot = None, sy_result = None,
      sy_writes = sy_writes s @ (case sy_append s of None \<Rightarrow> [] | Some r \<Rightarrow> [r])\<rparr>"

inductive wal_reachable :: "wal_env \<Rightarrow> export_descriptor \<Rightarrow> wal_system \<Rightarrow> wal_system \<Rightarrow> bool" for env d s0 where
  wal_start: "wal_reachable env d s0 s0"
| wal_next: "wal_reachable env d s0 s \<Longrightarrow> wal_step env d s s' \<Longrightarrow> wal_reachable env d s0 s'"

section \<open>The invariant\<close>

text \<open>
  The environment: the files of the log do not fail, every run of the compactor draws node
  ids of its own from one supply of keys, and its hash table lists what was put into it.
  Reads, the catalog and the compactor may fail at any time.
\<close>

definition env_ok :: "wal_env \<Rightarrow> bool" where
  "env_ok env \<longleftrightarrow> ve_wal_io env = io_ok \<and>
    (\<forall>i j. i \<noteq> j \<longrightarrow> range (cc_ids (ve_runs env i)) \<inter> range (cc_ids (ve_runs env j)) = {}) \<and>
    (\<forall>j. cc_keys (ve_runs env j) = cc_keys (ve_runs env 0)) \<and> (\<forall>j xs. mset (cc_order (ve_runs env j) xs) = mset xs)"

lemma env_okD:
  assumes "env_ok env"
  shows "ve_wal_io env = io_ok" "i \<noteq> j \<Longrightarrow> range (cc_ids (ve_runs env i)) \<inter> range (cc_ids (ve_runs env j)) = {}"
    "cc_keys (ve_runs env j) = cc_keys (ve_runs env 0)" "mset (cc_order (ve_runs env j) xs) = mset xs"
proof -
  note e = assms [unfolded env_ok_def]
  show "ve_wal_io env = io_ok" by (rule conjunct1 [OF e])
  show "range (cc_ids (ve_runs env i)) \<inter> range (cc_ids (ve_runs env j)) = {}" if "i \<noteq> j"
    by (rule e [THEN conjunct2, THEN conjunct1, rule_format, OF that])
  show "cc_keys (ve_runs env j) = cc_keys (ve_runs env 0)"
    by (rule e [THEN conjunct2, THEN conjunct2, THEN conjunct1, rule_format])
  show "mset (cc_order (ve_runs env j) xs) = mset xs"
    by (rule e [THEN conjunct2, THEN conjunct2, THEN conjunct2, rule_format])
qed

definition stores_ok :: "wal_env \<Rightarrow> wal_world \<Rightarrow> bool" where
  "stores_ok env s \<longleftrightarrow> db_wf (ww_db s) \<and> (\<forall>j \<ge> ww_runs s. fresh_ids (cc_ids (ve_runs env j)) (ww_db s)) \<and>
    fresh_keys (cc_keys (ve_runs env 0)) (ww_dir s, ww_keys s)"

definition head_root :: "catalog_db \<Rightarrow> export_id \<Rightarrow> root_snapshot \<Rightarrow> bool" where
  "head_root db eid root \<longleftrightarrow> (\<exists>head. load_export_head db_ok db eid = Inr head \<and> root_from_head head = Inr root)"

abbreviation world_byte :: "wal_world \<Rightarrow> root_snapshot \<Rightarrow> nat \<Rightarrow> u8" where
  "world_byte s \<equiv> tree_byte (ww_db s) (ww_dir s)"

abbreviation world_log :: "wal_env \<Rightarrow> wal_world \<Rightarrow> read_view \<Rightarrow> bool" where
  "world_log env s v \<equiv> log_view (ve_crc env) (ww_db s) (ww_dir s) (world_wal s) v"

definition world_inv :: "wal_env \<Rightarrow> export_id \<Rightarrow> wal_world \<Rightarrow> bool" where
  "world_inv env eid s \<longleftrightarrow> env_ok env \<and> valid_id eid \<and> stores_ok env s \<and> world_log env s (world_view s) \<and>
    we_reader (ww_engine s) = CowTreeReader \<and> we_size_bytes (ww_engine s) = rs_size_bytes (vs_root (world_view s)) \<and>
    we_compaction (ww_engine s) = Some eid \<and> last_durable (wal_bounds_of (world_wal s)) \<le> u64_max \<and>
    payload (recs (ve_crc env) (world_wal s) (rs_base_wal_seq (vs_root (world_view s))) (last_durable (wal_bounds_of (world_wal s)))) \<le> u64_max"

lemma world_invD:
  assumes "world_inv env eid s"
  shows "env_ok env" "valid_id eid" "stores_ok env s" "world_log env s (world_view s)" "we_reader (ww_engine s) = CowTreeReader"
    "we_size_bytes (ww_engine s) = rs_size_bytes (vs_root (world_view s))" "we_compaction (ww_engine s) = Some eid"
    "last_durable (wal_bounds_of (world_wal s)) \<le> u64_max"
    "payload (recs (ve_crc env) (world_wal s) (rs_base_wal_seq (vs_root (world_view s))) (last_durable (wal_bounds_of (world_wal s)))) \<le> u64_max"
  using assms unfolding world_inv_def by blast+

definition append_inv :: "wal_env \<Rightarrow> wal_world \<Rightarrow> wal_record option \<Rightarrow> bool" where
  "append_inv env s app \<longleftrightarrow> last_durable (wal_bounds_of (world_wal s)) =
      vs_last_applied_seq (world_view s) + (if app = None then 0 else 1) \<and>
    (\<forall>r. app = Some r \<longrightarrow> r \<in> set (wal_log (ve_crc env) (world_wal s)) \<and> wrec_seq r = vs_last_applied_seq (world_view s) + 1)"

text \<open>The head in the catalog is the view's root, or the root just published for the snapshot.\<close>

definition published_root :: "compaction_result option \<Rightarrow> root_snapshot option" where
  "published_root res = Option.bind res (\<lambda>x. if cx_outcome x = CompactionPublished then cx_published_root x else None)"

definition compaction_inv :: "wal_env \<Rightarrow> export_id \<Rightarrow> wal_world \<Rightarrow> compaction_snapshot option \<Rightarrow> compaction_result option \<Rightarrow> bool" where
  "compaction_inv env eid s snap res \<longleftrightarrow>
    (snap = None \<longrightarrow> res = None) \<and> (published_root res = None \<longrightarrow> head_root (ww_db s) eid (vs_root (world_view s))) \<and>
    (\<forall>x. res = Some x \<longrightarrow> cx_outcome x = CompactionPublished \<longrightarrow> cx_published_root x \<noteq> None) \<and>
    (\<forall>sn. snap = Some sn \<longrightarrow> snap_ok (ve_crc env) (ww_db s) (ww_dir s) (world_wal s) sn \<and> later_than sn (world_view s) \<and>
      (\<forall>root. published_root res = Some root \<longrightarrow> cow_root_ok (ww_db s) (ww_dir s) root \<and>
        compacts (world_byte s) sn root \<and> head_root (ww_db s) eid root))"

definition sys_inv :: "wal_env \<Rightarrow> export_id \<Rightarrow> (nat \<Rightarrow> u8) \<Rightarrow> wal_system \<Rightarrow> bool" where
  "sys_inv env eid f s \<longleftrightarrow> world_inv env eid (sy_world s) \<and> append_inv env (sy_world s) (sy_append s) \<and>
    compaction_inv env eid (sy_world s) (sy_snapshot s) (sy_result s) \<and>
    view_byte (world_byte (sy_world s)) (world_view (sy_world s)) = replay_bytes (sy_writes s) f"

section \<open>Every step keeps the invariant\<close>

lemma set_sel [simp]:
  "world_view (set_view s v) = v" "world_wal (set_view s v) = world_wal s" "we_reader (ww_engine (set_view s v)) = we_reader (ww_engine s)"
  "we_size_bytes (ww_engine (set_view s v)) = we_size_bytes (ww_engine s)" "we_compaction (ww_engine (set_view s v)) = we_compaction (ww_engine s)"
  "ww_db (set_view s v) = ww_db s" "ww_dir (set_view s v) = ww_dir s" "ww_keys (set_view s v) = ww_keys s" "ww_runs (set_view s v) = ww_runs s"
  "world_view (set_wal s w) = world_view s" "world_wal (set_wal s w) = w" "we_reader (ww_engine (set_wal s w)) = we_reader (ww_engine s)"
  "we_size_bytes (ww_engine (set_wal s w)) = we_size_bytes (ww_engine s)" "we_compaction (ww_engine (set_wal s w)) = we_compaction (ww_engine s)"
  "ww_db (set_wal s w) = ww_db s" "ww_dir (set_wal s w) = ww_dir s" "ww_keys (set_wal s w) = ww_keys s" "ww_runs (set_wal s w) = ww_runs s"
  "we_policy (ww_engine (set_view s v)) = we_policy (ww_engine s)" "we_policy (ww_engine (set_wal s w)) = we_policy (ww_engine s)"
  by (simp_all add: set_view_def set_wal_def)

lemma stores_ok_set [simp]: "stores_ok env (set_view s v) = stores_ok env s" "stores_ok env (set_wal s w) = stores_ok env s"
  by (simp_all add: stores_ok_def)

lemma later_than_same: "later_than sn v \<Longrightarrow> same_view v v' \<Longrightarrow> later_than sn v'"
  by (drule same_viewD, elim conjE) (simp only: later_than_def simp_thms)

text \<open>Only the cache changes in a read.\<close>

lemma engine_read_view:
  assumes inv: "world_inv env eid s" and run: "engine_read env s off len = (s', res)" and len: "len \<le> u32_max"
  obtains v where "s' = set_view s v" "same_view (world_view s) v" "view_inv (world_byte s) v"
    "\<And>data. res = Inr data \<Longrightarrow> off + len \<le> we_size_bytes (ww_engine s) \<and>
      data = map (view_byte (world_byte s) (world_view s)) [off..<off + len]"
proof -
  let ?v = "world_view s" and ?rng = "new_range off len"
  note w = world_invD [OF inv]
  note d = log_viewD [OF w(4)]
  have self: "s = set_view s ?v" by (simp add: set_view_def)
  show thesis
  proof (cases "validate_range ''read'' ?rng (we_size_bytes (ww_engine s))")
    case (Inl e)
    then have "s' = s" "res = Inl e" using run by (auto simp: engine_read_def Let_def)
    then show thesis using that [of ?v] self d(3) by simp
  next
    case (Inr u)
    let ?rd = "cow_read_committed (sqlite_tree_store (ve_db env) (ww_db s)) (get_blob (ve_io env) (ww_dir s))"
    have fit: "off + len \<le> we_size_bytes (ww_engine s)"
      using Inr by (auto simp: validate_range_def validate_request_range_def and_then_Inr_iff checked_arith split: if_splits)
    then have rng: "br_start ?rng + br_len ?rng \<le> rs_size_bytes (vs_root ?v)" "br_len ?rng \<le> u32_max" using len w(6) by simp_all
    obtain v r where vr: "view_read ?rd ?v ?rng = (v, r)" by (cases "view_read ?rd ?v ?rng")
    have s': "s' = set_view s v" "res = r" using run vr Inr w(5) by (simp_all add: engine_read_def committed_read_def Let_def)
    show thesis
    proof (cases r)
      case (Inr data)
      from cow_tree.view_read_ok [OF d(3,2) rng] vr Inr
      have "data = map (view_byte (world_byte s) ?v) [off..<off + len]" "view_inv (world_byte s) v" "same_view ?v v" by auto
      then show thesis using that [of v] s' Inr fit by simp
    next
      case (Inl e)
      obtain plan where plan: "plan_read ?v ?rng = Inr plan" "plan_ok ?v ?rng plan" using plan_read_ok [OF d(3) rng] by blast
      have "v = ?v"
      proof (cases "read_data ?rd ?rng plan")
        case (Inr df)
        obtain data fills where df: "df = (data, fills)" by (cases df)
        note rd = cow_tree.read_data_view [OF d(3,2) plan(2) rng Inr [unfolded df]]
        have "rp_root plan = vs_root ?v" using plan(2) by (simp add: plan_ok_def)
        with cow_tree.read_finish_ok [OF d(3), of fills plan] rd(2) obtain v' where "read_finish ?v plan fills = (v', Inr ())" by auto
        then show ?thesis using vr Inl plan(1) Inr df by (simp add: view_read_def)
      qed (use vr plan(1) in \<open>simp add: view_read_def\<close>)
      then show thesis using that [of ?v] s' Inl d(3) by simp
    qed
  qed
qed

lemma sys_inv_view:
  assumes inv: "sys_inv env eid f s" and v: "same_view (world_view (sy_world s)) v" "view_inv (world_byte (sy_world s)) v"
  shows "sys_inv env eid f (s\<lparr>sy_world := set_view (sy_world s) v\<rparr>)"
proof -
  let ?s = "sy_world s"
  have i: "world_inv env eid ?s" "append_inv env ?s (sy_append s)" "compaction_inv env eid ?s (sy_snapshot s) (sy_result s)"
      "view_byte (world_byte ?s) (world_view ?s) = replay_bytes (sy_writes s) f" using inv unfolding sys_inv_def by blast+
  have same: "vs_root v = vs_root (world_view ?s)" "vs_last_applied_seq v = vs_last_applied_seq (world_view ?s)"
    using same_viewD [OF v(1)] by simp_all
  note w = world_invD [OF i(1)]
  have "world_inv env eid (set_view ?s v)"
    using w log_view_cache [OF w(4) v] unfolding world_inv_def by (simp add: same)
  moreover have "append_inv env (set_view ?s v) (sy_append s)" using i(2) by (simp add: append_inv_def same)
  moreover have "compaction_inv env eid (set_view ?s v) (sy_snapshot s) (sy_result s)"
    using i(3) later_than_same [OF _ v(1)] unfolding compaction_inv_def by (simp add: same)
  moreover have "view_byte (world_byte ?s) v = replay_bytes (sy_writes s) f"
    unfolding i(4) [symmetric] using same_view_byte [OF v(1)] by blast
  ultimately show ?thesis unfolding sys_inv_def by simp
qed

lemma sys_invD:
  assumes "sys_inv env eid f s"
  shows "world_inv env eid (sy_world s)" "append_inv env (sy_world s) (sy_append s)"
    "compaction_inv env eid (sy_world s) (sy_snapshot s) (sy_result s)"
    "view_byte (world_byte (sy_world s)) (world_view (sy_world s)) = replay_bytes (sy_writes s) f"
  using assms unfolding sys_inv_def by blast+

lemma compaction_inv_wal:
  assumes "compaction_inv env eid s snap res"
    and "\<And>sn. snap = Some sn \<Longrightarrow> recs (ve_crc env) w (rs_base_wal_seq (sn_root sn)) (sn_target_wal_seq sn) =
      recs (ve_crc env) (world_wal s) (rs_base_wal_seq (sn_root sn)) (sn_target_wal_seq sn)"
  shows "compaction_inv env eid (set_wal s w) snap res"
  using assms(1) snap_ok_wal [OF _ assms(2)] unfolding compaction_inv_def by simp

lemma sys_inv_append:
  assumes inv: "sys_inv env eid f s" and app: "sy_append s = None" and room: "write_room (sy_world s) (length data)"
    and data: "data \<noteq> []" "length data \<le> u32_max" "off + length data \<le> we_size_bytes (ww_engine (sy_world s))"
  obtains s' r where "engine_append env (sy_world s) \<lparr>wq_range = new_range off (length data), wq_data = data\<rparr> = (s', Inr r)"
    "sys_inv env eid f (s\<lparr>sy_world := s', sy_append := Some r\<rparr>)" "wrec_range r = new_range off (length data)" "wrec_data r = data"
    "we_policy (ww_engine s') = we_policy (ww_engine (sy_world s))" "we_size_bytes (ww_engine s') = we_size_bytes (ww_engine (sy_world s))"
proof -
  let ?s = "sy_world s" and ?q = "\<lparr>wq_range = new_range off (length data), wq_data = data\<rparr>"
  let ?crc = "ve_crc env" and ?w = "world_wal ?s" and ?v = "world_view ?s"
  note i = sys_invD [OF inv]
  note w = world_invD [OF i(1)]
  note d = log_viewD [OF w(4)]
  have size: "off + length data \<le> rs_size_bytes (vs_root ?v)" "rs_size_bytes (vs_root ?v) \<le> u64_max"
    using data(3) w(6) d(2) by (simp_all add: cow_root_ok_def)
  then have q: "wf_request ?q" using data by (simp add: wf_request_def)
  have rm: "wal_room ?w" "vs_wal_debt_bytes ?v + length data \<le> u64_max" using room by (simp_all add: write_room_def)
  obtain w' r where a: "wal_append ?crc io_ok ?w ?q = (w', Inr r)" "world_log env ?s ?v" "log_view ?crc (ww_db ?s) (ww_dir ?s) w' ?v"
      "wal_log ?crc w' = wal_log ?crc ?w @ [r]" "wrec_seq r = last_durable (wal_bounds_of ?w) + 1" "wrec_range r = wq_range ?q" "wrec_data r = wq_data ?q"
      "last_durable (wal_bounds_of w') = last_durable (wal_bounds_of ?w) + 1"
      "\<And>a b. b \<le> last_durable (wal_bounds_of ?w) \<Longrightarrow> recs ?crc w' a b = recs ?crc ?w a b"
    by (rule append_log_view [OF w(4) rm(1) q]) (use size w(4) in auto)
  have applied: "last_durable (wal_bounds_of ?w) = vs_last_applied_seq ?v" using i(2) app by (simp add: append_inv_def)
  have ok': "wal_ok ?crc w'" by (rule log_viewD(1) [OF a(3)])
  have "recs ?crc w' (rs_base_wal_seq (vs_root ?v)) (vs_last_applied_seq ?v + 1) = recs ?crc ?w (rs_base_wal_seq (vs_root ?v)) (vs_last_applied_seq ?v) @ [r]"
    using recs_split [OF ok' d(9), of "vs_last_applied_seq ?v + 1"] recs_next [OF ok', of r "vs_last_applied_seq ?v"] a(4,5,9) applied by simp
  then have pay: "payload (recs ?crc w' (rs_base_wal_seq (vs_root ?v)) (last_durable (wal_bounds_of w'))) \<le> u64_max"
    using rm(2) d(7) a(7,8) applied by simp
  have last: "last_durable (wal_bounds_of w') \<le> u64_max" using rm(1) a(8) by (simp add: wal_room_def)
  have "compaction_inv env eid (set_wal ?s w') (sy_snapshot s) (sy_result s)"
    by (rule compaction_inv_wal [OF i(3)]) (use i(3) applied in \<open>auto simp: compaction_inv_def later_than_def intro!: a(9)\<close>)
  moreover have "world_inv env eid (set_wal ?s w')" unfolding world_inv_def using w a(3) pay last by simp
  moreover have "append_inv env (set_wal ?s w') (Some r)" using a(4,5,8) applied by (simp add: append_inv_def)
  ultimately have "sys_inv env eid f (s\<lparr>sy_world := set_wal ?s w', sy_append := Some r\<rparr>)" using i(4) by (simp add: sys_inv_def)
  moreover have "engine_append env ?s ?q = (set_wal ?s w', Inr r)" using a(1) w(1) by (simp add: engine_append_def env_ok_def)
  ultimately show thesis using that a(6,7) by simp
qed

lemma sys_inv_apply:
  assumes inv: "sys_inv env eid f s" and app: "sy_append s = Some r"
  obtains v where "engine_apply (sy_world s) r = (set_view (sy_world s) v, Inr ())" "vs_root v = vs_root (world_view (sy_world s))"
    "sys_inv env eid f (s\<lparr>sy_world := set_view (sy_world s) v, sy_append := None, sy_writes := sy_writes s @ [r]\<rparr>)"
proof -
  let ?s = "sy_world s" and ?crc = "ve_crc env" and ?w = "world_wal (sy_world s)" and ?v = "world_view (sy_world s)"
  note i = sys_invD [OF inv]
  note w = world_invD [OF i(1)]
  note d = log_viewD [OF w(4)]
  have r: "r \<in> set (wal_log ?crc ?w)" "wrec_seq r = vs_last_applied_seq ?v + 1" "last_durable (wal_bounds_of ?w) = vs_last_applied_seq ?v + 1"
    using i(2) app by (simp_all add: append_inv_def)
  have "recs ?crc ?w (rs_base_wal_seq (vs_root ?v)) (vs_last_applied_seq ?v + 1) = recs ?crc ?w (rs_base_wal_seq (vs_root ?v)) (vs_last_applied_seq ?v) @ [r]"
    using recs_split [OF d(1,9), of "vs_last_applied_seq ?v + 1"] recs_next [OF d(1) r(1,2)] by simp
  then have bounds: "vs_last_applied_seq ?v + 1 \<le> u64_max" "vs_wal_debt_bytes ?v + length (wrec_data r) \<le> u64_max"
    using w(8,9) d(7) r(3) by simp_all
  obtain v where v: "apply_wal_record ?v r = (v, Inr ())" "world_log env ?s v" "vs_root v = vs_root ?v"
    "vs_last_applied_seq v = vs_last_applied_seq ?v + 1" "vs_wal_debt_bytes v = vs_wal_debt_bytes ?v + length (wrec_data r)"
    "\<And>x. view_byte (world_byte ?s) v x = (if covers r x then record_byte r x else view_byte (world_byte ?s) ?v x)"
    "\<And>x. overlay_at (vs_overlay v) x =
      (if covers r x then Some (wrec_seq r, r, x - br_start (wrec_range r)) else overlay_at (vs_overlay ?v) x)"
    by (rule apply_log_view [OF w(4) r(1,2) bounds]) blast
  have seq: "vs_last_applied_seq v = wrec_seq r" using v(4) r(2) by simp
  have later: "later_than sn v" if "later_than sn ?v" for sn by (rule applied_later [OF that v(3) seq r(2) v(5,7)])
  have bytes: "view_byte (world_byte ?s) v = replay_bytes (sy_writes s @ [r]) f"
    by (rule ext) (simp add: v(6) i(4) replay_bytes_append)
  have "world_inv env eid (set_view ?s v)" unfolding world_inv_def using w v(2,3) by simp
  moreover have "append_inv env (set_view ?s v) None" using r(3) v(4) by (simp add: append_inv_def)
  moreover have "compaction_inv env eid (set_view ?s v) (sy_snapshot s) (sy_result s)"
    using i(3) v(3) later unfolding compaction_inv_def by simp
  ultimately have "sys_inv env eid f (s\<lparr>sy_world := set_view ?s v, sy_append := None, sy_writes := sy_writes s @ [r]\<rparr>)"
    using bytes by (simp add: sys_inv_def)
  then show thesis using that v(1,3) by (simp add: engine_apply_def)
qed

lemma sys_inv_capture:
  assumes inv: "sys_inv env eid f s" and cap: "sy_snapshot s = None" "capture_compaction_snapshot (world_view (sy_world s)) = Some sn"
  shows "sys_inv env eid f (s\<lparr>sy_snapshot := Some sn\<rparr>)"
proof -
  note i = sys_invD [OF inv]
  note c = capture_snap_ok [OF world_invD(4) [OF i(1)] cap(2)]
  have "sy_result s = None" using i(3) cap(1) by (simp add: compaction_inv_def)
  then have "compaction_inv env eid (sy_world s) (Some sn) (sy_result s)"
    using i(3) c cap(1) by (simp add: compaction_inv_def published_root_def)
  then show ?thesis using i by (simp add: sys_inv_def)
qed

text \<open>A run of the compactor keeps every tree; a published root is the new head.\<close>

lemma run_compactor_cases:
  assumes inv: "world_inv env eid s" and sn: "snap_ok (ve_crc env) (ww_db s) (ww_dir s) (world_wal s) sn"
    and run: "run_compactor env s eid sn = (s', res)"
  obtains (unchanged) "ww_engine s' = ww_engine s" "stores_ok env s'" "\<And>root. cow_root_ok (ww_db s) (ww_dir s) root \<Longrightarrow>
        cow_root_ok (ww_db s') (ww_dir s') root \<and> world_byte s' root = world_byte s root"
      "ww_db s' = ww_db s" "\<And>x. res = Inr x \<Longrightarrow> cx_outcome x \<noteq> CompactionPublished"
  | (published) x new_root where "ww_engine s' = ww_engine s" "stores_ok env s'" "\<And>root. cow_root_ok (ww_db s) (ww_dir s) root \<Longrightarrow>
        cow_root_ok (ww_db s') (ww_dir s') root \<and> world_byte s' root = world_byte s root"
      "res = Inr x" "cx_outcome x = CompactionPublished" "cx_published_root x = Some new_root"
      "cow_root_ok (ww_db s') (ww_dir s') new_root" "compacts (world_byte s') sn new_root" "head_root (ww_db s') eid new_root"
proof -
  let ?cc = "ve_runs env (ww_runs s)"
  note w = world_invD [OF inv]
  have st: "db_wf (ww_db s)" "\<And>j. ww_runs s \<le> j \<Longrightarrow> fresh_ids (cc_ids (ve_runs env j)) (ww_db s)"
      "fresh_keys (cc_keys (ve_runs env 0)) (ww_dir s, ww_keys s)" using w(3) by (auto simp: stores_ok_def)
  have keys: "cc_keys ?cc = cc_keys (ve_runs env 0)" by (rule env_okD(3) [OF w(1)])
  have disj: "range (cc_ids (ve_runs env j)) \<inter> range (cc_ids ?cc) = {}" if "ww_runs s < j" for j
    by (rule env_okD(2) [OF w(1)]) (use that in simp)
  have ov: "overlay_in (rs_base_wal_seq (sn_root sn)) (sn_target_wal_seq sn) (rs_size_bytes (sn_root sn)) (sn_overlay sn)"
    and ok: "cow_root_ok (ww_db s) (ww_dir s) (sn_root sn)" using sn by (simp_all add: snap_ok_def)
  obtain db dir k where cs: "compact_snapshot ?cc eid sn (ww_db s, ww_dir s, ww_keys s) = ((db, dir, k), res)"
      "s' = s\<lparr>ww_db := db, ww_dir := dir, ww_keys := k, ww_runs := ww_runs s + 1\<rparr>"
    using run by (auto simp: run_compactor_def Let_def split: prod.splits)
  from ok st(1) st(2) [OF order_refl] w(2) env_okD(4) [OF w(1)] st(3) [folded keys] ov cs(1) show thesis
  proof (cases rule: compact_snapshot_cases)
    case unchanged
    have "kept (cc_ids ?cc) (ww_db s) (ww_db s)" by (simp add: kept_def)
    moreover have "tables_ok (ww_db s)" using ok by (simp add: cow_root_ok_def)
    ultimately have "cow_root_ok (ww_db s) dir root \<and> tree_byte (ww_db s) dir root = world_byte s root" if "cow_root_ok (ww_db s) (ww_dir s) root" for root
      using kept_root [OF _ st(2) [OF order_refl] _ that unchanged(2)] by blast
    then show thesis using that(1) cs(2) unchanged st(1,2) keys by (simp add: stores_ok_def)
  next
    case (published x new_root)
    have trees: "cow_root_ok db dir root \<and> tree_byte db dir root = world_byte s root" if "cow_root_ok (ww_db s) (ww_dir s) root" for root
      using kept_root [OF published(4) st(2) [OF order_refl] published(5) that published(6)] by blast
    have "fresh_ids (cc_ids (ve_runs env j)) db" if "ww_runs s < j" for j
      using published(12) [OF st(2) [of j] disj [OF that]] that by simp
    then have "stores_ok env s'" using published(7,11) keys cs(2) by (simp add: stores_ok_def)
    moreover obtain head where "to_export_head new_root = Inr head" "root_from_head head = Inr new_root"
      by (rule head_of_root [OF published(8)])
    then have "head_root db eid new_root" using published(10) by (auto simp: head_root_def map_err_Inr_iff)
    ultimately show thesis using that(2) [of x new_root] cs(2) published trees by simp
  qed
qed

lemma world_inv_stores:
  assumes inv: "world_inv env eid s" and eng: "ww_engine s' = ww_engine s" and st: "stores_ok env s'"
    and trees: "\<And>root. cow_root_ok (ww_db s) (ww_dir s) root \<Longrightarrow> cow_root_ok (ww_db s') (ww_dir s') root \<and> world_byte s' root = world_byte s root"
  shows "world_inv env eid s'" "view_byte (world_byte s') (world_view s) = view_byte (world_byte s) (world_view s)"
proof -
  note w = world_invD [OF inv]
  note t = trees [OF log_viewD(2) [OF w(4)]]
  have "world_log env s' (world_view s)"
    unfolding eng by (rule log_view_stores [OF w(4)]) (use t in simp_all)
  then show "world_inv env eid s'" using w st unfolding world_inv_def eng by simp
  show "view_byte (world_byte s') (world_view s) = view_byte (world_byte s) (world_view s)"
    using t by (auto simp: view_byte_def fun_eq_iff split: option.split)
qed

lemma sys_inv_compact:
  assumes inv: "sys_inv env eid f s" and snap: "sy_snapshot s = Some sn" "sy_result s = None"
    and run: "run_compactor env (sy_world s) eid sn = (s', res)"
  shows "sys_inv env eid f (case res of Inr x \<Rightarrow> s\<lparr>sy_world := s', sy_result := Some x\<rparr> | Inl _ \<Rightarrow> s\<lparr>sy_world := s', sy_snapshot := None\<rparr>)"
proof -
  let ?s = "sy_world s"
  note i = sys_invD [OF inv]
  have sn: "snap_ok (ve_crc env) (ww_db ?s) (ww_dir ?s) (world_wal ?s) sn" "later_than sn (world_view ?s)"
    and head: "head_root (ww_db ?s) eid (vs_root (world_view ?s))"
    using i(3) snap by (simp_all add: compaction_inv_def published_root_def)
  have root: "cow_root_ok (ww_db ?s) (ww_dir ?s) (sn_root sn)" using sn(1) by (simp add: snap_ok_def)
  from i(1) sn(1) run show ?thesis
  proof (cases rule: run_compactor_cases)
    case unchanged
    note k = world_inv_stores [OF i(1) unchanged(1-3)]
    have "snap_ok (ve_crc env) (ww_db s') (ww_dir s') (world_wal ?s) sn" by (rule snap_ok_stores [OF sn(1)]) (use unchanged(3) [OF root] in simp_all)
    then show ?thesis using i k sn(2) head snap unchanged(1,4,5)
      by (cases res) (auto simp: sys_inv_def append_inv_def compaction_inv_def published_root_def)
  next
    case (published x new_root)
    note k = world_inv_stores [OF i(1) published(1-3)]
    have "snap_ok (ve_crc env) (ww_db s') (ww_dir s') (world_wal ?s) sn" by (rule snap_ok_stores [OF sn(1)]) (use published(3) [OF root] in simp_all)
    then show ?thesis using i k sn(2) snap published(1,4-9)
      by (auto simp: sys_inv_def append_inv_def compaction_inv_def published_root_def)
  qed
qed

lemma sys_inv_prune:
  assumes inv: "sys_inv env eid f s" and snap: "sy_snapshot s = None" and room: "wal_room (world_wal (sy_world s))"
  shows "sys_inv env eid f (s\<lparr>sy_world := prune_published_wal env (sy_world s) (rs_base_wal_seq (vs_root (world_view (sy_world s))))\<rparr>)"
proof -
  let ?s = "sy_world s" and ?crc = "ve_crc env" and ?w = "world_wal (sy_world s)" and ?v = "world_view (sy_world s)"
  let ?base = "rs_base_wal_seq (vs_root ?v)"
  note i = sys_invD [OF inv]
  note w = world_invD [OF i(1)]
  define w' where "w' = fst (prune_through ?crc io_ok ?w ?base)"
  have p: "log_view ?crc (ww_db ?s) (ww_dir ?s) w' ?v" "last_durable (wal_bounds_of w') = last_durable (wal_bounds_of ?w)"
      "\<And>b. recs ?crc w' ?base b = recs ?crc ?w ?base b"
    unfolding w'_def using prune_log_view [OF w(4) room order_refl] by simp_all
  have kept: "r \<in> set (wal_log ?crc w')" if "r \<in> set (wal_log ?crc ?w)" "?base < wrec_seq r" for r
  proof -
    have "r \<in> set (recs ?crc ?w ?base (wrec_seq r))" using that by (simp add: recs_def)
    then show ?thesis unfolding p(3) [symmetric] by (simp add: recs_def)
  qed
  have "append_inv env (set_wal ?s w') (sy_append s)"
    using i(2) p(2) kept log_viewD(9) [OF w(4)] by (auto simp: append_inv_def)
  moreover have "world_inv env eid (set_wal ?s w')" unfolding world_inv_def using w p by simp
  moreover have "compaction_inv env eid (set_wal ?s w') (sy_snapshot s) (sy_result s)"
    by (rule compaction_inv_wal [OF i(3)]) (use snap in simp)
  moreover have "prune_published_wal env ?s ?base = set_wal ?s w'"
    by (simp add: prune_published_wal_def w'_def env_okD(1) [OF w(1)])
  ultimately show ?thesis using i(4) by (simp add: sys_inv_def)
qed

lemma sys_inv_advance:
  assumes inv: "sys_inv env eid f s" and snap: "sy_snapshot s = Some sn" "sy_result s = Some x"
    and room: "wal_room (world_wal (sy_world s))"
  obtains s' where "advance_after_snapshot_compaction env (sy_world s) x sn = (s', Inr ())"
    "sys_inv env eid f (s\<lparr>sy_world := s', sy_snapshot := None, sy_result := None\<rparr>)"
proof -
  let ?s = "sy_world s" and ?crc = "ve_crc env" and ?w = "world_wal (sy_world s)" and ?v = "world_view (sy_world s)"
  note i = sys_invD [OF inv]
  note w = world_invD [OF i(1)]
  show thesis
  proof (cases "cx_outcome x = CompactionPublished")
    case False
    then have "published_root (Some x) = None" by (simp add: published_root_def)
    then have "compaction_inv env eid ?s None None"
      using i(3) snap unfolding compaction_inv_def by (simp add: published_root_def)
    then have "sys_inv env eid f (s\<lparr>sy_world := ?s, sy_snapshot := None, sy_result := None\<rparr>)" using i by (simp add: sys_inv_def)
    moreover have "advance_after_snapshot_compaction env ?s x sn = (?s, Inr ())"
      using False by (cases "cx_outcome x") (simp_all add: advance_after_snapshot_compaction_def)
    ultimately show thesis using that by blast
  next
    case True
    then obtain root where root: "cx_published_root x = Some root" using i(3) snap by (auto simp: compaction_inv_def)
    have sn: "snap_ok ?crc (ww_db ?s) (ww_dir ?s) ?w sn" "later_than sn ?v" "cow_root_ok (ww_db ?s) (ww_dir ?s) root"
        "compacts (world_byte ?s) sn root" "head_root (ww_db ?s) eid root"
      using i(3) snap True root by (auto simp: compaction_inv_def published_root_def)
    obtain v where v: "advance_after_compaction ?v root sn = (v, Inr ())" "world_log env ?s v" "vs_root v = root"
        "\<And>y. view_byte (world_byte ?s) v y = view_byte (world_byte ?s) ?v y" "vs_last_applied_seq v = vs_last_applied_seq ?v"
      by (rule advance_log_view [OF w(4) sn(1,2,4,3)]) blast
    have l: "vs_root ?v = sn_root sn" "rs_base_wal_seq root = sn_target_wal_seq sn" "rs_size_bytes root = rs_size_bytes (sn_root sn)"
        "rs_base_wal_seq (sn_root sn) < sn_target_wal_seq sn" "sn_target_wal_seq sn \<le> vs_last_applied_seq ?v"
      using sn(1,2,4) by (auto simp: later_than_def compacts_def snap_ok_def)
    have "recs ?crc ?w (rs_base_wal_seq (vs_root ?v)) (last_durable (wal_bounds_of ?w)) =
        recs ?crc ?w (rs_base_wal_seq (vs_root ?v)) (sn_target_wal_seq sn) @ recs ?crc ?w (sn_target_wal_seq sn) (last_durable (wal_bounds_of ?w))"
      using l log_viewD(5) [OF w(4)] by (intro recs_split [OF log_viewD(1) [OF w(4)]]) auto
    then have "payload (recs ?crc ?w (rs_base_wal_seq root) (last_durable (wal_bounds_of ?w))) \<le> u64_max" using w(9) l(2) by simp
    then have "world_inv env eid (set_view ?s v)" unfolding world_inv_def using w v(2,3) l(1,3) by simp
    moreover have "append_inv env (set_view ?s v) (sy_append s)" using i(2) v(5) by (simp add: append_inv_def)
    moreover have "compaction_inv env eid (set_view ?s v) None None" using sn(5) v(3) by (simp add: compaction_inv_def published_root_def)
    moreover have "view_byte (world_byte ?s) v = replay_bytes (sy_writes s) f" unfolding i(4) [symmetric] by (rule ext) (rule v(4))
    ultimately have "sys_inv env eid f (s\<lparr>sy_world := set_view ?s v, sy_snapshot := None, sy_result := None\<rparr>)" by (simp add: sys_inv_def)
    from sys_inv_prune [OF this] have "sys_inv env eid f (s\<lparr>sy_world := prune_published_wal env (set_view ?s v) (rs_base_wal_seq root),
        sy_snapshot := None, sy_result := None\<rparr>)" using room v(3) by (simp add: sys_inv_def)
    moreover have "advance_after_snapshot_compaction env ?s x sn = (prune_published_wal env (set_view ?s v) (rs_base_wal_seq root), Inr ())"
      using True root v(1) by (simp add: advance_after_snapshot_compaction_def Let_def)
    ultimately show thesis using that by blast
  qed
qed

text \<open>In every state of the system the disk holds the applied writes, and the appended one.\<close>

lemma load_export_head_mono: "load_export_head env db eid = Inr head \<Longrightarrow> load_export_head db_ok db eid = Inr head"
  by (auto simp: load_export_head_def and_then_Inr_iff db_ok_def statement_def split: if_splits)

lemma sys_durable:
  assumes inv: "sys_inv env eid f s" and head: "head_root (ww_db (sy_world s)) eid root"
  shows "durable (ve_crc env) (ww_db (sy_world s)) (ww_dir (sy_world s)) (world_wal (sy_world s)) root \<and>
    durable_byte (ve_crc env) (ww_db (sy_world s)) (ww_dir (sy_world s)) (world_wal (sy_world s)) root =
      replay_bytes (sy_writes s @ (case sy_append s of None \<Rightarrow> [] | Some r \<Rightarrow> [r])) f"
proof -
  let ?s = "sy_world s" and ?crc = "ve_crc env" and ?w = "world_wal (sy_world s)" and ?v = "world_view (sy_world s)"
  let ?b = "last_durable (wal_bounds_of ?w)" and ?a = "vs_last_applied_seq ?v" and ?old = "vs_root ?v"
  note i = sys_invD [OF inv]
  note w = world_invD [OF i(1)]
  note d = log_viewD [OF w(4)]
  have uniq: "root = r" if "head_root (ww_db ?s) eid r" for r using head that by (auto simp: head_root_def)
  have tail: "recs ?crc ?w ?a ?b = (case sy_append s of None \<Rightarrow> [] | Some r \<Rightarrow> [r])"
    using i(2) recs_next [OF d(1)] by (auto simp: append_inv_def split: option.split)
  have old: "recs ?crc ?w (rs_base_wal_seq ?old) ?b = recs ?crc ?w (rs_base_wal_seq ?old) ?a @ recs ?crc ?w ?a ?b"
    by (rule recs_split [OF d(1,9,5)])
  have bytes: "replay_bytes (recs ?crc ?w (rs_base_wal_seq ?old) ?b) (world_byte ?s ?old) =
      replay_bytes (sy_writes s @ (case sy_append s of None \<Rightarrow> [] | Some r \<Rightarrow> [r])) f"
    unfolding old tail replay_bytes_append i(4) [symmetric] by (rule arg_cong [of _ _ "replay_bytes _"]) (simp add: d(8) fun_eq_iff)
  show ?thesis
  proof (cases "published_root (sy_result s)")
    case None
    then have "root = ?old" using uniq i(3) by (simp add: compaction_inv_def)
    then show ?thesis
      using w(8,9) d(1,2,4-6,9) bytes unfolding durable_def durable_byte_def by (auto simp: record_fits_def new_view_def)
  next
    case (Some new)
    then obtain sn where snap: "sy_snapshot s = Some sn" using i(3) by (cases "sy_snapshot s") (auto simp: compaction_inv_def published_root_def)
    then have sn: "snap_ok ?crc (ww_db ?s) (ww_dir ?s) ?w sn" "later_than sn ?v" "cow_root_ok (ww_db ?s) (ww_dir ?s) new"
        "compacts (world_byte ?s) sn new" "root = new"
      using i(3) Some uniq unfolding compaction_inv_def by auto
    have l: "?old = sn_root sn" "rs_base_wal_seq new = sn_target_wal_seq sn" "rs_size_bytes new = rs_size_bytes ?old"
        "rs_base_wal_seq ?old < sn_target_wal_seq sn" "sn_target_wal_seq sn \<le> ?a"
        "\<And>x. world_byte ?s new x = replay_bytes (recs ?crc ?w (rs_base_wal_seq ?old) (sn_target_wal_seq sn)) (world_byte ?s ?old) x"
      using sn(1,2,4) by (auto simp: later_than_def compacts_def snap_ok_def)
    have split: "recs ?crc ?w (rs_base_wal_seq ?old) ?b =
        recs ?crc ?w (rs_base_wal_seq ?old) (sn_target_wal_seq sn) @ recs ?crc ?w (sn_target_wal_seq sn) ?b"
      using l(4,5) d(5) by (intro recs_split [OF d(1)]) auto
    have "durable ?crc (ww_db ?s) (ww_dir ?s) ?w new"
      using w(8,9) d(1,4,5) d(6) sn(3) l(2-5) split unfolding durable_def by (auto simp: record_fits_def new_view_def)
    moreover have "world_byte ?s new = replay_bytes (recs ?crc ?w (rs_base_wal_seq ?old) (sn_target_wal_seq sn)) (world_byte ?s ?old)"
      by (rule ext) (rule l(6))
    then have "durable_byte ?crc (ww_db ?s) (ww_dir ?s) ?w new = replay_bytes (recs ?crc ?w (rs_base_wal_seq ?old) ?b) (world_byte ?s ?old)"
      unfolding durable_byte_def split replay_bytes_append l(2) by simp
    ultimately show ?thesis using bytes sn(5) by simp
  qed
qed

lemma head_exists: "sys_inv env eid f s \<Longrightarrow> \<exists>root. head_root (ww_db (sy_world s)) eid root"
  by (drule sys_invD(3), cases "published_root (sy_result s)", cases "sy_snapshot s")
    (auto simp: compaction_inv_def published_root_def)

definition crashed :: "wal_system \<Rightarrow> wal_durable_engine \<Rightarrow> wal_system" where
  "crashed s e = \<lparr>sy_world = (sy_world s)\<lparr>ww_engine := e\<rparr>, sy_append = None, sy_snapshot = None, sy_result = None,
    sy_writes = sy_writes s @ (case sy_append s of None \<Rightarrow> [] | Some r \<Rightarrow> [r])\<rparr>"

lemma sys_inv_opened:
  assumes env: "env_ok env" "valid_id (ed_id d)" "stores_ok env s" and head: "head_root (ww_db s) (ed_id d) root"
    and dur: "durable (ve_crc env) (ww_db s) (ww_dir s) w root"
    and e: "we_wal e = w" "we_reader e = CowTreeReader" "we_size_bytes e = rs_size_bytes root" "we_compaction e = Some (ed_id d)"
      "vs_root (we_read_view e) = root" "log_view (ve_crc env) (ww_db s) (ww_dir s) w (we_read_view e)"
      "vs_last_applied_seq (we_read_view e) = last_durable (wal_bounds_of w)"
      "view_byte (world_byte s) (we_read_view e) = replay_bytes ws f"
  shows "sys_inv env (ed_id d) f \<lparr>sy_world = s\<lparr>ww_engine := e\<rparr>, sy_append = None, sy_snapshot = None, sy_result = None, sy_writes = ws\<rparr>"
  using assms
  by (simp add: sys_inv_def world_inv_def append_inv_def compaction_inv_def published_root_def durable_def stores_ok_def)

lemma crash_ok:
  assumes inv: "sys_inv env (ed_id d) f s" and d: "ed_engine_kind d = WalDurable"
    and crash: "crash_dir (ve_crc env) (world_wal (sy_world s)) files" "SEGMENT_HEADER_LEN < target"
  obtains files' w head e where "open_local_wal (ve_crc env) (ve_wal_io env) files target = (files', Inr w)"
    "load_export_head db_ok (ww_db (sy_world s)) (ed_id d) = Inr head" "open_with_cow_tree env d w head = (w, Inr e)"
    "sys_inv env (ed_id d) f (crashed s e)"
proof -
  let ?s = "sy_world s" and ?crc = "ve_crc env"
  note w = world_invD [OF sys_invD(1) [OF inv]]
  note io = env_okD(1) [OF w(1)]
  obtain root head where head: "head_root (ww_db ?s) (ed_id d) root" "load_export_head db_ok (ww_db ?s) (ed_id d) = Inr head"
      "root_from_head head = Inr root" using head_exists [OF inv] by (auto simp: head_root_def)
  note dur = sys_durable [OF inv head(1)]
  obtain files' w' where w': "open_local_wal ?crc io_ok files target = (files', Inr w')" "wal_ok ?crc w'"
      "wal_log ?crc w' = wal_log ?crc (world_wal ?s)" "wal_bounds_of w' = wal_bounds_of (world_wal ?s)"
    by (rule crash_reopen [OF crash])
  note dur' = crash_durable [OF conjunct1 [OF dur] w'(2-4)]
  obtain e where e: "open_with_cow_tree env d w' head = (w', Inr e)" "we_wal e = w'" "we_reader e = CowTreeReader"
    "we_size_bytes e = rs_size_bytes root" "we_compaction e = Some (ed_id d)" "vs_root (we_read_view e) = root"
    "log_view ?crc (ww_db ?s) (ww_dir ?s) w' (we_read_view e)" "vs_last_applied_seq (we_read_view e) = last_durable (wal_bounds_of w')"
    "view_byte (world_byte ?s) (we_read_view e) = durable_byte ?crc (ww_db ?s) (ww_dir ?s) w' root"
    by (rule open_ok [OF dur'(1) io head(3) d])
  have "view_byte (world_byte ?s) (we_read_view e) = replay_bytes (sy_writes s @ (case sy_append s of None \<Rightarrow> [] | Some r \<Rightarrow> [r])) f"
    using e(9) dur'(2) dur by simp
  from sys_inv_opened [OF w(1-3) head(1) dur'(1) e(2-8) this]
  have "sys_inv env (ed_id d) f (crashed s e)" unfolding crashed_def .
  then show thesis using that w'(1) io head(2) e(1) by simp
qed

lemma open_kind: "open_with_cow_tree env d w head = (w', Inr e) \<Longrightarrow> ed_engine_kind d = WalDurable"
  by (auto simp: open_with_cow_tree_def open_with_wal_debt_threshold_def open_with_compaction_policy_def split: if_splits)

lemma sys_inv_step:
  assumes "wal_step env d s s'" "sys_inv env (ed_id d) f s"
  shows "sys_inv env (ed_id d) f s'"
  using assms
proof (cases rule: wal_step.cases)
  case (step_read off len t res)
  from sys_invD(1) [OF assms(2)] step_read(2,3) obtain v where "t = set_view (sy_world s) v" "same_view (world_view (sy_world s)) v" "view_inv (world_byte (sy_world s)) v"
    by (rule engine_read_view) blast
  then show ?thesis unfolding step_read(1) using sys_inv_view [OF assms(2)] by simp
next
  case (step_append data off t r)
  have "off + length data \<le> we_size_bytes (ww_engine (sy_world s))"
    using step_append(6) by (auto simp: validate_request_range_def and_then_Inr_iff checked_arith split: if_splits)
  from assms(2) step_append(2-5) this obtain t' r' where
    "engine_append env (sy_world s) \<lparr>wq_range = new_range off (length data), wq_data = data\<rparr> = (t', Inr r')"
    "sys_inv env (ed_id d) f (s\<lparr>sy_world := t', sy_append := Some r'\<rparr>)" by (rule sys_inv_append) blast
  then show ?thesis unfolding step_append(1) using step_append(7) by simp
next
  case (step_apply r t)
  from assms(2) step_apply(2) obtain v where "engine_apply (sy_world s) r = (set_view (sy_world s) v, Inr ())"
    "sys_inv env (ed_id d) f (s\<lparr>sy_world := set_view (sy_world s) v, sy_append := None, sy_writes := sy_writes s @ [r]\<rparr>)"
    by (rule sys_inv_apply) blast
  then show ?thesis unfolding step_apply(1) using step_apply(3) by simp
next
  case (step_capture sn)
  then show ?thesis using sys_inv_capture [OF assms(2)] by simp
next
  case (step_compact sn t x)
  from sys_inv_compact [OF assms(2) step_compact(2-4)] show ?thesis unfolding step_compact(1) by simp
next
  case (step_failed sn t e)
  from sys_inv_compact [OF assms(2) step_failed(2-4)] show ?thesis unfolding step_failed(1) by simp
next
  case (step_advance sn x t res)
  from assms(2) step_advance(2-4) obtain t' where "advance_after_snapshot_compaction env (sy_world s) x sn = (t', Inr ())"
    "sys_inv env (ed_id d) f (s\<lparr>sy_world := t', sy_snapshot := None, sy_result := None\<rparr>)" by (rule sys_inv_advance) blast
  then show ?thesis unfolding step_advance(1) using step_advance(5) by simp
next
  case step_prune
  then show ?thesis using sys_inv_prune [OF assms(2)] by simp
next
  case (step_crash files target files' w head w' e)
  obtain fs' v h e' where c: "open_local_wal (ve_crc env) (ve_wal_io env) files target = (fs', Inr v)"
    "load_export_head db_ok (ww_db (sy_world s)) (ed_id d) = Inr h" "open_with_cow_tree env d v h = (v, Inr e')"
    "sys_inv env (ed_id d) f (crashed s e')"
    by (rule crash_ok [OF assms(2) open_kind [OF step_crash(6)] step_crash(2,3)])
  then have "v = w" "h = head" using step_crash(4) load_export_head_mono [OF step_crash(5)] by auto
  then have "e' = e" using c(3) step_crash(6) by simp
  then show ?thesis using c(4) unfolding step_crash(1) crashed_def by simp
qed

lemma sys_inv_reachable: "wal_reachable env d s0 s \<Longrightarrow> sys_inv env (ed_id d) f s0 \<Longrightarrow> sys_inv env (ed_id d) f s"
  by (induction rule: wal_reachable.induct) (auto intro: sys_inv_step)

lemma engine_read_total:
  assumes inv: "world_inv env eid s" and env: "ve_db env = db_ok" "ve_io env = io_ok"
    and rng: "off + len \<le> we_size_bytes (ww_engine s)" "len \<le> u32_max"
  obtains v where "engine_read env s off len = (set_view s v, Inr (map (view_byte (world_byte s) (world_view s)) [off..<off + len]))"
    "same_view (world_view s) v" "view_inv (world_byte s) v"
proof -
  let ?rng = "new_range off len" and ?v = "world_view s"
  note w = world_invD [OF inv]
  note d = log_viewD [OF w(4)]
  have size: "rs_size_bytes (vs_root ?v) \<le> u64_max" using d(2) by (simp add: cow_root_ok_def)
  have r: "br_start ?rng + br_len ?rng \<le> rs_size_bytes (vs_root ?v)" "br_len ?rng \<le> u32_max" using rng w(6) by simp_all
  obtain v data where "view_read (cow_read_committed (sqlite_tree_store db_ok (ww_db s)) (get_blob io_ok (ww_dir s))) ?v ?rng = (v, Inr data)"
    using cow_tree.view_read_total [OF d(3,2) r cow_read_total [OF d(2)]] by blast
  then have run: "engine_read env s off len = (set_view s v, Inr data)"
    using rng(1) w(5,6) size env
    by (simp add: engine_read_def committed_read_def validate_range_def validate_request_range_def checked_add_def Let_def)
  from inv run rng(2) obtain v' where v': "set_view s v = set_view s v'" "same_view ?v v'" "view_inv (world_byte s) v'"
      "\<And>bs. Inr data = Inr bs \<Longrightarrow> off + len \<le> we_size_bytes (ww_engine s) \<and> bs = map (view_byte (world_byte s) ?v) [off..<off + len]"
    by (rule engine_read_view) blast
  have "v = v'" using arg_cong [OF v'(1), of world_view] by simp
  then show thesis using that run v'(2,3) v'(4) [OF refl] by simp
qed

section \<open>Properties\<close>

definition start_system :: "wal_world \<Rightarrow> wal_durable_engine \<Rightarrow> wal_system" where
  "start_system s e = \<lparr>sy_world = s\<lparr>ww_engine := e\<rparr>, sy_append = None, sy_snapshot = None, sy_result = None, sy_writes = []\<rparr>"

lemma start_inv:
  assumes "env_ok env" "valid_id (ed_id d)" "stores_ok env s" "durable (ve_crc env) (ww_db s) (ww_dir s) w root"
    "load_export_head db_ok (ww_db s) (ed_id d) = Inr head" "root_from_head head = Inr root"
    and run: "open_with_cow_tree env d w head = (w', Inr e)"
  shows "sys_inv env (ed_id d) (durable_byte (ve_crc env) (ww_db s) (ww_dir s) w root) (start_system s e)"
proof -
  obtain e' where e': "open_with_cow_tree env d w head = (w, Inr e')" "we_wal e' = w" "we_reader e' = CowTreeReader"
    "we_size_bytes e' = rs_size_bytes root" "we_compaction e' = Some (ed_id d)" "vs_root (we_read_view e') = root"
    "log_view (ve_crc env) (ww_db s) (ww_dir s) w (we_read_view e')" "vs_last_applied_seq (we_read_view e') = last_durable (wal_bounds_of w)"
    "view_byte (world_byte s) (we_read_view e') = durable_byte (ve_crc env) (ww_db s) (ww_dir s) w root"
    by (rule open_ok [OF assms(4) env_okD(1) [OF assms(1)] assms(6) open_kind [OF run]])
  have "head_root (ww_db s) (ed_id d) root" using assms(5,6) by (auto simp: head_root_def)
  moreover have "view_byte (world_byte s) (we_read_view e') = replay_bytes [] (durable_byte (ve_crc env) (ww_db s) (ww_dir s) w root)"
    using e'(9) by simp
  ultimately have "sys_inv env (ed_id d) (durable_byte (ve_crc env) (ww_db s) (ww_dir s) w root) (start_system s e')"
    unfolding start_system_def by (intro sys_inv_opened [OF assms(1-3) _ assms(4) e'(2-8)])
  then show ?thesis using run e'(1) by simp
qed

text \<open>
  C3. An open export shows every write, crashes included: after any interleaving of reads, writes,
  background and write-pressure compactions, failed compactions, prunes and crashes with
  reopening, a read returns the bytes the export had at the start with the writes since then
  laid over them in order. The writes are all acknowledged ones, and at a crash the one whose
  record was already complete in the log.
\<close>

theorem wal_reads_see_all_writes:
  assumes "env_ok env" "valid_id (ed_id d)" "stores_ok env s0" "durable (ve_crc env) (ww_db s0) (ww_dir s0) w root"
    "load_export_head db_ok (ww_db s0) (ed_id d) = Inr head" "root_from_head head = Inr root"
    "open_with_cow_tree env d w head = (w', Inr e)" "wal_reachable env d (start_system s0 e) s"
    and "engine_read env (sy_world s) off len = (s', Inr data)" "len \<le> u32_max"
  shows "data = map (replay_bytes (sy_writes s) (durable_byte (ve_crc env) (ww_db s0) (ww_dir s0) w root)) [off..<off + len]"
proof -
  note i = sys_invD [OF sys_inv_reachable [OF assms(8) start_inv [OF assms(1-7)]]]
  from i(1) assms(9,10) show ?thesis by (rule engine_read_view) (simp add: i(4))
qed

text \<open>
  C2. A crash loses no acknowledged write and the export can always be opened again: from any
  state an open export can reach, in the middle of a write or of a compaction, with a torn
  frame at the end of the newest segment, opening the log, loading the head and opening the
  engine all succeed, and the engine shows the bytes of the start with all writes since then,
  the one being applied included.
\<close>

theorem wal_crash_loses_no_write:
  assumes "env_ok env" "valid_id (ed_id d)" "stores_ok env s0" "durable (ve_crc env) (ww_db s0) (ww_dir s0) w root"
    "load_export_head db_ok (ww_db s0) (ed_id d) = Inr head" "root_from_head head = Inr root"
    "open_with_cow_tree env d w head = (w', Inr e)" "wal_reachable env d (start_system s0 e) s"
    and "crash_dir (ve_crc env) (world_wal (sy_world s)) files" "SEGMENT_HEADER_LEN < target"
  shows "\<exists>files' w2 head2 e2. open_local_wal (ve_crc env) io_ok files target = (files', Inr w2) \<and>
    load_export_head db_ok (ww_db (sy_world s)) (ed_id d) = Inr head2 \<and> open_with_cow_tree env d w2 head2 = (w2, Inr e2) \<and>
    view_byte (world_byte (sy_world s)) (we_read_view e2) =
      replay_bytes (sy_writes s @ (case sy_append s of None \<Rightarrow> [] | Some r \<Rightarrow> [r])) (durable_byte (ve_crc env) (ww_db s0) (ww_dir s0) w root)"
proof -
  let ?f = "durable_byte (ve_crc env) (ww_db s0) (ww_dir s0) w root"
  obtain files' w2 head2 e2 where c: "open_local_wal (ve_crc env) (ve_wal_io env) files target = (files', Inr w2)"
    "load_export_head db_ok (ww_db (sy_world s)) (ed_id d) = Inr head2" "open_with_cow_tree env d w2 head2 = (w2, Inr e2)"
    "sys_inv env (ed_id d) ?f (crashed s e2)"
    by (rule crash_ok [OF sys_inv_reachable [OF assms(8) start_inv [OF assms(1-7)]] open_kind [OF assms(7)] assms(9,10)])
  from sys_invD(4) [OF c(4)] c(1-3) show ?thesis by (auto simp: crashed_def env_okD(1) [OF assms(1)])
qed

section \<open>A sample export\<close>

definition sample_ids :: "nat \<Rightarrow> nat \<Rightarrow> node_id" where
  "sample_ids j i = replicate (Suc j) (CHR ''n'') @ replicate (Suc i) (CHR ''m'')"

lemma sample_ids_inject: "sample_ids j i = sample_ids j' i' \<longleftrightarrow> j = j' \<and> i = i'"
proof
  assume eq: "sample_ids j i = sample_ids j' i'"
  from arg_cong [OF eq, of "\<lambda>xs. length (filter (\<lambda>c. c = CHR ''n'') xs)"] arg_cong [OF eq, of length]
  show "j = j' \<and> i = i'" by (simp add: sample_ids_def)
qed simp

definition sample_env :: wal_env where
  "sample_env = \<lparr>ve_crc = (\<lambda>_. 0), ve_wal_io = io_ok, ve_db = db_ok, ve_io = io_ok,
    ve_runs = (\<lambda>j. sample_compactor\<lparr>cc_ids := sample_ids j\<rparr>)\<rparr>"

definition sample_descriptor :: export_descriptor where
  "sample_descriptor = \<lparr>ed_id = ''a'', ed_name = ''x'', ed_block_size = 512, ed_engine_kind = WalDurable, ed_state = Active,
    ed_created_at = ''t'', ed_updated_at = ''t'', ed_deleted_at = None\<rparr>"

definition sample_engine :: wal_durable_engine where
  "sample_engine = \<lparr>we_name = ''x'', we_size_bytes = 4096, we_block_size = 512, we_wal = fresh_wal, we_read_view = sample_view,
    we_reader = CowTreeReader, we_compaction = Some ''a'', we_policy = default_compaction_policy\<rparr>"

definition sample_world :: wal_world where
  "sample_world = \<lparr>ww_engine = sample_engine, ww_db = sample_db, ww_dir = [], ww_keys = 0, ww_runs = 0\<rparr>"

definition sample_head :: export_head where
  "sample_head = CowHead \<lparr>ch_size_bytes = 4096, ch_root_node_id = None, ch_base_wal_seq = 0, ch_tree_format = Bounded32V1\<rparr>"

lemma sample_env_ok: "env_ok sample_env"
proof -
  have "range (cc_ids (ve_runs sample_env i)) \<inter> range (cc_ids (ve_runs sample_env j)) = {}" if "i \<noteq> j" for i j
    using that by (auto simp: sample_env_def sample_ids_inject)
  then show ?thesis by (simp add: env_ok_def sample_env_def sample_compactor_def)
qed

lemma sample_stores_ok: "stores_ok sample_env sample_world"
proof -
  have "fresh_ids (cc_ids (ve_runs sample_env j)) sample_db" for j
    by (auto simp: fresh_ids_def sample_env_def sample_db_eq inj_on_def sample_ids_inject) (simp add: sample_ids_def valid_id_def NUL_def)
  moreover have "cc_keys (ve_runs sample_env 0) = cc_keys sample_compactor" by (simp add: sample_env_def)
  ultimately show ?thesis using sample_db_wf sample_compaction_ok(4) by (simp add: stores_ok_def sample_world_def)
qed

lemma sample_head_ok:
  "load_export_head db_ok (ww_db sample_world) (ed_id sample_descriptor) = Inr sample_head" "root_from_head sample_head = Inr sample_root"
  by (simp_all add: sample_world_def sample_descriptor_def sample_head_def sample_root_def sample_db_eq load_export_head_def catalog_eval root_from_head_def)

lemma sample_durable: "durable (ve_crc sample_env) (ww_db sample_world) (ww_dir sample_world) fresh_wal sample_root"
proof -
  have "wal_log crc fresh_wal = []" for crc using wal_log_inv [OF fresh_wal_inv] by (simp add: log_of_simps)
  moreover have "wal_ok crc fresh_wal" for crc using fresh_wal_inv by (auto simp: wal_ok_def)
  moreover have "last_durable (wal_bounds_of fresh_wal) = 0" "pruned_through (wal_bounds_of fresh_wal) = 0"
    by (simp_all add: fresh_wal_def wal_bounds_of_def empty_wal_bounds_def)
  ultimately show ?thesis
    using sample_compaction_ok(1) by (simp add: durable_def sample_world_def sample_root_def recs_def)
qed

lemma sample_opens:
  obtains e where "open_with_cow_tree sample_env sample_descriptor fresh_wal sample_head = (fresh_wal, Inr e)" "we_wal e = fresh_wal"
    "we_size_bytes e = 4096" "vs_wal_debt_bytes (we_read_view e) = 0"
proof -
  obtain e where e: "open_with_cow_tree sample_env sample_descriptor fresh_wal sample_head = (fresh_wal, Inr e)" "we_wal e = fresh_wal"
    "we_size_bytes e = rs_size_bytes sample_root" "vs_root (we_read_view e) = sample_root"
    "log_view (ve_crc sample_env) (ww_db sample_world) (ww_dir sample_world) fresh_wal (we_read_view e)"
    "vs_last_applied_seq (we_read_view e) = last_durable (wal_bounds_of fresh_wal)"
    by (rule open_ok [OF sample_durable env_okD(1) [OF sample_env_ok] sample_head_ok(2), of sample_descriptor])
      (simp add: sample_descriptor_def, blast)
  have "vs_last_applied_seq (we_read_view e) = 0" "rs_base_wal_seq sample_root = 0"
    using e(6) by (simp_all add: fresh_wal_def wal_bounds_of_def empty_wal_bounds_def sample_root_def)
  then have "vs_wal_debt_bytes (we_read_view e) = 0" using log_viewD(7) [OF e(5)] e(4) by simp
  then show thesis using that e(1-3) by (simp add: sample_root_def)
qed

lemmas sample_start = start_inv [OF sample_env_ok _ sample_stores_ok sample_durable sample_head_ok]

lemma sample_id_ok: "valid_id (ed_id sample_descriptor)"
  by (simp add: sample_descriptor_def sample_compaction_ok(3))

text \<open>One byte is appended to the log of the sample export, and applied.\<close>

lemma sample_append:
  assumes "open_with_cow_tree sample_env sample_descriptor fresh_wal sample_head = (fresh_wal, Inr e)" "we_wal e = fresh_wal"
    "we_size_bytes e = 4096" "vs_wal_debt_bytes (we_read_view e) = 0"
  obtains s r where "wal_reachable sample_env sample_descriptor (start_system sample_world e) s" "sy_append s = Some r" "sy_writes s = []"
    "wrec_range r = new_range 8 1" "wrec_data r = [7]" "we_size_bytes (ww_engine (sy_world s)) = 4096"
proof -
  let ?s = "start_system sample_world e" and ?data = "[7] :: bytes"
  have sel: "sy_append ?s = None" "ww_engine (sy_world ?s) = e" by (simp_all add: start_system_def)
  have room: "write_room (sy_world ?s) (length ?data)" using assms(2,4) fresh_wal_room sel(2) by (simp add: write_room_def u64_max_def)
  obtain s' r where a: "engine_append sample_env (sy_world ?s) \<lparr>wq_range = new_range 8 (length ?data), wq_data = ?data\<rparr> = (s', Inr r)"
      "wrec_range r = new_range 8 (length ?data)" "wrec_data r = ?data" "we_size_bytes (ww_engine s') = we_size_bytes (ww_engine (sy_world ?s))"
    by (rule sys_inv_append [OF sample_start [OF sample_id_ok assms(1)] sel(1) room, of 8])
      (use assms(3) sel(2) in \<open>simp_all add: u32_max_def\<close>)
  have "validate_request_range ''write'' 8 (length ?data) (we_size_bytes (ww_engine (sy_world ?s))) = Inr ()"
    using assms(3) sel(2) by (simp add: validate_request_range_def checked_add_def u64_max_def)
  from step_append [OF sel(1) room _ _ this a(1)]
  have "wal_step sample_env sample_descriptor ?s (?s\<lparr>sy_world := s', sy_append := Some r\<rparr>)" by (simp add: u32_max_def)
  then have "wal_reachable sample_env sample_descriptor ?s (?s\<lparr>sy_world := s', sy_append := Some r\<rparr>)" by (rule wal_next [OF wal_start])
  then show thesis using that a assms(3) sel(2) by (simp add: start_system_def)
qed

theorem wal_reads_see_all_writes_witness:
  "\<exists>e s s'. open_with_cow_tree sample_env sample_descriptor fresh_wal sample_head = (fresh_wal, Inr e) \<and>
    wal_reachable sample_env sample_descriptor (start_system sample_world e) s \<and> engine_read sample_env (sy_world s) 8 1 = (s', Inr [7])"
proof -
  obtain e where e: "open_with_cow_tree sample_env sample_descriptor fresh_wal sample_head = (fresh_wal, Inr e)" "we_wal e = fresh_wal"
    "we_size_bytes e = 4096" "vs_wal_debt_bytes (we_read_view e) = 0" by (rule sample_opens)
  obtain s1 r where s1: "wal_reachable sample_env sample_descriptor (start_system sample_world e) s1" "sy_append s1 = Some r" "sy_writes s1 = []"
    "wrec_range r = new_range 8 1" "wrec_data r = [7]" "we_size_bytes (ww_engine (sy_world s1)) = 4096" by (rule sample_append [OF e])
  obtain v where v: "engine_apply (sy_world s1) r = (set_view (sy_world s1) v, Inr ())"
    by (rule sys_inv_apply [OF sys_inv_reachable [OF s1(1) sample_start [OF sample_id_ok e(1)]] s1(2)])
  let ?s = "s1\<lparr>sy_world := set_view (sy_world s1) v, sy_append := None, sy_writes := sy_writes s1 @ [r]\<rparr>"
  have s: "wal_reachable sample_env sample_descriptor (start_system sample_world e) ?s"
    by (rule wal_next [OF s1(1) step_apply [OF s1(2) v]])
  obtain u data where u: "engine_read sample_env (sy_world ?s) 8 1 = (u, Inr data)"
    by (rule engine_read_total [OF sys_invD(1) [OF sys_inv_reachable [OF s sample_start [OF sample_id_ok e(1)]]], of 8 1])
      (use s1(6) in \<open>simp_all add: sample_env_def u32_max_def\<close>)
  have "data = [7]"
    using wal_reads_see_all_writes [OF sample_env_ok sample_id_ok sample_stores_ok sample_durable sample_head_ok e(1) s u] s1(3-5)
    by (simp add: u32_max_def covers_def record_byte_def range_bytes_def)
  then show ?thesis using e(1) s u by blast
qed

lemma crash_dir_clean: "wal_ok crc w \<Longrightarrow> crash_dir crc w (lx_dir w)"
  unfolding wal_ok_def crash_dir_def by (meson torn_tail_Nil wal_inv_def)

theorem wal_crash_loses_no_write_witness:
  "\<exists>e s files files' w2 head2 e2. wal_reachable sample_env sample_descriptor (start_system sample_world e) s \<and> sy_append s \<noteq> None \<and>
    open_local_wal (ve_crc sample_env) io_ok files 100 = (files', Inr w2) \<and>
    open_with_cow_tree sample_env sample_descriptor w2 head2 = (w2, Inr e2) \<and>
    view_byte (world_byte (sy_world s)) (we_read_view e2) 8 = 7"
proof -
  obtain e where e: "open_with_cow_tree sample_env sample_descriptor fresh_wal sample_head = (fresh_wal, Inr e)" "we_wal e = fresh_wal"
    "we_size_bytes e = 4096" "vs_wal_debt_bytes (we_read_view e) = 0" by (rule sample_opens)
  obtain s r where s: "wal_reachable sample_env sample_descriptor (start_system sample_world e) s" "sy_append s = Some r" "sy_writes s = []"
    "wrec_range r = new_range 8 1" "wrec_data r = [7]" by (rule sample_append [OF e])
  have "wal_ok (ve_crc sample_env) (world_wal (sy_world s))"
    by (rule log_viewD(1) [OF world_invD(4) [OF sys_invD(1) [OF sys_inv_reachable [OF s(1) sample_start [OF sample_id_ok e(1)]]]]])
  from wal_crash_loses_no_write [OF sample_env_ok sample_id_ok sample_stores_ok sample_durable sample_head_ok e(1) s(1) crash_dir_clean [OF this], of 100]
  obtain files' w2 head2 e2 where c: "open_local_wal (ve_crc sample_env) io_ok (lx_dir (world_wal (sy_world s))) 100 = (files', Inr w2)"
      "open_with_cow_tree sample_env sample_descriptor w2 head2 = (w2, Inr e2)"
      "view_byte (world_byte (sy_world s)) (we_read_view e2) =
        replay_bytes (sy_writes s @ [r]) (durable_byte (ve_crc sample_env) (ww_db sample_world) (ww_dir sample_world) fresh_wal sample_root)"
    by (auto simp: SEGMENT_HEADER_LEN_def s(2))
  have "view_byte (world_byte (sy_world s)) (we_read_view e2) 8 = 7"
    unfolding c(3) using s(3-5) by (simp add: covers_def record_byte_def range_bytes_def)
  then show ?thesis using s(1,2) c(1,2) by blast
qed

end
