(* ===== verification/Wal_Device.thy ===== *)
theory Wal_Device
  imports Wal_Durability
begin

text \<open>
  The WAL-durable engine refines the byte array of an export: the operations of
  \<open>nbd-server/src/engines/wal_durable/mod.rs\<close> are the steps of \<open>Wal_Durability\<close> in
  sequence, so a request does what it does on the byte array, and background compaction and
  close leave the contents as they are.
\<close>

section \<open>Compaction in one go\<close>

lemma run_compactor_engine: "ww_engine (fst (run_compactor env s eid sn)) = ww_engine s"
  by (simp add: run_compactor_def Let_def split: prod.split)

lemma locked_ok:
  assumes inv: "sys_inv env eid f s" and snap: "sy_snapshot s = None" and room: "wal_room (world_wal (sy_world s))"
    and cap: "capture_compaction_snapshot (world_view (sy_world s)) = Some sn"
  shows "sys_inv env eid f (s\<lparr>sy_world := fst (compact_snapshot_locked env (sy_world s) eid sn)\<rparr>)"
proof -
  let ?s = "s\<lparr>sy_snapshot := Some sn\<rparr>"
  have res: "sy_result s = None" using sys_invD(3) [OF inv] snap by (simp add: compaction_inv_def)
  obtain t r where run: "run_compactor env (sy_world s) eid sn = (t, r)" by (cases "run_compactor env (sy_world s) eid sn")
  have eng: "ww_engine t = ww_engine (sy_world s)" using run_compactor_engine [of env "sy_world s" eid sn] run by simp
  have c: "sys_inv env eid f (case r of Inr x \<Rightarrow> ?s\<lparr>sy_world := t, sy_result := Some x\<rparr> | Inl _ \<Rightarrow> ?s\<lparr>sy_world := t, sy_snapshot := None\<rparr>)"
    by (rule sys_inv_compact [OF sys_inv_capture [OF inv snap cap]]) (use run res in simp_all)
  show ?thesis
  proof (cases r)
    case (Inl e)
    then show ?thesis using c run snap by (simp add: compact_snapshot_locked_def sys_inv_def)
  next
    case (Inr x)
    then have i: "sys_inv env eid f (?s\<lparr>sy_world := t, sy_result := Some x\<rparr>)" using c by simp
    obtain t' where t': "advance_after_snapshot_compaction env t x sn = (t', Inr ())"
      "sys_inv env eid f (?s\<lparr>sy_world := t, sy_result := Some x, sy_world := t', sy_snapshot := None, sy_result := None\<rparr>)"
      by (rule sys_inv_advance [OF i]) (use room eng in auto)
    then show ?thesis using run Inr snap res by (simp add: compact_snapshot_locked_def sys_inv_def)
  qed
qed

text \<open>Compaction changes neither the size nor the export the engine serves.\<close>

lemma advance_size:
  "we_size_bytes (ww_engine (fst (advance_after_snapshot_compaction env s x sn))) = we_size_bytes (ww_engine s)"
proof (cases "cx_published_root x")
  case (Some root)
  obtain v r where "advance_after_compaction (world_view s) root sn = (v, r)" by (cases "advance_after_compaction (world_view s) root sn")
  then show ?thesis using Some
    by (cases r) (simp_all add: advance_after_snapshot_compaction_def prune_published_wal_def Let_def split: compaction_outcome.split)
qed (simp add: advance_after_snapshot_compaction_def split: compaction_outcome.split)

lemma locked_size:
  "we_size_bytes (ww_engine (fst (compact_snapshot_locked env s eid sn))) = we_size_bytes (ww_engine s)"
proof -
  obtain t r where run: "run_compactor env s eid sn = (t, r)" by (cases "run_compactor env s eid sn")
  have eng: "ww_engine t = ww_engine s" using run_compactor_engine [of env s eid sn] run by simp
  show ?thesis
  proof (cases r)
    case (Inr x)
    obtain t' r' where "advance_after_snapshot_compaction env t x sn = (t', r')" by (cases "advance_after_snapshot_compaction env t x sn")
    then show ?thesis using run Inr eng advance_size [of env t x sn] by (cases r') (simp_all add: compact_snapshot_locked_def)
  qed (use run eng in \<open>simp add: compact_snapshot_locked_def\<close>)
qed

section \<open>The engine as a device\<close>

definition idle :: "wal_world \<Rightarrow> wal_system" where
  "idle s = \<lparr>sy_world = s, sy_append = None, sy_snapshot = None, sy_result = None, sy_writes = []\<rparr>"

abbreviation bytes_of :: "wal_world \<Rightarrow> nat \<Rightarrow> u8" where
  "bytes_of s \<equiv> view_byte (world_byte s) (world_view s)"

definition wal_device_inv :: "wal_env \<Rightarrow> export_id \<Rightarrow> wal_world \<Rightarrow> bool" where
  "wal_device_inv env eid s \<longleftrightarrow> ve_db env = db_ok \<and> ve_io env = io_ok \<and> sys_inv env eid (bytes_of s) (idle s)"

definition wal_contents :: "wal_world \<Rightarrow> bytes" where
  "wal_contents s = map (bytes_of s) [0..<we_size_bytes (ww_engine s)]"

text \<open>The requests the engine takes: lengths of 32 bits, and a write while the counters last.\<close>

fun wal_accepts :: "wal_env \<Rightarrow> wal_world \<Rightarrow> export_request \<Rightarrow> bool" where
  "wal_accepts env s (ExportRead off len) = (len \<le> u32_max)"
| "wal_accepts env s (ExportWrite off data) = (length data \<le> u32_max \<and> write_room s (length data) \<and>
    wal_room (world_wal (fst (engine_append env s \<lparr>wq_range = new_range off (length data), wq_data = data\<rparr>))))"
| "wal_accepts env s ExportFlush = True"

text \<open>A system with no task at work on it is an engine by itself.\<close>

lemma device_of_sys:
  assumes "sys_inv env eid f s" "sy_append s = None" "sy_snapshot s = None" "ve_db env = db_ok" "ve_io env = io_ok"
  shows "wal_device_inv env eid (sy_world s)" "bytes_of (sy_world s) = replay_bytes (sy_writes s) f"
proof -
  note i = sys_invD [OF assms(1)]
  have "sy_result s = None" using i(3) assms(3) by (simp add: compaction_inv_def)
  then show "wal_device_inv env eid (sy_world s)" using i assms(2-5) by (simp add: wal_device_inv_def sys_inv_def idle_def)
  show "bytes_of (sy_world s) = replay_bytes (sy_writes s) f" by (rule i(4))
qed

lemma length_contents [simp]: "length (wal_contents s) = we_size_bytes (ww_engine s)"
  by (simp add: wal_contents_def)

lemma pressure_ok:
  assumes inv: "sys_inv env eid f s" and snap: "sy_snapshot s = None" and room: "wal_room (world_wal (sy_world s))"
  shows "sys_inv env eid f (s\<lparr>sy_world := compact_if_wal_debt_exceeds_threshold env (sy_world s)\<rparr>) \<and>
    we_size_bytes (ww_engine (compact_if_wal_debt_exceeds_threshold env (sy_world s))) = we_size_bytes (ww_engine (sy_world s))"
proof -
  have id: "we_compaction (ww_engine (sy_world s)) = Some eid" by (rule world_invD(7) [OF sys_invD(1) [OF inv]])
  show ?thesis
  proof (cases "capture_compaction_snapshot (world_view (sy_world s))")
    case (Some sn)
    then show ?thesis using locked_ok [OF inv snap room Some] locked_size inv id
      by (simp add: compact_if_wal_debt_exceeds_threshold_def compact_write_pressure_best_effort_def)
  qed (use inv id in \<open>simp add: compact_if_wal_debt_exceeds_threshold_def compact_write_pressure_best_effort_def\<close>)
qed

lemma validate_request_eq:
  "n \<le> u64_max \<Longrightarrow> validate_request_range op off len n = (if off + len \<le> n then Inr () else Inl (OutOfBounds op off len n))"
  by (auto simp: validate_request_range_def checked_add_def)

lemma device_size: "wal_device_inv env eid s \<Longrightarrow> we_size_bytes (ww_engine s) \<le> u64_max"
  using log_viewD(2) [OF world_invD(4) [OF sys_invD(1)]] world_invD(6) [OF sys_invD(1)]
  by (fastforce simp: wal_device_inv_def idle_def cow_root_ok_def)

lemma map_copy_at:
  assumes "off + length data \<le> n" "\<And>x. x < n \<Longrightarrow> g x = (if off \<le> x \<and> x < off + length data then data ! (x - off) else f x)"
  shows "map g [0..<n] = copy_at (map f [0..<n]) off data"
  using assms by (intro nth_equalityI) (auto simp: slice_simps)

lemma write_ok:
  assumes inv: "wal_device_inv env eid s" and acc: "wal_accepts env s (ExportWrite off data)"
    and fit: "off + length data \<le> we_size_bytes (ww_engine s)" and data: "data \<noteq> []"
  obtains s' where "engine_write env s off data = (s', Inr ())" "wal_device_inv env eid s'" "wal_contents s' = copy_at (wal_contents s) off data"
proof -
  have env: "ve_db env = db_ok" "ve_io env = io_ok" and sys: "sys_inv env eid (bytes_of s) (idle s)" using inv by (auto simp: wal_device_inv_def)
  have len: "length data \<le> u32_max" and room: "write_room (sy_world (idle s)) (length data)"
    and room': "wal_room (world_wal (fst (engine_append env s \<lparr>wq_range = new_range off (length data), wq_data = data\<rparr>)))"
    using acc by (simp_all add: idle_def)
  have idle: "sy_append (idle s) = None" "sy_world (idle s) = s" by (simp_all add: idle_def)
  obtain t r where a: "engine_append env s \<lparr>wq_range = new_range off (length data), wq_data = data\<rparr> = (t, Inr r)"
      "sys_inv env eid (bytes_of s) (idle s\<lparr>sy_world := t, sy_append := Some r\<rparr>)" "wrec_range r = new_range off (length data)" "wrec_data r = data"
      "we_size_bytes (ww_engine t) = we_size_bytes (ww_engine s)"
    by (rule sys_inv_append [OF sys idle(1) room data len, of off]) (use fit idle(2) in auto)
  obtain v where v: "engine_apply t r = (set_view t v, Inr ())"
      "sys_inv env eid (bytes_of s) (idle s\<lparr>sy_world := t, sy_append := Some r, sy_world := set_view t v, sy_append := None,
        sy_writes := sy_writes (idle s) @ [r]\<rparr>)"
    by (rule sys_inv_apply [OF a(2)]) (auto simp: idle_def)
  let ?s = "idle s\<lparr>sy_world := t, sy_append := Some r, sy_world := set_view t v, sy_append := None, sy_writes := sy_writes (idle s) @ [r]\<rparr>"
  let ?t = "compact_if_wal_debt_exceeds_threshold env (set_view t v)"
  have p: "sys_inv env eid (bytes_of s) (?s\<lparr>sy_world := ?t\<rparr>)" "we_size_bytes (ww_engine ?t) = we_size_bytes (ww_engine s)"
    using pressure_ok [OF v(2)] a(1,5) room' by (simp_all add: idle_def)
  note dv = device_of_sys [OF p(1) _ _ env]
  have b: "bytes_of ?t = replay_bytes [r] (bytes_of s)" using dv(2) by (simp add: idle_def)
  have "wal_contents ?t = copy_at (wal_contents s) off data"
    unfolding wal_contents_def p(2) b
    by (rule map_copy_at [OF fit]) (use a(3,4) in \<open>auto simp: covers_def record_byte_def range_bytes_def\<close>)
  moreover have "engine_write env s off data = (?t, Inr ())"
    using a(1) v(1) fit data len device_size [OF inv]
    by (simp add: engine_write_def validate_request_eq try_u32_def new_wal_request_def)
  ultimately show thesis using that dv(1) by (simp add: idle_def)
qed

lemma device_view:
  assumes inv: "wal_device_inv env eid s" and v: "same_view (world_view s) v" "view_inv (world_byte s) v"
  shows "wal_device_inv env eid (set_view s v)" "wal_contents (set_view s v) = wal_contents s"
proof -
  have env: "ve_db env = db_ok" "ve_io env = io_ok" and sys: "sys_inv env eid (bytes_of s) (idle s)" using inv by (auto simp: wal_device_inv_def)
  have "sys_inv env eid (bytes_of s) (idle s\<lparr>sy_world := set_view s v\<rparr>)" using sys_inv_view [OF sys] v by (simp add: idle_def)
  from device_of_sys(1) [OF this _ _ env] show "wal_device_inv env eid (set_view s v)" by (simp add: idle_def)
  show "wal_contents (set_view s v) = wal_contents s" using same_view_byte [OF v(1)] by (simp add: wal_contents_def)
qed

lemma slice_contents: "off + len \<le> we_size_bytes (ww_engine s) \<Longrightarrow> slice (wal_contents s) off len = map (bytes_of s) [off..<off + len]"
  by (intro nth_equalityI) (auto simp: slice_simps wal_contents_def)

lemma wal_execute_disk:
  assumes inv: "wal_device_inv env eid s" and acc: "wal_accepts env s q"
  shows "wal_device_inv env eid (fst (wal_execute env s q)) \<and> wal_contents (fst (wal_execute env s q)) = fst (disk_exec (wal_contents s) q) \<and>
    snd (wal_execute env s q) = snd (disk_exec (wal_contents s) q)"
proof (cases q)
  case (ExportRead off len)
  note size = device_size [OF inv]
  show ?thesis
  proof (cases "off + len \<le> we_size_bytes (ww_engine s)")
    case True
    have i: "world_inv env eid s" "ve_db env = db_ok" "ve_io env = io_ok" using inv sys_invD(1) by (fastforce simp: wal_device_inv_def idle_def)+
    obtain v where v: "engine_read env s off len = (set_view s v, Inr (map (bytes_of s) [off..<off + len]))"
      "same_view (world_view s) v" "view_inv (world_byte s) v"
      by (rule engine_read_total [OF i True]) (use acc ExportRead in auto)
    then show ?thesis using ExportRead True device_view [OF inv v(2,3)] by (simp add: slice_contents)
  next
    case False
    then show ?thesis using ExportRead inv size by (simp add: engine_read_def validate_range_def validate_request_eq Let_def)
  qed
next
  case (ExportWrite off data)
  consider "data = []" | "data \<noteq> []" "off + length data \<le> we_size_bytes (ww_engine s)" | "\<not> off + length data \<le> we_size_bytes (ww_engine s)" by blast
  then show ?thesis
  proof cases
    case 2
    obtain s' where "engine_write env s off data = (s', Inr ())" "wal_device_inv env eid s'" "wal_contents s' = copy_at (wal_contents s) off data"
      by (rule write_ok [OF inv _ 2(2,1)]) (use acc ExportWrite in auto)
    then show ?thesis using ExportWrite 2 by simp
  qed (use ExportWrite inv device_size [OF inv] in \<open>simp_all add: engine_write_def validate_request_eq\<close>)
qed (use inv in \<open>simp add: engine_flush_def\<close>)

interpretation wal_device: block_device "wal_execute env" "wal_device_inv env eid" wal_contents "wal_accepts env"
  by unfold_locales (simp_all add: wal_execute_disk)

section \<open>Maintenance\<close>

lemma device_compacted:
  assumes inv: "wal_device_inv env eid s" and room: "wal_room (world_wal s)"
    and cap: "capture_compaction_snapshot (world_view s) = Some sn"
  shows "wal_device_inv env eid (fst (compact_snapshot_locked env s eid sn)) \<and> wal_contents (fst (compact_snapshot_locked env s eid sn)) = wal_contents s"
proof -
  have env: "ve_db env = db_ok" "ve_io env = io_ok" and sys: "sys_inv env eid (bytes_of s) (idle s)" using inv by (auto simp: wal_device_inv_def)
  have "sys_inv env eid (bytes_of s) (idle s\<lparr>sy_world := fst (compact_snapshot_locked env s eid sn)\<rparr>)"
    using locked_ok [OF sys, of sn] room cap by (simp add: idle_def)
  from device_of_sys [OF this _ _ env] show ?thesis by (simp add: idle_def wal_contents_def locked_size)
qed

lemma device_pruned:
  assumes inv: "wal_device_inv env eid s" and room: "wal_room (world_wal s)"
  shows "wal_device_inv env eid (prune_published_wal env s (rs_base_wal_seq (vs_root (world_view s)))) \<and>
    wal_contents (prune_published_wal env s (rs_base_wal_seq (vs_root (world_view s)))) = wal_contents s"
proof -
  have env: "ve_db env = db_ok" "ve_io env = io_ok" and sys: "sys_inv env eid (bytes_of s) (idle s)" using inv by (auto simp: wal_device_inv_def)
  have "sys_inv env eid (bytes_of s) (idle s\<lparr>sy_world := prune_published_wal env s (rs_base_wal_seq (vs_root (world_view s)))\<rparr>)"
    using sys_inv_prune [OF sys] room by (simp add: idle_def)
  from device_of_sys [OF this _ _ env] show ?thesis by (simp add: idle_def wal_contents_def prune_published_wal_def)
qed

lemma tick_ok:
  assumes inv: "wal_device_inv env eid s" and room: "wal_room (world_wal s)"
  shows "wal_device_inv env eid (fst (compact_background_tick env s eid policy busy)) \<and>
    wal_contents (fst (compact_background_tick env s eid policy busy)) = wal_contents s"
  using inv device_compacted [OF assms]
  by (auto simp: compact_background_tick_def Let_def split: option.split prod.split sum.split)

lemma root_from_head_base: "root_from_head head = Inr root \<Longrightarrow> head_base_wal_seq head = rs_base_wal_seq root"
  by (auto simp: root_from_head_def and_then_Inr_iff split: if_splits)

lemma close_ok:
  assumes inv: "wal_device_inv env eid s" and room: "wal_room (world_wal s)"
  shows "wal_device_inv env eid (fst (wal_close env s)) \<and> wal_contents (fst (wal_close env s)) = wal_contents s"
proof -
  have w: "world_inv env eid s" using inv sys_invD(1) by (fastforce simp: wal_device_inv_def idle_def)
  obtain head where head: "to_export_head (vs_root (world_view s)) = Inr head" "root_from_head head = Inr (vs_root (world_view s))"
    by (rule head_of_root [OF log_viewD(2) [OF world_invD(4) [OF w]]])
  note base = root_from_head_base [OF head(2)]
  show ?thesis using world_invD(7) [OF w] head(1) base device_compacted [OF assms] device_pruned [OF assms]
    by (auto simp: wal_close_def compact_close_best_effort_def compact_snapshot_best_effort_def coordinator_compact_snapshot_def split: option.split)
qed

section \<open>Properties\<close>

text \<open>
  C4. The WAL-durable engine is a disk: on a well-formed engine whose files and catalog do not
  fail, every request does to the contents what it does to a byte array of the size of the
  export and returns the array's reply, refusals included. Compactions that a write triggers
  may fail or be stale at any point without a trace in the contents.
\<close>

theorem wal_engine_refines_disk:
  assumes "wal_device_inv env eid s" "wal_accepts env s q"
  shows "wal_device_inv env eid (fst (wal_execute env s q)) \<and> wal_contents (fst (wal_execute env s q)) = fst (disk_exec (wal_contents s) q) \<and>
    snd (wal_execute env s q) = snd (disk_exec (wal_contents s) q)"
  using wal_device.execute_inv [OF assms] wal_device.execute_contents [OF assms] wal_device.execute_reply [OF assms] by blast

lemma sample_device:
  obtains e where "wal_device_inv sample_env ''a'' (sample_world\<lparr>ww_engine := e\<rparr>)" "we_wal e = fresh_wal" "we_size_bytes e = 4096"
    "vs_wal_debt_bytes (we_read_view e) = 0"
proof -
  obtain e where e: "open_with_cow_tree sample_env sample_descriptor fresh_wal sample_head = (fresh_wal, Inr e)" "we_wal e = fresh_wal"
    "we_size_bytes e = 4096" "vs_wal_debt_bytes (we_read_view e) = 0" by (rule sample_opens)
  from device_of_sys(1) [OF sample_start [OF sample_id_ok e(1)]]
  have "wal_device_inv sample_env ''a'' (sample_world\<lparr>ww_engine := e\<rparr>)"
    by (simp add: start_system_def sample_env_def sample_descriptor_def)
  then show thesis using that e(2-4) by blast
qed

lemma sample_append_room:
  "wal_room (fst (wal_append crc io_ok fresh_wal \<lparr>wq_range = new_range 8 1, wq_data = [7]\<rparr>))"
  by (simp add: wal_append_def ensure_active_segment_def fresh_wal_def empty_wal_bounds_def next_seq_after_def checked_add_def
      write_new_segment_def sync_directory_def io_ok_def io_step_def record_from_request_def file_bytes_def put_file_def wal_room_def wal_bounds_of_def
      length_encode_record SEGMENT_HEADER_LEN_def RECORD_HEADER_LEN_def u64_max_def u32_max_def Let_def)

theorem wal_engine_refines_disk_witness:
  "\<exists>s s'. length (wal_contents s) = 4096 \<and> wal_execute sample_env s (ExportWrite 8 [7]) = (s', Inr ReplyDone) \<and>
    wal_contents s' = copy_at (wal_contents s) 8 [7]"
proof -
  obtain e where e: "wal_device_inv sample_env ''a'' (sample_world\<lparr>ww_engine := e\<rparr>)" "we_wal e = fresh_wal" "we_size_bytes e = 4096"
    "vs_wal_debt_bytes (we_read_view e) = 0" by (rule sample_device)
  let ?s = "sample_world\<lparr>ww_engine := e\<rparr>"
  have io: "ve_wal_io sample_env = io_ok" by (simp add: sample_env_def)
  obtain w r where a: "wal_append (ve_crc sample_env) io_ok fresh_wal \<lparr>wq_range = new_range 8 1, wq_data = [7]\<rparr> = (w, r)"
    by (cases "wal_append (ve_crc sample_env) io_ok fresh_wal \<lparr>wq_range = new_range 8 1, wq_data = [7]\<rparr>")
  have "wal_accepts sample_env ?s (ExportWrite 8 [7])"
    using e(2,4) fresh_wal_room sample_append_room [of "ve_crc sample_env"] a io
    by (simp add: write_room_def engine_append_def u32_max_def u64_max_def)
  from wal_engine_refines_disk [OF e(1) this] e(3) show ?thesis
    by (intro exI [of _ ?s] exI [of _ "fst (wal_execute sample_env ?s (ExportWrite 8 [7]))"]) (simp add: prod_eq_iff)
qed



end
