(* ===== verification/Spec2Isabelle.thy ===== *)
theory Spec2Isabelle
  imports Negotiation Transmission Wal_Log Tree_Read Memory_Engine Wal_Device
begin

text \<open>
  A verification development for \<open>nbd-server\<close>, a network block device server in Rust.

  \<^bold>\<open>The program.\<close> A client negotiates an export over the NBD protocol and sends read, write
  and flush requests. A runtime admits the requests of an export so that conflicting ones run
  in order, and an engine executes them: in memory, or durably through a write-ahead log, a
  view of the log over a committed copy-on-write tree, and a compaction that turns the log
  into a new tree. A catalog in SQLite records the exports, their heads and the tree's nodes;
  a blob store holds the chunks the leaves name. Paths below are relative to \<open>src/crates\<close>.

  \<^bold>\<open>Conventions.\<close> A Rust \<open>Result\<close> is a sum with the error on the left, sequenced by
  \<open>and_then\<close>; fallible code that changes state returns the state beside the result and is
  sequenced by \<open>then_st\<close>, so an early return keeps the effects before it. Wire integers are
  words; offsets, lengths and counters are natural numbers with the checked and saturating
  operations of \<open>u64\<close> and \<open>u32\<close> where the code uses them. A \<open>HashMap\<close> or \<open>BTreeMap\<close> is an
  association list. Code outside the repository is a parameter: the CRC of the log
  (\<open>crc\<close>), the failures of the file system (\<open>io_env\<close>) and of the database (\<open>db_env\<close>), the
  clock, the supplies of node ids, export ids and blob keys, and the order of a hash table.
  Error values keep the source's variants; rendered messages are dropped.

  \<^bold>\<open>Theories.\<close>
  \<^item> \<open>Prelude\<close>: results, loops, checked arithmetic, slices, byte order, the locale \<open>codec\<close>.
  \<^item> \<open>Wire\<close>, \<open>Negotiation\<close>, \<open>Transmission\<close> (\<open>nbd-protocol\<close>): readers and writers,
    handshake and options, requests and replies. Each parser accepts exactly what the encoder
    writes.
  \<^item> \<open>Catalog_Types\<close> (\<open>nbd-control-plane-core\<close>) and \<open>Sqlite_Catalog\<close>
    (\<open>nbd-control-plane-sqlite\<close>): export heads, tree records, the tables with their
    constraints and every query and transaction. Publication is a compare-and-swap of the
    head; creation, cloning and deletion are read back as made.
  \<^item> \<open>Byte_Range\<close>, \<open>Server_Error\<close> (\<open>nbd-server/src/{range,error}.rs\<close>).
  \<^item> \<open>Wal_Codec\<close>, \<open>Wal_Local\<close>, \<open>Wal_Log\<close> (\<open>nbd-server/src/wal\<close>): record frames, the log
    over a directory of segment files, and its refinement of a list of records with
    consecutive numbers (the locale \<open>export_wal\<close>): open after a torn write, append, replay
    and prune.
  \<^item> \<open>Admission\<close>, \<open>Export_Engine\<close>, \<open>Export_Runtime\<close>, \<open>Memory_Engine\<close>
    (\<open>nbd-server/src/export\<close>, \<open>engines/memory.rs\<close>): tickets, conflicts and promotion as a
    step relation; the contract of an engine (the locale \<open>block_device\<close>, extended by
    \<open>admitted_device\<close>); the runtime's queue, jobs and close; the memory engine. Conflicting
    requests never run together and run in ticket order, every waiter is granted, and the
    memory export is equivalent to serial execution in ticket order.
  \<^item> \<open>Ordered_Map\<close>, \<open>Extent_Map\<close>, \<open>Overlay\<close>, \<open>Read_Cache\<close>, \<open>Read_View\<close>
    (\<open>nbd-server/src/engines/wal_durable\<close>): extents, the overlay of log records, the cache
    and the view that reads overlay, cache and tree in that order (the tree behind the locale
    \<open>tree_reader\<close>). A read sees the latest write whatever the cache holds.
  \<^item> \<open>Tree_Geometry\<close>, \<open>Tree_Read\<close>, \<open>Blob_Store\<close> (\<open>engines/tree\<close>, \<open>storage\<close>): the shape of
    the tree, the walk to a leaf with its checks, and the local blob store (the locale
    \<open>blob_store\<close>).
  \<^item> \<open>Cow_Planner\<close>, \<open>Compaction\<close> (\<open>engines/wal_durable/compaction.rs\<close>): chunk images, the
    planner of copied paths and the publication. Every other tree keeps its bytes, and a
    published root holds the snapshot over the old tree.
  \<^item> \<open>Wal_Engine\<close>, \<open>Wal_Durability\<close>, \<open>Wal_Device\<close> (\<open>engines/wal_durable/mod.rs\<close>): the
    engine, the steps between which other tasks or a crash come, and the engine as a
    \<open>block_device\<close>. Every write is seen by later reads and survives every crash, and requests
    behave as on a byte array.

  \<^bold>\<open>How state and operations correspond.\<close> A struct is a record with a prefix per type, an
  enum a datatype, a method a definition of the same name where the name is free. State behind
  a lock is an argument and a result; each critical section is one step. Concurrency appears
  where a lock is released in between: \<open>admission_step\<close> and \<open>runtime_step\<close> are the
  interleavings of submitting, executing, cancelling and closing tasks; \<open>wal_step\<close> those of
  reads, the write lock, the compaction lock, and crashes; \<open>Read_View\<close> treats the end of a
  read in any later state of the view.

  \<^bold>\<open>Bounds.\<close> Every recursion terminates by its own measure; there is no fuel. The retry of
  a random blob key has the 16 attempts of the source. The lemmas on the log ask for room in
  its 64-bit counters (\<open>wal_room\<close>: two more numbers and two more frames of the largest size),
  and a write for room in the debt counter (\<open>write_room\<close>); an export is at most one chunk
  below 2 to the 64. These are the only limits on histories.

  \<^bold>\<open>What is assumed.\<close> \<open>env_ok\<close> and \<open>stores_ok\<close>: the files of the log do not fail (a failed
  sync is treated apart: it makes the log unreadable, a finding of \<open>Wal_Log\<close>), random ids
  and keys do not repeat, and a hash table yields what was inserted. Reads, the catalog and
  the compactor may fail at any step. A crash leaves the segment files with a prefix of one
  frame at the end; a crash between the creation of a segment and its header, or between the
  deletions of one prune, is not covered.

  \<^bold>\<open>Not modelled.\<close> The in-place engine over mutable blobs, the registry of open exports, S3,
  configuration, sockets and tasks, command line tools, the test client, logging and the
  timer of the background compaction: they are I/O, scheduling or wrappers around the parts
  above, and the simple engine and the registry are left for later.
\<close>

end
